(* ===== verification/Go_Base.thy ===== *)
theory Go_Base
  imports Main "HOL-Library.Word"
begin

text \<open>
  The prelude: the parts of Go that every component uses.
  \<^item> \<open>int\<close> of Go is 64 bits wide on the supported targets. It is an \<open>int\<close> here, and
    every arithmetic operation of the source that could leave the range is wrapped by
    \<open>i64\<close>; \<open>in_i64\<close> is the range. \<open>uint64\<close> is \<open>64 word\<close>.
  \<^item> \<open>time.Time\<close> is the number of nanoseconds since Go's zero time, \<open>time.Duration\<close> an
    \<open>int64\<close> number of nanoseconds; \<open>time_sub\<close> saturates as \<open>Time.Sub\<close> does. The readings
    of the clock are arguments of the operations that take them.
  \<^item> \<open>string\<close> of Go is a list of bytes, which is what \<open>char list\<close> is here.
\<close>

named_theorems go_arith \<open>wrap-around and clock arithmetic on values in range\<close>

section \<open>64-bit signed integers\<close>

definition i64 :: "int \<Rightarrow> int" where
  "i64 x = (x + 2 ^ 63) mod 2 ^ 64 - 2 ^ 63"

definition in_i64 :: "int \<Rightarrow> bool" where
  "in_i64 x \<longleftrightarrow> - (2 ^ 63) \<le> x \<and> x < 2 ^ 63"

lemma i64_id [go_arith]: "in_i64 x \<Longrightarrow> i64 x = x"
  by (simp add: i64_def in_i64_def)

lemma i64_idI: "- (2 ^ 63) \<le> x \<Longrightarrow> x < 2 ^ 63 \<Longrightarrow> i64 x = x"
  by (simp add: i64_def)

lemma in_i64_i64 [simp]: "in_i64 (i64 x)"
proof -
  have "0 \<le> (x + 2 ^ 63) mod (2 ^ 64)" and "(x + 2 ^ 63) mod (2 ^ 64) < (2::int) ^ 64"
    by simp_all
  then show ?thesis unfolding i64_def in_i64_def by simp
qed

lemma i64_add_left: "i64 (i64 x + y) = i64 (x + y)"
proof -
  have "i64 x + y + 2 ^ 63 = (x + 2 ^ 63) mod 2 ^ 64 + y"
    by (simp add: i64_def)
  then have "(i64 x + y + 2 ^ 63) mod 2 ^ 64 = (x + 2 ^ 63 + y) mod 2 ^ 64"
    by (simp only: mod_add_left_eq)
  then show ?thesis
    unfolding i64_def [of "i64 x + y"] i64_def [of "x + y"] by (simp add: algebra_simps)
qed

section \<open>Time\<close>

type_synonym time = int
type_synonym duration = int

definition Nanosecond :: duration where "Nanosecond = 1"
definition Millisecond :: duration where "Millisecond = 1000000"
definition Second :: duration where "Second = 1000000000"
definition Minute :: duration where "Minute = 60000000000"
definition Hour :: duration where "Hour = 3600000000000"

lemmas duration_units = Nanosecond_def Millisecond_def Second_def Minute_def Hour_def

text \<open>\<open>time.Time\<close>'s zero value, and the saturating difference \<open>Time.Sub\<close>.\<close>

definition zero_time :: time where "zero_time = 0"

definition time_sub :: "time \<Rightarrow> time \<Rightarrow> duration" where
  "time_sub t u = max (- (2 ^ 63)) (min (2 ^ 63 - 1) (t - u))"

lemma time_sub_exact [go_arith]: "in_i64 (t - u) \<Longrightarrow> time_sub t u = t - u"
  by (simp add: time_sub_def in_i64_def)

lemma time_sub_ge_iff:
  "- (2 ^ 63) < d \<Longrightarrow> d < 2 ^ 63 \<Longrightarrow> d \<le> time_sub t u \<longleftrightarrow> d \<le> t - u"
  by (auto simp: time_sub_def)

end
