(* ===== verification/Circuit_Breaker.thy ===== *)
theory Circuit_Breaker
  imports Go_Base
begin

text \<open>
  The per-key circuit breaker of \<^verbatim>\<open>internal/keypool/circuitbreaker.go\<close>: its record, its six
  methods in the order of the file, and what they do to the state machine
  closed / open / half-open. The state is the string the code keeps (the constants are those
  of \<^verbatim>\<open>internal/db/adapter.go\<close>), so the \<open>default\<close> branch of \<open>AllowRequest\<close> is a branch of
  the model; \<open>cb_inv\<close> shows that it is dead. Each method holds the breaker's mutex from its
  first to its last line, so it is one atomic function here; \<open>now\<close> is the clock reading it
  takes.
\<close>

section \<open>State\<close>

definition CircuitStateClosed :: string where "CircuitStateClosed = ''closed''"
definition CircuitStateOpen :: string where "CircuitStateOpen = ''open''"
definition CircuitStateHalfOpen :: string where "CircuitStateHalfOpen = ''half_open''"

lemmas circuit_states = CircuitStateClosed_def CircuitStateOpen_def CircuitStateHalfOpen_def

record circuit_breaker =
  cb_state :: string
  cb_failureCount :: int
  cb_lastFailedAt :: time
  cb_failureThreshold :: int
  cb_openDuration :: duration

section \<open>Operations\<close>

definition NewCircuitBreaker :: "int \<Rightarrow> duration \<Rightarrow> circuit_breaker" where
  "NewCircuitBreaker threshold dur =
     \<lparr>cb_state = CircuitStateClosed, cb_failureCount = 0, cb_lastFailedAt = zero_time,
      cb_failureThreshold = threshold, cb_openDuration = dur\<rparr>"

definition AllowRequest :: "time \<Rightarrow> circuit_breaker \<Rightarrow> circuit_breaker \<times> bool" where
  "AllowRequest now cb =
     (if cb_state cb = CircuitStateClosed then (cb, True)
      else if cb_state cb = CircuitStateOpen then
        (if cb_openDuration cb \<le> time_sub now (cb_lastFailedAt cb)
         then (cb\<lparr>cb_state := CircuitStateHalfOpen\<rparr>, True)
         else (cb, False))
      else if cb_state cb = CircuitStateHalfOpen then (cb, True)
      else (cb, False))"

definition RecordSuccess :: "circuit_breaker \<Rightarrow> circuit_breaker" where
  "RecordSuccess cb = cb\<lparr>cb_failureCount := 0, cb_state := CircuitStateClosed\<rparr>"

definition RecordFailure :: "time \<Rightarrow> circuit_breaker \<Rightarrow> circuit_breaker" where
  "RecordFailure now cb =
     (let cb1 = cb\<lparr>cb_failureCount := i64 (cb_failureCount cb + 1), cb_lastFailedAt := now\<rparr>
      in if cb_failureThreshold cb1 \<le> cb_failureCount cb1
         then cb1\<lparr>cb_state := CircuitStateOpen\<rparr> else cb1)"

definition cb_State :: "circuit_breaker \<Rightarrow> string" where
  "cb_State cb = cb_state cb"

definition cb_FailureCount :: "circuit_breaker \<Rightarrow> int" where
  "cb_FailureCount cb = cb_failureCount cb"

definition cb_Reset :: "circuit_breaker \<Rightarrow> circuit_breaker" where
  "cb_Reset cb =
     cb\<lparr>cb_state := CircuitStateClosed, cb_failureCount := 0, cb_lastFailedAt := zero_time\<rparr>"

lemmas cb_defs = NewCircuitBreaker_def AllowRequest_def RecordSuccess_def RecordFailure_def
  cb_State_def cb_FailureCount_def cb_Reset_def circuit_states


section \<open>One method\<close>

definition cb_state_ok :: "circuit_breaker \<Rightarrow> bool" where
  "cb_state_ok cb \<longleftrightarrow>
     cb_state cb \<in> {CircuitStateClosed, CircuitStateOpen, CircuitStateHalfOpen}"

lemma circuit_states_distinct [simp]:
  "CircuitStateClosed \<noteq> CircuitStateOpen" "CircuitStateOpen \<noteq> CircuitStateClosed"
  "CircuitStateClosed \<noteq> CircuitStateHalfOpen" "CircuitStateHalfOpen \<noteq> CircuitStateClosed"
  "CircuitStateOpen \<noteq> CircuitStateHalfOpen" "CircuitStateHalfOpen \<noteq> CircuitStateOpen"
  by (simp_all add: circuit_states)

lemma NewCircuitBreaker_fields [simp]:
  "cb_state (NewCircuitBreaker th d) = CircuitStateClosed"
  "cb_failureCount (NewCircuitBreaker th d) = 0"
  "cb_failureThreshold (NewCircuitBreaker th d) = th"
  "cb_openDuration (NewCircuitBreaker th d) = d"
  by (simp_all add: NewCircuitBreaker_def)

lemma AllowRequest_keeps [simp]:
  "cb_failureCount (fst (AllowRequest t cb)) = cb_failureCount cb"
  "cb_lastFailedAt (fst (AllowRequest t cb)) = cb_lastFailedAt cb"
  "cb_failureThreshold (fst (AllowRequest t cb)) = cb_failureThreshold cb"
  "cb_openDuration (fst (AllowRequest t cb)) = cb_openDuration cb"
  by (simp_all add: AllowRequest_def)

lemma RecordSuccess_fields [simp]:
  "cb_state (RecordSuccess cb) = CircuitStateClosed"
  "cb_failureCount (RecordSuccess cb) = 0"
  "cb_failureThreshold (RecordSuccess cb) = cb_failureThreshold cb"
  "cb_openDuration (RecordSuccess cb) = cb_openDuration cb"
  by (simp_all add: RecordSuccess_def)

lemma RecordFailure_fields [simp]:
  "cb_failureCount (RecordFailure t cb) = i64 (cb_failureCount cb + 1)"
  "cb_lastFailedAt (RecordFailure t cb) = t"
  "cb_failureThreshold (RecordFailure t cb) = cb_failureThreshold cb"
  "cb_openDuration (RecordFailure t cb) = cb_openDuration cb"
  by (simp_all add: RecordFailure_def Let_def)

lemma cb_Reset_fields [simp]:
  "cb_state (cb_Reset cb) = CircuitStateClosed"
  "cb_failureCount (cb_Reset cb) = 0"
  "cb_failureThreshold (cb_Reset cb) = cb_failureThreshold cb"
  "cb_openDuration (cb_Reset cb) = cb_openDuration cb"
  by (simp_all add: cb_Reset_def)

lemma RecordFailure_state:
  "cb_state (RecordFailure t cb) =
     (if cb_failureThreshold cb \<le> i64 (cb_failureCount cb + 1)
      then CircuitStateOpen else cb_state cb)"
  by (simp add: RecordFailure_def Let_def)

section \<open>Runs of a breaker\<close>

text \<open>
  The calls one breaker receives, in the order in which its mutex serialises them, and the
  state after them.
\<close>

datatype cb_event = EvAllow time | EvSuccess | EvFailure time | EvReset

fun cb_step :: "circuit_breaker \<Rightarrow> cb_event \<Rightarrow> circuit_breaker" where
  "cb_step cb (EvAllow t) = fst (AllowRequest t cb)"
| "cb_step cb EvSuccess = RecordSuccess cb"
| "cb_step cb (EvFailure t) = RecordFailure t cb"
| "cb_step cb EvReset = cb_Reset cb"

fun cb_run :: "circuit_breaker \<Rightarrow> cb_event list \<Rightarrow> circuit_breaker" where
  "cb_run cb [] = cb"
| "cb_run cb (e # es) = cb_run (cb_step cb e) es"

text \<open>The specification: how many failures followed the last success or reset.\<close>

fun failures_since :: "nat \<Rightarrow> cb_event list \<Rightarrow> nat" where
  "failures_since n [] = n"
| "failures_since n (EvAllow t # es) = failures_since n es"
| "failures_since n (EvSuccess # es) = failures_since 0 es"
| "failures_since n (EvFailure t # es) = failures_since (Suc n) es"
| "failures_since n (EvReset # es) = failures_since 0 es"

lemma failures_since_le: "failures_since n es \<le> n + length es"
  by (induction n es rule: failures_since.induct) auto

text \<open>
  The invariant that ties the string state to the counter. The bound keeps \<open>failureCount++\<close>
  from wrapping: it counts the calls still to come.
\<close>

definition cb_inv :: "nat \<Rightarrow> circuit_breaker \<Rightarrow> bool" where
  "cb_inv n cb \<longleftrightarrow> cb_state_ok cb \<and> cb_failureCount cb = int n \<and>
     (cb_state cb = CircuitStateClosed \<longleftrightarrow> int n < cb_failureThreshold cb)"

lemma cb_inv_allow: "cb_inv n cb \<Longrightarrow> cb_inv n (fst (AllowRequest t cb))"
  by (auto simp: cb_inv_def cb_state_ok_def AllowRequest_def)

lemma cb_inv_success: "0 < cb_failureThreshold cb \<Longrightarrow> cb_inv 0 (RecordSuccess cb)"
  by (simp add: cb_inv_def cb_state_ok_def)

lemma cb_inv_reset: "0 < cb_failureThreshold cb \<Longrightarrow> cb_inv 0 (cb_Reset cb)"
  by (simp add: cb_inv_def cb_state_ok_def)

lemma cb_inv_failure:
  assumes inv: "cb_inv n cb" and bound: "int n + 1 < 2 ^ 63"
  shows "cb_inv (Suc n) (RecordFailure t cb)"
proof -
  have "i64 (int n + 1) = int n + 1"
    using bound by (intro i64_idI) auto
  with inv show ?thesis
    by (auto simp: cb_inv_def cb_state_ok_def RecordFailure_state)
qed

lemma cb_step_threshold [simp]:
  "cb_failureThreshold (cb_step cb e) = cb_failureThreshold cb"
  "cb_openDuration (cb_step cb e) = cb_openDuration cb"
  by (cases e; simp)+

lemma cb_run_threshold [simp]:
  "cb_failureThreshold (cb_run cb es) = cb_failureThreshold cb"
  "cb_openDuration (cb_run cb es) = cb_openDuration cb"
  by (induction es arbitrary: cb) auto

lemma cb_run_inv:
  assumes "cb_inv n cb" and "0 < cb_failureThreshold cb" and "int n + int (length es) < 2 ^ 63"
  shows "cb_inv (failures_since n es) (cb_run cb es)"
  using assms
proof (induction n es arbitrary: cb rule: failures_since.induct)
  case (1 n)
  then show ?case by simp
next
  case (2 n t es)
  then show ?case by (simp add: cb_inv_allow)
next
  case (3 n es)
  then show ?case by (simp add: cb_inv_success)
next
  case (4 n t es)
  have "cb_inv (Suc n) (RecordFailure t cb)"
    using "4.prems" by (intro cb_inv_failure) auto
  with 4 show ?case by simp
next
  case (5 n es)
  then show ?case by (simp add: cb_inv_reset)
qed

lemma cb_inv_new: "0 < th \<Longrightarrow> cb_inv 0 (NewCircuitBreaker th d)"
  by (simp add: cb_inv_def cb_state_ok_def)

lemma cb_run_new_inv:
  assumes "0 < th" and "int (length es) < 2 ^ 63"
  shows "cb_inv (failures_since 0 es) (cb_run (NewCircuitBreaker th d) es)"
  using assms by (intro cb_run_inv cb_inv_new) auto

section \<open>A sequence of requests\<close>

fun allow_trace :: "circuit_breaker \<Rightarrow> time list \<Rightarrow> bool list" where
  "allow_trace cb [] = []"
| "allow_trace cb (t # ts) =
     (let (cb', ok) = AllowRequest t cb in ok # allow_trace cb' ts)"

lemma allow_trace_not_open:
  "cb_state cb \<in> {CircuitStateClosed, CircuitStateHalfOpen} \<Longrightarrow>
     allow_trace cb ts = map (\<lambda>_. True) ts"
  by (induction ts) (auto simp: AllowRequest_def)

lemma allow_trace_open:
  assumes "cb_state cb = CircuitStateOpen"
    and "- (2 ^ 63) < cb_openDuration cb" and "cb_openDuration cb < 2 ^ 63"
  shows "allow_trace cb ts =
     (let early = (\<lambda>t. t - cb_lastFailedAt cb < cb_openDuration cb)
      in map (\<lambda>_. False) (takeWhile early ts) @ map (\<lambda>_. True) (dropWhile early ts))"
  using assms
proof (induction ts)
  case (Cons t ts)
  show ?case
  proof (cases "t - cb_lastFailedAt cb < cb_openDuration cb")
    case True
    with Cons show ?thesis by (simp add: AllowRequest_def time_sub_ge_iff Let_def)
  next
    case False
    with Cons.prems show ?thesis
      by (simp add: AllowRequest_def time_sub_ge_iff Let_def allow_trace_not_open)
  qed
qed simp

section \<open>Properties\<close>

text \<open>C20: a breaker created with a positive threshold and driven by any sequence of its methods
  is in one of its three states, its failure count is the number of failures since the last
  success or reset, and it is closed exactly while that number is below the threshold. (The
  bound on the length keeps the 64-bit counter from wrapping.)\<close>

theorem breaker_tracks_consecutive_failures:
  assumes "0 < threshold" and "int (length es) < 2 ^ 63"
  shows "let cb = cb_run (NewCircuitBreaker threshold dur) es; n = int (failures_since 0 es) in
    cb_State cb \<in> {CircuitStateClosed, CircuitStateOpen, CircuitStateHalfOpen} \<and>
    cb_FailureCount cb = n \<and> (cb_State cb = CircuitStateClosed \<longleftrightarrow> n < threshold)"
  using cb_run_new_inv [OF assms, of dur]
  by (auto simp: cb_inv_def cb_state_ok_def cb_State_def cb_FailureCount_def Let_def)

theorem breaker_tracks_consecutive_failures_witness:
  "let cb = cb_run (NewCircuitBreaker 2 60) [EvFailure 1, EvSuccess, EvFailure 2, EvFailure 3];
       n = int (failures_since 0 [EvFailure 1, EvSuccess, EvFailure 2, EvFailure 3]) in
    cb_State cb \<in> {CircuitStateClosed, CircuitStateOpen, CircuitStateHalfOpen} \<and>
    cb_FailureCount cb = n \<and> (cb_State cb = CircuitStateClosed \<longleftrightarrow> n < 2)"
  by (rule breaker_tracks_consecutive_failures) simp_all

text \<open>An open breaker rejects every request that comes less than the open duration after the
  last recorded failure, and from the first request that comes later it admits all of them:
  the answers to any sequence of requests are a block of rejections followed by a block of
  admissions, split at that request.\<close>

theorem open_breaker_rejects_until_cooldown:
  assumes "cb_State cb = CircuitStateOpen"
    and "- (2 ^ 63) < cb_openDuration cb" and "cb_openDuration cb < 2 ^ 63"
  shows "allow_trace cb ts =
     (let early = (\<lambda>t. t - cb_lastFailedAt cb < cb_openDuration cb)
      in map (\<lambda>_. False) (takeWhile early ts) @ map (\<lambda>_. True) (dropWhile early ts))"
  using assms by (intro allow_trace_open) (simp_all add: cb_State_def)

theorem open_breaker_rejects_until_cooldown_witness:
  "allow_trace (RecordFailure 5 (NewCircuitBreaker 1 60)) [10, 64, 65, 20] =
     [False, False, True, True]"
proof -
  have "allow_trace (RecordFailure 5 (NewCircuitBreaker 1 60)) [10, 64, 65, 20] =
    (let early = (\<lambda>t. t - cb_lastFailedAt (RecordFailure 5 (NewCircuitBreaker 1 60))
                      < cb_openDuration (RecordFailure 5 (NewCircuitBreaker 1 60)))
     in map (\<lambda>_. False) (takeWhile early [10, 64, 65, 20]) @
        map (\<lambda>_. True) (dropWhile early [10, 64, 65, 20]))"
    by (rule open_breaker_rejects_until_cooldown)
      (simp_all add: cb_defs Let_def i64_def)
  then show ?thesis by (simp add: NewCircuitBreaker_def Let_def)
qed

text \<open>Whatever happened before, a failure recorded while the breaker is half-open reopens it at
  once, with the cooldown restarted at that failure: the probe's failure is never absorbed by
  the threshold.\<close>

theorem half_open_failure_reopens:
  assumes "0 < threshold" and "int (length es) + 1 < 2 ^ 63"
    and "cb_State (cb_run (NewCircuitBreaker threshold dur) es) = CircuitStateHalfOpen"
  shows "let cb = RecordFailure now (cb_run (NewCircuitBreaker threshold dur) es) in
     cb_State cb = CircuitStateOpen \<and> cb_lastFailedAt cb = now"
proof -
  let ?cb = "cb_run (NewCircuitBreaker threshold dur) es"
  have inv: "cb_inv (failures_since 0 es) ?cb"
    using assms(1,2) by (intro cb_run_new_inv) auto
  have "int (failures_since 0 es) + 1 < 2 ^ 63"
    using failures_since_le [of 0 es] assms(2) by linarith
  then have "i64 (cb_failureCount ?cb + 1) = int (failures_since 0 es) + 1"
    using inv by (simp add: cb_inv_def i64_idI)
  with inv assms(3) show ?thesis
    by (simp add: cb_inv_def cb_State_def RecordFailure_state Let_def)
qed

theorem half_open_failure_reopens_witness:
  "let cb = RecordFailure 80 (cb_run (NewCircuitBreaker 1 60) [EvFailure 5, EvAllow 70]) in
     cb_State cb = CircuitStateOpen \<and> cb_lastFailedAt cb = 80"
  by (rule half_open_failure_reopens)
    (simp_all add: cb_defs Let_def i64_def time_sub_def)

text \<open>The half-open state does not limit the probes. Once one request has been admitted after
  the cooldown, every further request is admitted too, however many there are and whenever they
  come, as long as no outcome is recorded. (The documentation speaks of one test request.)\<close>

theorem half_open_admits_every_request:
  assumes "cb_State cb = CircuitStateOpen"
    and "cb_openDuration cb \<le> time_sub now (cb_lastFailedAt cb)"
  shows "snd (AllowRequest now cb) \<and>
     cb_State (fst (AllowRequest now cb)) = CircuitStateHalfOpen \<and>
     allow_trace (fst (AllowRequest now cb)) ts = map (\<lambda>_. True) ts"
  using assms by (simp add: AllowRequest_def cb_State_def allow_trace_not_open)

theorem half_open_admits_every_request_witness:
  "snd (AllowRequest 100 (RecordFailure 5 (NewCircuitBreaker 1 60))) \<and>
   cb_State (fst (AllowRequest 100 (RecordFailure 5 (NewCircuitBreaker 1 60)))) =
     CircuitStateHalfOpen \<and>
   allow_trace (fst (AllowRequest 100 (RecordFailure 5 (NewCircuitBreaker 1 60)))) [101, 102] =
     map (\<lambda>_. True) [101::time, 102]"
  by (rule half_open_admits_every_request)
    (simp_all add: cb_defs Let_def i64_def time_sub_def)

text \<open>The success of a request that was in flight when the circuit opened closes it from the open
  state directly, without a cooldown or a probe.\<close>

lemma success_closes_open_breaker:
  "cb_State cb = CircuitStateOpen \<Longrightarrow> cb_State (RecordSuccess cb) = CircuitStateClosed"
  by (simp add: cb_State_def)

end
