(* ===== verification/Pool_Key.thy ===== *)
theory Pool_Key
  imports Circuit_Breaker
begin

text \<open>
  A key of the pool with its runtime state (\<^verbatim>\<open>internal/keypool/types.go\<close>): the concurrency
  slots and the two fixed-window rate counters. Each method runs under the key's own mutex, so
  it is one atomic function. The breaker is a pointer that may be nil in the code
  (\<open>circuitBreaker != nil\<close> is tested at every use): an option here.
\<close>

section \<open>State\<close>

record pool_key =
  pk_ID :: string
  pk_Name :: string
  pk_KeyEncrypted :: string
  pk_Weight :: int
  pk_RateLimitPerMinute :: int
  pk_RateLimitPerDay :: int
  pk_ConcurrentLimit :: int
  pk_currentConcurrent :: int
  pk_minuteCounter :: int
  pk_dayCounter :: int
  pk_minuteResetAt :: time
  pk_dayResetAt :: time
  pk_circuitBreaker :: "circuit_breaker option"

section \<open>Operations\<close>

definition TryConcurrentAcquire :: "pool_key \<Rightarrow> pool_key \<times> bool" where
  "TryConcurrentAcquire k =
     (if pk_ConcurrentLimit k \<le> pk_currentConcurrent k then (k, False)
      else (k\<lparr>pk_currentConcurrent := i64 (pk_currentConcurrent k + 1)\<rparr>, True))"

definition ConcurrentRelease :: "pool_key \<Rightarrow> pool_key" where
  "ConcurrentRelease k =
     (if 0 < pk_currentConcurrent k
      then k\<lparr>pk_currentConcurrent := i64 (pk_currentConcurrent k - 1)\<rparr> else k)"

definition TryRateLimit :: "time \<Rightarrow> pool_key \<Rightarrow> pool_key \<times> bool" where
  "TryRateLimit now k =
     (let k1 = (if pk_minuteResetAt k < now
                then k\<lparr>pk_minuteCounter := 0, pk_minuteResetAt := now + Minute\<rparr> else k);
          k2 = (if pk_dayResetAt k1 < now
                then k1\<lparr>pk_dayCounter := 0, pk_dayResetAt := now + 24 * Hour\<rparr> else k1)
      in if pk_RateLimitPerMinute k2 \<le> pk_minuteCounter k2 then (k2, False)
         else if pk_RateLimitPerDay k2 \<le> pk_dayCounter k2 then (k2, False)
         else (k2\<lparr>pk_minuteCounter := i64 (pk_minuteCounter k2 + 1),
                  pk_dayCounter := i64 (pk_dayCounter k2 + 1)\<rparr>, True))"

definition GetCurrentConcurrent :: "pool_key \<Rightarrow> int" where
  "GetCurrentConcurrent k = pk_currentConcurrent k"

lemmas pool_key_defs = TryConcurrentAcquire_def ConcurrentRelease_def TryRateLimit_def
  GetCurrentConcurrent_def

section \<open>Concurrency slots\<close>

text \<open>
  What the methods keep of a key: the counters are never negative, and the limits are 64-bit
  integers, so no increment guarded by a limit can wrap.
\<close>

definition pk_ok :: "pool_key \<Rightarrow> bool" where
  "pk_ok k \<longleftrightarrow> 0 \<le> pk_currentConcurrent k \<and> in_i64 (pk_currentConcurrent k) \<and>
     0 \<le> pk_minuteCounter k \<and> in_i64 (pk_minuteCounter k) \<and>
     0 \<le> pk_dayCounter k \<and> in_i64 (pk_dayCounter k) \<and>
     in_i64 (pk_ConcurrentLimit k) \<and> in_i64 (pk_RateLimitPerMinute k) \<and>
     in_i64 (pk_RateLimitPerDay k)"

lemma i64_incr_below: "in_i64 l \<Longrightarrow> 0 \<le> c \<Longrightarrow> c < l \<Longrightarrow> i64 (c + 1) = c + 1"
  by (auto simp: in_i64_def intro!: i64_idI)

lemma in_i64_incr_below: "in_i64 l \<Longrightarrow> 0 \<le> c \<Longrightarrow> c < l \<Longrightarrow> in_i64 (c + 1)"
  by (auto simp: in_i64_def)

lemma i64_decr_pos: "in_i64 c \<Longrightarrow> 0 < c \<Longrightarrow> i64 (c - 1) = c - 1"
  by (auto simp: in_i64_def intro!: i64_idI)

lemma TryConcurrentAcquire_granted:
  assumes "pk_ok k" and "snd (TryConcurrentAcquire k)"
  shows "fst (TryConcurrentAcquire k) =
      k\<lparr>pk_currentConcurrent := pk_currentConcurrent k + 1\<rparr>"
    and "pk_currentConcurrent k < pk_ConcurrentLimit k"
  using assms by (auto simp: TryConcurrentAcquire_def pk_ok_def i64_incr_below split: if_splits)

lemma TryConcurrentAcquire_refused:
  "\<not> snd (TryConcurrentAcquire k) \<Longrightarrow> fst (TryConcurrentAcquire k) = k"
  by (simp add: TryConcurrentAcquire_def split: if_splits)

lemma TryConcurrentAcquire_granted_iff:
  "snd (TryConcurrentAcquire k) \<longleftrightarrow> pk_currentConcurrent k < pk_ConcurrentLimit k"
  by (auto simp: TryConcurrentAcquire_def)

lemma ConcurrentRelease_eq:
  "pk_ok k \<Longrightarrow> ConcurrentRelease k =
     k\<lparr>pk_currentConcurrent := max 0 (pk_currentConcurrent k - 1)\<rparr>"
  by (auto simp: ConcurrentRelease_def pk_ok_def i64_decr_pos)

lemma pk_ok_acquire: "pk_ok k \<Longrightarrow> pk_ok (fst (TryConcurrentAcquire k))"
proof (cases "snd (TryConcurrentAcquire k)")
  case True
  moreover assume "pk_ok k"
  ultimately show ?thesis
    using TryConcurrentAcquire_granted [of k]
    by (simp add: pk_ok_def in_i64_incr_below [of "pk_ConcurrentLimit k"])
qed (simp add: TryConcurrentAcquire_refused)

lemma pk_ok_release: "pk_ok k \<Longrightarrow> pk_ok (ConcurrentRelease k)"
  by (auto simp: ConcurrentRelease_eq) (auto simp: pk_ok_def in_i64_def)

lemma release_acquire:
  assumes "pk_ok k" and "snd (TryConcurrentAcquire k)"
  shows "ConcurrentRelease (fst (TryConcurrentAcquire k)) = k"
  using assms pk_ok_acquire [OF assms(1)]
  by (simp add: ConcurrentRelease_eq TryConcurrentAcquire_granted(1)) (simp add: pk_ok_def)

lemma ConcurrentRelease_fields [simp]:
  "pk_ID (ConcurrentRelease k) = pk_ID k"
  "pk_Weight (ConcurrentRelease k) = pk_Weight k"
  "pk_minuteCounter (ConcurrentRelease k) = pk_minuteCounter k"
  "pk_dayCounter (ConcurrentRelease k) = pk_dayCounter k"
  "pk_circuitBreaker (ConcurrentRelease k) = pk_circuitBreaker k"
  "pk_ConcurrentLimit (ConcurrentRelease k) = pk_ConcurrentLimit k"
  by (simp_all add: ConcurrentRelease_def)

lemma TryConcurrentAcquire_fields [simp]:
  "pk_ID (fst (TryConcurrentAcquire k)) = pk_ID k"
  "pk_Weight (fst (TryConcurrentAcquire k)) = pk_Weight k"
  "pk_minuteCounter (fst (TryConcurrentAcquire k)) = pk_minuteCounter k"
  "pk_dayCounter (fst (TryConcurrentAcquire k)) = pk_dayCounter k"
  "pk_circuitBreaker (fst (TryConcurrentAcquire k)) = pk_circuitBreaker k"
  "pk_ConcurrentLimit (fst (TryConcurrentAcquire k)) = pk_ConcurrentLimit k"
  by (simp_all add: TryConcurrentAcquire_def)

text \<open>
  Any interleaving of the workers on one key: a worker tries for a slot, or one that holds a
  slot gives it back. \<open>held\<close> counts the workers that hold one.
\<close>

datatype slot_event = Acquire | Release

fun slot_run :: "pool_key \<Rightarrow> nat \<Rightarrow> slot_event list \<Rightarrow> pool_key \<times> nat" where
  "slot_run k held [] = (k, held)"
| "slot_run k held (Acquire # es) =
     (let (k', ok) = TryConcurrentAcquire k in slot_run k' (if ok then Suc held else held) es)"
| "slot_run k held (Release # es) =
     (if held = 0 then slot_run k held es else slot_run (ConcurrentRelease k) (held - 1) es)"

lemma slot_run_counts:
  assumes "pk_ok k" and "pk_currentConcurrent k = int held"
    and "int held \<le> max 0 (pk_ConcurrentLimit k)" and "slot_run k held es = (k', held')"
  shows "pk_currentConcurrent k' = int held' \<and>
    int held' \<le> max 0 (pk_ConcurrentLimit k) \<and> pk_ConcurrentLimit k' = pk_ConcurrentLimit k"
  using assms
proof (induction k held es rule: slot_run.induct)
  case (1 k held)
  then show ?case by simp
next
  case (2 k held es)
  obtain k1 ok where acq: "TryConcurrentAcquire k = (k1, ok)" by (cases "TryConcurrentAcquire k")
  have k1: "pk_ok k1" "pk_ConcurrentLimit k1 = pk_ConcurrentLimit k"
    using pk_ok_acquire [OF "2.prems"(1)] TryConcurrentAcquire_fields(6) [of k] acq by auto
  show ?case
  proof (cases ok)
    case True
    then have "pk_currentConcurrent k1 = int (Suc held)"
        and "pk_currentConcurrent k < pk_ConcurrentLimit k"
      using TryConcurrentAcquire_granted [OF "2.prems"(1)] acq "2.prems"(2) by auto
    then have "pk_currentConcurrent k1 = int (Suc held) \<and>
        int (Suc held) \<le> max 0 (pk_ConcurrentLimit k1)"
      using "2.prems"(2) k1(2) by simp
    with "2.IH" [OF acq [symmetric] refl] "2.prems"(4) acq k1 True show ?thesis
      by (auto simp del: of_nat_Suc)
  next
    case False
    then have "k1 = k" using TryConcurrentAcquire_refused [of k] acq by simp
    with "2.IH" [OF acq [symmetric] refl] "2.prems" acq False show ?thesis by auto
  qed
next
  case (3 k held es)
  show ?case
  proof (cases held)
    case 0
    with 3 show ?thesis by auto
  next
    case (Suc h)
    with 3 pk_ok_release [OF "3.prems"(1)] show ?thesis
      by (auto simp: ConcurrentRelease_eq)
  qed
qed

section \<open>Fixed rate windows\<close>

text \<open>
  The contract of a fixed-window limiter over a state \<open>'s\<close>: \<open>ask t s\<close> asks for one request at
  time \<open>t\<close>; a window that has run out is restarted at \<open>t\<close> with a fresh counter; a grant counts
  one and leaves the counter within the limit; a refusal counts nothing. Both counters of a
  key satisfy it, and the bounds on what a window can grant are proved once.
\<close>

fun grants :: "(time \<Rightarrow> 's \<Rightarrow> 's \<times> bool) \<Rightarrow> 's \<Rightarrow> time list \<Rightarrow> nat" where
  "grants ask s [] = 0"
| "grants ask s (t # ts) =
     (if snd (ask t s) then 1 else 0) + grants ask (fst (ask t s)) ts"

locale fixed_window =
  fixes ask :: "time \<Rightarrow> 's \<Rightarrow> 's \<times> bool"
    and ok :: "'s \<Rightarrow> bool"
    and cnt :: "'s \<Rightarrow> int"
    and lim :: "'s \<Rightarrow> int"
    and resetAt :: "'s \<Rightarrow> time"
    and dur :: duration
  assumes ok_ask: "ok s \<Longrightarrow> ok (fst (ask t s))"
    and cnt_nonneg: "ok s \<Longrightarrow> 0 \<le> cnt s"
    and lim_ask: "lim (fst (ask t s)) = lim s"
    and expired: "ok s \<Longrightarrow> resetAt s < t \<Longrightarrow>
      resetAt (fst (ask t s)) = t + dur \<and> cnt (fst (ask t s)) = (if snd (ask t s) then 1 else 0)"
    and running: "ok s \<Longrightarrow> t \<le> resetAt s \<Longrightarrow>
      resetAt (fst (ask t s)) = resetAt s \<and>
      cnt (fst (ask t s)) = cnt s + (if snd (ask t s) then 1 else 0)"
    and grant_below: "ok s \<Longrightarrow> snd (ask t s) \<Longrightarrow> cnt (fst (ask t s)) \<le> lim s"
begin

lemma grants_in_window:
  assumes "ok s" and "\<forall>t \<in> set ts. t \<le> resetAt s"
  shows "int (grants ask s ts) \<le> max 0 (lim s - cnt s)"
  using assms
proof (induction ts arbitrary: s)
  case (Cons t ts)
  let ?s = "fst (ask t s)"
  have ok': "ok ?s" using Cons.prems(1) by (rule ok_ask)
  have run: "resetAt ?s = resetAt s" "cnt ?s = cnt s + (if snd (ask t s) then 1 else 0)"
    using running [OF Cons.prems(1), of t] Cons.prems(2) by simp_all
  have IH: "int (grants ask ?s ts) \<le> max 0 (lim s - cnt ?s)"
    using Cons.IH [OF ok'] Cons.prems(2) run(1) by (simp add: lim_ask)
  show ?case
  proof (cases "snd (ask t s)")
    case True
    then have "cnt s + 1 \<le> lim s"
      using grant_below [OF Cons.prems(1) True] run(2) by simp
    with True IH run(2) show ?thesis by simp
  next
    case False
    with IH run(2) show ?thesis by simp
  qed
qed simp

lemma grants_in_interval:
  assumes "ok s" and "\<forall>t \<in> set ts. a \<le> t \<and> t \<le> a + dur"
  shows "int (grants ask s ts) \<le> 2 * max 0 (lim s) - min (cnt s) (max 0 (lim s))"
  using assms
proof (induction ts arbitrary: s)
  case Nil
  then show ?case using min.cobounded2 [of "cnt s" "max 0 (lim s)"] by simp
next
  case (Cons t ts)
  let ?s = "fst (ask t s)" and ?g = "if snd (ask t s) then 1 else (0::int)"
  have ok': "ok ?s" using Cons.prems(1) by (rule ok_ask)
  have below: "snd (ask t s) \<Longrightarrow> cnt ?s \<le> lim s"
    by (rule grant_below [OF Cons.prems(1)])
  note nonneg = cnt_nonneg [OF Cons.prems(1)] cnt_nonneg [OF ok']
  show ?case
  proof (cases "resetAt s < t")
    case True
    have "resetAt ?s = t + dur" and c: "cnt ?s = ?g"
      using expired [OF Cons.prems(1) True] by simp_all
    moreover from this Cons.prems(2) have "\<forall>u \<in> set ts. u \<le> resetAt ?s"
      by fastforce
    ultimately have "int (grants ask ?s ts) \<le> max 0 (lim s - ?g)"
      using grants_in_window [OF ok'] by (simp add: lim_ask)
    with below c nonneg show ?thesis by (auto simp: min_def max_def split: if_splits)
  next
    case False
    then have c: "cnt ?s = cnt s + ?g"
      using running [OF Cons.prems(1), of t] by simp
    have "int (grants ask ?s ts) \<le> 2 * max 0 (lim s) - min (cnt ?s) (max 0 (lim s))"
      using Cons.IH [OF ok'] Cons.prems(2) by (simp add: lim_ask)
    with below c nonneg show ?thesis by (auto simp: min_def max_def split: if_splits)
  qed
qed

corollary grants_twice:
  assumes "ok s" and "\<forall>t \<in> set ts. a \<le> t \<and> t \<le> a + dur"
  shows "int (grants ask s ts) \<le> 2 * max 0 (lim s)"
proof -
  have "0 \<le> min (cnt s) (max 0 (lim s))"
    using cnt_nonneg [OF assms(1)] by simp
  with grants_in_interval [OF assms] show ?thesis by linarith
qed

end

lemma TryRateLimit_fields [simp]:
  "pk_ID (fst (TryRateLimit t k)) = pk_ID k"
  "pk_Weight (fst (TryRateLimit t k)) = pk_Weight k"
  "pk_ConcurrentLimit (fst (TryRateLimit t k)) = pk_ConcurrentLimit k"
  "pk_currentConcurrent (fst (TryRateLimit t k)) = pk_currentConcurrent k"
  "pk_RateLimitPerMinute (fst (TryRateLimit t k)) = pk_RateLimitPerMinute k"
  "pk_RateLimitPerDay (fst (TryRateLimit t k)) = pk_RateLimitPerDay k"
  "pk_circuitBreaker (fst (TryRateLimit t k)) = pk_circuitBreaker k"
  by (simp_all add: TryRateLimit_def Let_def)

text \<open>What a request sees of the two counters once the expired windows have been restarted.\<close>

definition minute_used :: "time \<Rightarrow> pool_key \<Rightarrow> int" where
  "minute_used t k = (if pk_minuteResetAt k < t then 0 else pk_minuteCounter k)"

definition day_used :: "time \<Rightarrow> pool_key \<Rightarrow> int" where
  "day_used t k = (if pk_dayResetAt k < t then 0 else pk_dayCounter k)"

lemma TryRateLimit_granted_iff:
  "snd (TryRateLimit t k) \<longleftrightarrow>
     minute_used t k < pk_RateLimitPerMinute k \<and> day_used t k < pk_RateLimitPerDay k"
  by (auto simp: TryRateLimit_def Let_def minute_used_def day_used_def)

lemma TryRateLimit_resets [simp]:
  "pk_minuteResetAt (fst (TryRateLimit t k)) =
     (if pk_minuteResetAt k < t then t + Minute else pk_minuteResetAt k)"
  "pk_dayResetAt (fst (TryRateLimit t k)) =
     (if pk_dayResetAt k < t then t + 24 * Hour else pk_dayResetAt k)"
  by (simp_all add: TryRateLimit_def Let_def)

lemma TryRateLimit_counters:
  assumes "pk_ok k"
  shows "pk_minuteCounter (fst (TryRateLimit t k)) =
      minute_used t k + (if snd (TryRateLimit t k) then 1 else 0)"
    and "pk_dayCounter (fst (TryRateLimit t k)) =
      day_used t k + (if snd (TryRateLimit t k) then 1 else 0)"
proof -
  have "0 \<le> minute_used t k" "0 \<le> day_used t k"
    using assms by (auto simp: pk_ok_def minute_used_def day_used_def)
  then have wrap: "minute_used t k < pk_RateLimitPerMinute k \<Longrightarrow>
      i64 (minute_used t k + 1) = minute_used t k + 1"
    "day_used t k < pk_RateLimitPerDay k \<Longrightarrow> i64 (day_used t k + 1) = day_used t k + 1"
    using assms by (auto simp: pk_ok_def intro: i64_incr_below)
  then show "pk_minuteCounter (fst (TryRateLimit t k)) =
      minute_used t k + (if snd (TryRateLimit t k) then 1 else 0)"
    and "pk_dayCounter (fst (TryRateLimit t k)) =
      day_used t k + (if snd (TryRateLimit t k) then 1 else 0)"
    by (auto simp: TryRateLimit_def Let_def minute_used_def day_used_def)
qed

lemma pk_ok_rate: "pk_ok k \<Longrightarrow> pk_ok (fst (TryRateLimit t k))"
proof -
  assume k: "pk_ok k"
  then have "0 \<le> minute_used t k" "in_i64 (minute_used t k)"
      "0 \<le> day_used t k" "in_i64 (day_used t k)"
    by (auto simp: pk_ok_def minute_used_def day_used_def in_i64_def)
  with k show ?thesis
    by (auto simp: pk_ok_def TryRateLimit_counters [OF k] TryRateLimit_granted_iff in_i64_incr_below)
qed

interpretation minute_window: fixed_window TryRateLimit pk_ok pk_minuteCounter
    pk_RateLimitPerMinute pk_minuteResetAt Minute
  by unfold_locales
    (auto simp: pk_ok_rate TryRateLimit_counters TryRateLimit_granted_iff minute_used_def,
      simp add: pk_ok_def)

interpretation day_window: fixed_window TryRateLimit pk_ok pk_dayCounter
    pk_RateLimitPerDay pk_dayResetAt "24 * Hour"
  by unfold_locales
    (auto simp: pk_ok_rate TryRateLimit_counters TryRateLimit_granted_iff day_used_def,
      simp add: pk_ok_def)

section \<open>Properties\<close>

text \<open>The workers never hold more slots of a key than its concurrency limit, in any
  interleaving of attempts and releases, and the counter is exactly the number of slots
  held.\<close>

theorem slots_within_limit:
  assumes "pk_ok k" and "pk_currentConcurrent k = 0" and "slot_run k 0 es = (k', held)"
  shows "GetCurrentConcurrent k' = int held \<and> int held \<le> max 0 (pk_ConcurrentLimit k)"
  using slot_run_counts [OF assms(1) _ _ assms(3)] assms(2)
  by (auto simp: GetCurrentConcurrent_def)

theorem slots_within_limit_witness:
  "let k = \<lparr>pk_ID = ''k'', pk_Name = ''n'', pk_KeyEncrypted = ''e'', pk_Weight = 1,
     pk_RateLimitPerMinute = 60, pk_RateLimitPerDay = 100, pk_ConcurrentLimit = 2,
     pk_currentConcurrent = 0, pk_minuteCounter = 0, pk_dayCounter = 0,
     pk_minuteResetAt = 0, pk_dayResetAt = 0, pk_circuitBreaker = None\<rparr>;
     es = [Acquire, Acquire, Acquire, Release]
   in GetCurrentConcurrent (fst (slot_run k 0 es)) = 1 \<and> (1::int) \<le> 2"
proof -
  let ?k = "\<lparr>pk_ID = ''k'', pk_Name = ''n'', pk_KeyEncrypted = ''e'', pk_Weight = 1,
     pk_RateLimitPerMinute = 60, pk_RateLimitPerDay = 100, pk_ConcurrentLimit = 2,
     pk_currentConcurrent = 0, pk_minuteCounter = 0, pk_dayCounter = 0,
     pk_minuteResetAt = 0, pk_dayResetAt = 0, pk_circuitBreaker = None\<rparr>"
  have run: "slot_run ?k 0 [Acquire, Acquire, Acquire, Release] =
      (?k\<lparr>pk_currentConcurrent := 1\<rparr>, 1)"
    by (simp add: pool_key_defs i64_def)
  have ok: "pk_ok ?k" by (simp add: pk_ok_def in_i64_def)
  from slots_within_limit [OF ok _ run] run show ?thesis
    by (simp add: Let_def)
qed

text \<open>Trying for a slot and giving it back leaves the key exactly as it was, whatever its
  state.\<close>

theorem acquire_release_roundtrip:
  assumes "pk_ok k" and "TryConcurrentAcquire k = (k', True)"
  shows "ConcurrentRelease k' = k \<and> pk_currentConcurrent k' \<le> pk_ConcurrentLimit k'"
  using release_acquire [of k] TryConcurrentAcquire_granted [of k] assms by simp

theorem acquire_release_roundtrip_witness:
  "let k = \<lparr>pk_ID = ''k'', pk_Name = ''n'', pk_KeyEncrypted = ''e'', pk_Weight = 1,
     pk_RateLimitPerMinute = 60, pk_RateLimitPerDay = 100, pk_ConcurrentLimit = 2,
     pk_currentConcurrent = 1, pk_minuteCounter = 0, pk_dayCounter = 0,
     pk_minuteResetAt = 0, pk_dayResetAt = 0, pk_circuitBreaker = None\<rparr>
   in ConcurrentRelease (k\<lparr>pk_currentConcurrent := 2\<rparr>) = k \<and> (2::int) \<le> 2"
proof -
  let ?k = "\<lparr>pk_ID = ''k'', pk_Name = ''n'', pk_KeyEncrypted = ''e'', pk_Weight = 1,
     pk_RateLimitPerMinute = 60, pk_RateLimitPerDay = 100, pk_ConcurrentLimit = 2,
     pk_currentConcurrent = 1, pk_minuteCounter = 0, pk_dayCounter = 0,
     pk_minuteResetAt = 0, pk_dayResetAt = 0, pk_circuitBreaker = None\<rparr>"
  have "TryConcurrentAcquire ?k = (?k\<lparr>pk_currentConcurrent := 2\<rparr>, True)"
    by (simp add: pool_key_defs i64_def)
  from acquire_release_roundtrip [OF _ this] show ?thesis
    by (simp add: Let_def pk_ok_def in_i64_def)
qed

text \<open>C21: rate limiting over time. While neither window runs out, a key grants no more requests
  than what its counters leave, and in any interval of one minute (of one day), at whatever
  instants the requests come and wherever the interval falls, it grants at most twice the
  per-minute (per-day) limit, which is the known bound of a fixed-window limiter.\<close>

theorem rate_limit_bounds:
  assumes "pk_ok k"
  shows "((\<forall>t \<in> set ts. t \<le> pk_minuteResetAt k) \<longrightarrow>
      int (grants TryRateLimit k ts) \<le> max 0 (pk_RateLimitPerMinute k - pk_minuteCounter k)) \<and>
    ((\<forall>t \<in> set ts. t \<le> pk_dayResetAt k) \<longrightarrow>
      int (grants TryRateLimit k ts) \<le> max 0 (pk_RateLimitPerDay k - pk_dayCounter k)) \<and>
    ((\<forall>t \<in> set ts. a \<le> t \<and> t \<le> a + Minute) \<longrightarrow>
      int (grants TryRateLimit k ts) \<le> 2 * max 0 (pk_RateLimitPerMinute k)) \<and>
    ((\<forall>t \<in> set ts. a \<le> t \<and> t \<le> a + 24 * Hour) \<longrightarrow>
      int (grants TryRateLimit k ts) \<le> 2 * max 0 (pk_RateLimitPerDay k))"
  by (intro conjI impI minute_window.grants_in_window day_window.grants_in_window
      minute_window.grants_twice day_window.grants_twice assms)

theorem rate_limit_bounds_witness:
  "let k = \<lparr>pk_ID = ''k'', pk_Name = ''n'', pk_KeyEncrypted = ''e'', pk_Weight = 1,
     pk_RateLimitPerMinute = 2, pk_RateLimitPerDay = 100, pk_ConcurrentLimit = 2,
     pk_currentConcurrent = 0, pk_minuteCounter = 0, pk_dayCounter = 0,
     pk_minuteResetAt = 7, pk_dayResetAt = 0, pk_circuitBreaker = None\<rparr>
   in grants TryRateLimit k [5, 6, 7, 8, 8, 8] = 4 \<and>
      int (grants TryRateLimit k [5, 6, 7, 8, 8, 8]) \<le> 2 * max 0 2"
proof -
  let ?k = "\<lparr>pk_ID = ''k'', pk_Name = ''n'', pk_KeyEncrypted = ''e'', pk_Weight = 1,
     pk_RateLimitPerMinute = 2, pk_RateLimitPerDay = 100, pk_ConcurrentLimit = 2,
     pk_currentConcurrent = 0, pk_minuteCounter = 0, pk_dayCounter = 0,
     pk_minuteResetAt = 7, pk_dayResetAt = 0, pk_circuitBreaker = None\<rparr>"
  have ok: "pk_ok ?k" by (simp add: pk_ok_def in_i64_def)
  have "grants TryRateLimit ?k [5, 6, 7, 8, 8, 8] = 4"
    by (simp add: pool_key_defs i64_def Minute_def Hour_def)
  with rate_limit_bounds [OF ok, of "[5, 6, 7, 8, 8, 8]" 5] show ?thesis
    by (simp add: Let_def Minute_def Hour_def)
qed

text \<open>A request is granted exactly when both windows have room once the expired ones are
  restarted; a grant counts one in each window, and a refusal counts nothing in either, so a
  request stopped by one limit does not use up the other.\<close>

theorem rate_limit_decision:
  assumes "pk_ok k" and "TryRateLimit t k = (k', granted)"
  shows "(granted \<longleftrightarrow>
      minute_used t k < pk_RateLimitPerMinute k \<and> day_used t k < pk_RateLimitPerDay k) \<and>
    pk_minuteCounter k' = minute_used t k + (if granted then 1 else 0) \<and>
    pk_dayCounter k' = day_used t k + (if granted then 1 else 0) \<and> pk_ok k' \<and>
    pk_currentConcurrent k' = pk_currentConcurrent k"
  using TryRateLimit_counters [OF assms(1), of t] TryRateLimit_granted_iff [of t k]
    pk_ok_rate [OF assms(1), of t] TryRateLimit_fields(4) [of t k] assms(2) by simp

theorem rate_limit_decision_witness:
  "let k = \<lparr>pk_ID = ''k'', pk_Name = ''n'', pk_KeyEncrypted = ''e'', pk_Weight = 1,
     pk_RateLimitPerMinute = 2, pk_RateLimitPerDay = 1, pk_ConcurrentLimit = 2,
     pk_currentConcurrent = 0, pk_minuteCounter = 0, pk_dayCounter = 1,
     pk_minuteResetAt = 7, pk_dayResetAt = 9, pk_circuitBreaker = None\<rparr>
   in TryRateLimit 8 k = (k\<lparr>pk_minuteResetAt := 8 + Minute\<rparr>, False) \<and> minute_used 8 k = 0"
proof -
  let ?k = "\<lparr>pk_ID = ''k'', pk_Name = ''n'', pk_KeyEncrypted = ''e'', pk_Weight = 1,
     pk_RateLimitPerMinute = 2, pk_RateLimitPerDay = 1, pk_ConcurrentLimit = 2,
     pk_currentConcurrent = 0, pk_minuteCounter = 0, pk_dayCounter = 1,
     pk_minuteResetAt = 7, pk_dayResetAt = 9, pk_circuitBreaker = None\<rparr>"
  have eq: "TryRateLimit 8 ?k = (?k\<lparr>pk_minuteResetAt := 8 + Minute\<rparr>, False)"
    by (simp add: pool_key_defs)
  from rate_limit_decision [OF _ eq] eq show ?thesis
    by (simp add: Let_def pk_ok_def in_i64_def)
qed

end
