(* ===== verification/Key_Strategy.thy ===== *)
theory Key_Strategy
  imports Pool_Key
begin

text \<open>
  The key selection strategies: the interface of \<^verbatim>\<open>internal/keypool/strategy.go\<close> and its two
  implementations, \<^verbatim>\<open>roundrobin.go\<close> and \<^verbatim>\<open>weightedrr.go\<close>. A strategy is handed a slice of
  key pointers: keys live in a store, pointers are references into it, and only the weighted
  strategy looks through them (it reads the key's ID and weight). \<open>Select\<close> runs under the
  strategy's own mutex, so one call is atomic.
\<close>

type_synonym key_ref = nat
type_synonym key_store = "key_ref \<Rightarrow> pool_key"

section \<open>Round robin\<close>

record round_robin =
  rr_counter :: "64 word"

definition NewRoundRobinStrategy :: round_robin where
  "NewRoundRobinStrategy = \<lparr>rr_counter = 0\<rparr>"

definition rr_Name :: string where "rr_Name = ''round_robin''"

definition rr_Select :: "round_robin \<Rightarrow> 'k list \<Rightarrow> round_robin \<times> 'k option" where
  "rr_Select r ks =
     (if ks = [] then (r, None)
      else let idx = rr_counter r mod of_nat (length ks)
           in (r\<lparr>rr_counter := rr_counter r + 1\<rparr>, Some (ks ! unat idx)))"

definition rr_Reset :: "round_robin \<Rightarrow> round_robin" where
  "rr_Reset r = r\<lparr>rr_counter := 0\<rparr>"

section \<open>Smooth weighted round robin\<close>

text \<open>\<open>currentWeights\<close> is a Go map from key IDs to ints: a missing entry reads as 0.\<close>

record weighted_rr =
  wrr_currentWeights :: "string \<rightharpoonup> int"

definition NewWeightedRoundRobinStrategy :: weighted_rr where
  "NewWeightedRoundRobinStrategy = \<lparr>wrr_currentWeights = Map.empty\<rparr>"

definition wrr_Name :: string where "wrr_Name = ''weighted_round_robin''"

definition wget :: "(string \<rightharpoonup> int) \<Rightarrow> string \<Rightarrow> int" where
  "wget m i = (case m i of None \<Rightarrow> 0 | Some v \<Rightarrow> v)"

text \<open>The first loop of \<open>Select\<close>: the total weight, and every current weight raised.\<close>

fun wrr_raise :: "key_store \<Rightarrow> key_ref list \<Rightarrow> int \<Rightarrow> (string \<rightharpoonup> int) \<Rightarrow> int \<times> (string \<rightharpoonup> int)" where
  "wrr_raise st [] totalWeight m = (totalWeight, m)"
| "wrr_raise st (k # ks) totalWeight m =
     wrr_raise st ks (i64 (totalWeight + pk_Weight (st k)))
       (m(pk_ID (st k) \<mapsto> i64 (wget m (pk_ID (st k)) + pk_Weight (st k))))"

text \<open>The second loop: the first key with the highest current weight, if that is above -1.\<close>

fun wrr_best :: "key_store \<Rightarrow> (string \<rightharpoonup> int) \<Rightarrow> key_ref list \<Rightarrow> key_ref option \<Rightarrow> int \<Rightarrow> key_ref option" where
  "wrr_best st m [] selected maxWeight = selected"
| "wrr_best st m (k # ks) selected maxWeight =
     (if maxWeight < wget m (pk_ID (st k))
      then wrr_best st m ks (Some k) (wget m (pk_ID (st k)))
      else wrr_best st m ks selected maxWeight)"

definition wrr_Select ::
  "key_store \<Rightarrow> weighted_rr \<Rightarrow> key_ref list \<Rightarrow> weighted_rr \<times> key_ref option" where
  "wrr_Select st w ks =
     (if ks = [] then (w, None)
      else let (totalWeight, m) = wrr_raise st ks 0 (wrr_currentWeights w)
           in case wrr_best st m ks None (-1) of
                None \<Rightarrow> (w\<lparr>wrr_currentWeights := m\<rparr>, None)
              | Some k \<Rightarrow>
                  (w\<lparr>wrr_currentWeights :=
                      m(pk_ID (st k) \<mapsto> i64 (wget m (pk_ID (st k)) - totalWeight))\<rparr>, Some k))"

definition wrr_Reset :: "weighted_rr \<Rightarrow> weighted_rr" where
  "wrr_Reset w = w\<lparr>wrr_currentWeights := Map.empty\<rparr>"

section \<open>The interface\<close>

text \<open>A value of the interface type is one of the two implementations.\<close>

datatype strategy = RoundRobin round_robin | WeightedRoundRobin weighted_rr

fun strategy_Name :: "strategy \<Rightarrow> string" where
  "strategy_Name (RoundRobin r) = rr_Name"
| "strategy_Name (WeightedRoundRobin w) = wrr_Name"

fun strategy_Select :: "key_store \<Rightarrow> strategy \<Rightarrow> key_ref list \<Rightarrow> strategy \<times> key_ref option" where
  "strategy_Select st (RoundRobin r) ks =
     (let (r', k) = rr_Select r ks in (RoundRobin r', k))"
| "strategy_Select st (WeightedRoundRobin w) ks =
     (let (w', k) = wrr_Select st w ks in (WeightedRoundRobin w', k))"

fun strategy_Reset :: "strategy \<Rightarrow> strategy" where
  "strategy_Reset (RoundRobin r) = RoundRobin (rr_Reset r)"
| "strategy_Reset (WeightedRoundRobin w) = WeightedRoundRobin (wrr_Reset w)"

fun select_run :: "('s \<Rightarrow> 'k list \<Rightarrow> 's \<times> 'k option) \<Rightarrow> 's \<Rightarrow> 'k list \<Rightarrow> nat \<Rightarrow> 's \<times> 'k option list" where
  "select_run select s ks 0 = (s, [])"
| "select_run select s ks (Suc n) =
     (let (s1, k) = select s ks; (s2, rest) = select_run select s1 ks n in (s2, k # rest))"

text \<open>
  What a client of the interface may rely on: nothing is selected from an empty slice, and what
  is selected is one of the keys handed in. Whether something is selected from a non-empty
  slice is the implementation's business.
\<close>

locale key_selection =
  fixes select :: "'s \<Rightarrow> 'k list \<Rightarrow> 's \<times> 'k option"
  assumes select_empty: "snd (select s []) = None"
    and select_member: "select s ks = (s', Some k) \<Longrightarrow> k \<in> set ks"
begin

text \<open>The choices of calls in a row on the same slice are all from the slice.\<close>

lemma select_run_member:
  "select_run select s ks n = (s', picks) \<Longrightarrow> Some k \<in> set picks \<Longrightarrow> k \<in> set ks"
proof (induction n arbitrary: s picks)
  case (Suc n)
  obtain s1 x where sel: "select s ks = (s1, x)" by fastforce
  obtain s2 rest where run: "select_run select s1 ks n = (s2, rest)" by fastforce
  have "s2 = s'" and "picks = x # rest" using Suc.prems(1) sel run by simp_all
  with Suc.IH run Suc.prems(2) select_member sel show ?case by auto
qed simp

end

section \<open>Round robin: rotation\<close>

lemma unat_mod_of_nat:
  "unat ((c :: 64 word) mod of_nat n) = unat c mod (n mod 2 ^ 64)"
  by (simp add: unat_mod unat_of_nat)

lemma rr_index_in_range:
  assumes "ks \<noteq> []"
  shows "unat ((c :: 64 word) mod of_nat (length ks)) < length ks"
proof (cases "length ks mod 2 ^ 64 = 0")
  case True
  then have "2 ^ 64 \<le> length ks" using assms by (intro dvd_imp_le) auto
  moreover have "unat c < 2 ^ 64" using unsigned_less [of c] by simp
  ultimately show ?thesis using True by (simp add: unat_mod_of_nat)
next
  case False
  then have "unat c mod (length ks mod 2 ^ 64) < length ks mod 2 ^ 64" by (intro mod_less_divisor) simp
  also have "\<dots> \<le> length ks" by simp
  finally show ?thesis by (simp only: unat_mod_of_nat)
qed

lemma rr_Select_nonempty:
  assumes "ks \<noteq> []" and "length ks < 2 ^ 64"
  shows "rr_Select r ks =
    (r\<lparr>rr_counter := rr_counter r + 1\<rparr>, Some (ks ! (unat (rr_counter r) mod length ks)))"
  using assms by (simp add: rr_Select_def Let_def unat_mod_of_nat)

interpretation rr: key_selection rr_Select
  by unfold_locales (auto simp: rr_Select_def Let_def rr_index_in_range split: if_splits)

lemma rr_run:
  assumes "ks \<noteq> []" and "length ks < 2 ^ 64" and "unat (rr_counter r) + n \<le> 2 ^ 64"
  shows "snd (select_run rr_Select r ks n) =
    map (\<lambda>i. Some (ks ! ((unat (rr_counter r) + i) mod length ks))) [0..<n]"
  using assms(3)
proof (induction n arbitrary: r)
  case (Suc n)
  let ?c = "rr_counter r"
  have tail: "snd (select_run rr_Select (r\<lparr>rr_counter := ?c + 1\<rparr>) ks n) =
      map (\<lambda>i. Some (ks ! ((unat ?c + Suc i) mod length ks))) [0..<n]"
  proof (cases n)
    case (Suc m)
    with Suc.prems have lt: "unat ?c + 1 < 2 ^ 64" by simp
    then have "unat (?c + 1) = unat ?c + 1"
      by (simp add: unat_word_ariths)
    then show ?thesis using Suc.IH [of "r\<lparr>rr_counter := ?c + 1\<rparr>"] Suc.prems by simp
  qed simp
  let ?f = "\<lambda>i. Some (ks ! ((unat ?c + i) mod length ks))"
  have "map ?f [0..<Suc n] = ?f 0 # map (\<lambda>i. ?f (Suc i)) [0..<n]"
    by (simp only: upt_conv_Cons map_Suc_upt [symmetric] zero_less_Suc list.map map_map comp_def)
  with tail show ?case
    by (simp add: rr_Select_nonempty [OF assms(1,2)] Let_def split_beta del: upt_Suc)
qed simp

lemma rr_run_rotate:
  assumes "ks \<noteq> []" and "unat (rr_counter r) + length ks \<le> 2 ^ 64" and "length ks < 2 ^ 64"
  shows "snd (select_run rr_Select r ks (length ks)) =
    map Some (rotate (unat (rr_counter r) mod length ks) ks)"
  unfolding rr_run [OF assms(1,3,2)]
  by (rule nth_equalityI) (use assms(1) in \<open>auto simp: nth_rotate mod_add_left_eq\<close>)

section \<open>Weighted round robin: the two loops\<close>

abbreviation key_ids :: "key_store \<Rightarrow> key_ref list \<Rightarrow> string list" where
  "key_ids st ks \<equiv> map (\<lambda>k. pk_ID (st k)) ks"

abbreviation total_weight :: "key_store \<Rightarrow> key_ref list \<Rightarrow> int" where
  "total_weight st ks \<equiv> (\<Sum>k\<leftarrow>ks. pk_Weight (st k))"

definition cur :: "key_store \<Rightarrow> (string \<rightharpoonup> int) \<Rightarrow> key_ref \<Rightarrow> int" where
  "cur st m k = wget m (pk_ID (st k))"

lemma wget_upd [simp]: "wget (m(i \<mapsto> v)) j = (if j = i then v else wget m j)"
  by (simp add: wget_def)

lemma wget_empty [simp]: "wget Map.empty i = 0"
  by (simp add: wget_def)

lemma total_weight_nonneg: "\<forall>k \<in> set ks. 0 \<le> pk_Weight (st k) \<Longrightarrow> 0 \<le> total_weight st ks"
  by (induction ks) auto

lemma wrr_raise_spec:
  assumes "distinct (key_ids st ks)" and "\<forall>k \<in> set ks. 0 \<le> pk_Weight (st k)"
    and "0 \<le> t" and "t + total_weight st ks < 2 ^ 63"
    and "\<forall>k \<in> set ks. in_i64 (cur st m k + pk_Weight (st k))"
    and "wrr_raise st ks t m = (t', m')"
  shows "t' = t + total_weight st ks \<and>
    (\<forall>k \<in> set ks. cur st m' k = cur st m k + pk_Weight (st k)) \<and>
    (\<forall>i. i \<notin> set (key_ids st ks) \<longrightarrow> wget m' i = wget m i)"
  using assms
proof (induction ks arbitrary: t m)
  case Nil
  then show ?case by simp
next
  case (Cons k ks)
  let ?t = "t + pk_Weight (st k)"
  let ?m = "m(pk_ID (st k) \<mapsto> cur st m k + pk_Weight (st k))"
  have nonneg: "0 \<le> total_weight st ks"
    using Cons.prems(2) by (intro total_weight_nonneg) simp
  have wrap: "i64 ?t = ?t" "i64 (cur st m k + pk_Weight (st k)) = cur st m k + pk_Weight (st k)"
    using Cons.prems nonneg by (auto simp: i64_id intro!: i64_idI)
  have other: "cur st ?m j = cur st m j" if "j \<in> set ks" for j
    using imageI [OF that, of "\<lambda>k. pk_ID (st k)"] Cons.prems(1) by (auto simp: cur_def)
  have run: "wrr_raise st ks ?t ?m = (t', m')"
    using Cons.prems(6) wrap by (simp add: cur_def)
  have IH: "t' = ?t + total_weight st ks \<and>
      (\<forall>k \<in> set ks. cur st m' k = cur st ?m k + pk_Weight (st k)) \<and>
      (\<forall>i. i \<notin> set (key_ids st ks) \<longrightarrow> wget m' i = wget ?m i)"
  proof (rule Cons.IH)
    show "\<forall>j \<in> set ks. in_i64 (cur st ?m j + pk_Weight (st j))"
      using Cons.prems(5) other by simp
    show "wrr_raise st ks ?t ?m = (t', m')" by (rule run)
  qed (use Cons.prems in auto)
  moreover have "cur st m' k = cur st m k + pk_Weight (st k)"
    using IH Cons.prems(1) by (simp add: cur_def)
  ultimately show ?case using other by auto
qed

lemma wrr_best_spec:
  "case wrr_best st m ks sel mx of
     None \<Rightarrow> sel = None \<and> (\<forall>j \<in> set ks. cur st m j \<le> mx)
   | Some k \<Rightarrow> (sel = Some k \<and> (\<forall>j \<in> set ks. cur st m j \<le> mx)) \<or>
       (k \<in> set ks \<and> mx < cur st m k \<and> (\<forall>j \<in> set ks. cur st m j \<le> cur st m k))"
proof (induction st m ks sel mx rule: wrr_best.induct)
  case (1 st m sel mx)
  then show ?case by (cases sel) auto
next
  case (2 st m k ks sel mx)
  show ?case
  proof (cases "mx < cur st m k")
    case True
    then show ?thesis using "2.IH"(1) by (auto simp: cur_def split: option.splits)
  next
    case False
    then show ?thesis using "2.IH"(2) by (fastforce simp: cur_def split: option.splits)
  qed
qed

lemma wrr_best_from_scratch:
  assumes "j \<in> set ks" and "-1 < cur st m j"
  obtains k where "wrr_best st m ks None (-1) = Some k" and "k \<in> set ks"
    and "\<forall>j \<in> set ks. cur st m j \<le> cur st m k"
  using wrr_best_spec [where st = st and m = m and ks = ks and sel = None and mx = "-1"] assms
  by (fastforce split: option.splits)

lemma wrr_Select_member: "wrr_Select st w ks = (w', Some k) \<Longrightarrow> k \<in> set ks"
proof -
  assume sel: "wrr_Select st w ks = (w', Some k)"
  obtain t m where "wrr_raise st ks 0 (wrr_currentWeights w) = (t, m)" by fastforce
  with sel have "wrr_best st m ks None (-1) = Some k"
    by (auto simp: wrr_Select_def Let_def split: if_splits option.splits)
  with wrr_best_spec [where st = st and m = m and ks = ks and sel = None and mx = "-1"] show ?thesis by simp
qed

interpretation wrr: key_selection "wrr_Select st" for st
  by unfold_locales (simp add: wrr_Select_def, rule wrr_Select_member)

interpretation strat: key_selection "strategy_Select st" for st
proof
  fix s s' ks k
  show "snd (strategy_Select st s []) = None"
    by (cases s) (auto simp: rr.select_empty wrr.select_empty split_beta)
  assume sel: "strategy_Select st s ks = (s', Some k)"
  show "k \<in> set ks"
  proof (cases s)
    case (RoundRobin r)
    with sel show ?thesis using rr.select_member [of r ks "fst (rr_Select r ks)" k]
      by (simp add: split_beta prod_eq_iff)
  next
    case (WeightedRoundRobin w)
    with sel show ?thesis using wrr_Select_member [of st w ks "fst (wrr_Select st w ks)" k]
      by (simp add: split_beta prod_eq_iff)
  qed
qed

section \<open>Weighted round robin: proportional shares\<close>

text \<open>
  The state of the algorithm after \<open>t\<close> selections from a set of keys that does not change:
  a key that was picked \<open>n k\<close> times has the current weight \<open>t * w - W * n k\<close>, where \<open>W\<close> is
  the total weight, and no current weight is \<open>- W\<close> or less.
\<close>

definition balanced :: "key_store \<Rightarrow> key_ref list \<Rightarrow> (string \<rightharpoonup> int) \<Rightarrow> nat \<Rightarrow> (key_ref \<Rightarrow> nat) \<Rightarrow> bool" where
  "balanced st ks m t n \<longleftrightarrow>
     (\<forall>k \<in> set ks. cur st m k = int t * pk_Weight (st k) - total_weight st ks * int (n k) \<and>
        - total_weight st ks < cur st m k) \<and>
     (\<Sum>k \<in> set ks. n k) = t"

text \<open>The pool the theorems are about: distinct IDs, positive weights, no 64-bit overflow.\<close>

definition wrr_pool :: "key_store \<Rightarrow> key_ref list \<Rightarrow> bool" where
  "wrr_pool st ks \<longleftrightarrow> ks \<noteq> [] \<and> distinct (key_ids st ks) \<and> (\<forall>k \<in> set ks. 0 < pk_Weight (st k)) \<and>
     (int (length ks) + 1) * total_weight st ks < 2 ^ 63"

lemma wrr_pool_distinct: "wrr_pool st ks \<Longrightarrow> distinct ks"
  by (auto simp: wrr_pool_def distinct_map)

lemma wrr_pool_total:
  assumes "wrr_pool st ks"
  shows "total_weight st ks = (\<Sum>k \<in> set ks. pk_Weight (st k))" and "0 < total_weight st ks"
proof -
  show eq: "total_weight st ks = (\<Sum>k \<in> set ks. pk_Weight (st k))"
    using wrr_pool_distinct [OF assms] by (rule sum_list_distinct_conv_sum_set)
  show "0 < total_weight st ks"
    unfolding eq using assms by (intro sum_pos) (auto simp: wrr_pool_def)
qed

lemma balanced_sum_zero:
  assumes "wrr_pool st ks" and "balanced st ks m t n"
  shows "(\<Sum>k \<in> set ks. cur st m k) = 0"
proof -
  have "(\<Sum>k \<in> set ks. cur st m k) =
      (\<Sum>k \<in> set ks. int t * pk_Weight (st k) - total_weight st ks * int (n k))"
    using assms(2) by (intro sum.cong) (auto simp: balanced_def)
  also have "\<dots> = int t * total_weight st ks - total_weight st ks * int (\<Sum>k \<in> set ks. n k)"
    by (simp add: sum_subtractf sum_distrib_left wrr_pool_total(1) [OF assms(1)])
  moreover have "int (\<Sum>k \<in> set ks. n k) = int t"
    using assms(2) by (simp add: balanced_def)
  ultimately show ?thesis by simp
qed

lemma balanced_lower: "balanced st ks m t n \<Longrightarrow> k \<in> set ks \<Longrightarrow> - total_weight st ks < cur st m k"
  unfolding balanced_def by blast

lemma balanced_upper:
  assumes "wrr_pool st ks" and "balanced st ks m t n" and "k \<in> set ks"
  shows "cur st m k \<le> (int (length ks) - 1) * total_weight st ks"
proof -
  have "- (int (length ks) - 1) * total_weight st ks = (\<Sum>j \<in> set ks - {k}. - total_weight st ks)"
    using assms(3) wrr_pool_distinct [OF assms(1)] distinct_card [of ks]
    by (simp add: card_Diff_singleton of_nat_diff Suc_le_eq card_gt_0_iff)
      (metis card_gt_0_iff empty_iff finite_set of_nat_diff One_nat_def Suc_leI of_nat_1
        minus_mult_left minus_diff_eq mult_minus_left)
  also have "\<dots> \<le> (\<Sum>j \<in> set ks - {k}. cur st m j)"
    using assms(2) by (intro sum_mono) (auto simp: balanced_def less_imp_le)
  also have "\<dots> = - cur st m k"
    using balanced_sum_zero [OF assms(1,2)] assms(3) by (simp add: sum.remove)
  finally show ?thesis by (simp add: algebra_simps)
qed

text \<open>On a pool the sums stay within 64 bits, and some raised weight is positive.\<close>

lemma wrr_raised:
  assumes pool: "wrr_pool st ks" and bal: "balanced st ks m t n" and raise: "wrr_raise st ks 0 m = (t', m1)"
  shows "t' = total_weight st ks" and "\<forall>k \<in> set ks. cur st m1 k = cur st m k + pk_Weight (st k)"
    and "\<forall>k \<in> set ks. - total_weight st ks < cur st m1 k \<and> in_i64 (cur st m1 k)"
    and "\<exists>k \<in> set ks. 0 < cur st m1 k" and "total_weight st ks < 2 ^ 63"
proof -
  let ?W = "total_weight st ks"
  note W = wrr_pool_total [OF pool]
  have nonneg: "\<forall>k \<in> set ks. 0 \<le> pk_Weight (st k)" using pool by (auto simp: wrr_pool_def)
  have w_le: "pk_Weight (st k) \<le> ?W" if "k \<in> set ks" for k
    unfolding W(1) using that nonneg by (intro member_le_sum) auto
  have len: "1 \<le> int (length ks)" using pool by (cases ks) (auto simp: wrr_pool_def)
  have big: "int (length ks) * ?W + ?W < 2 ^ 63" using pool by (simp add: wrr_pool_def algebra_simps)
  have Wle: "?W \<le> int (length ks) * ?W" using len W(2) by simp
  show small: "?W < 2 ^ 63" using big Wle W(2) by linarith
  have range: "in_i64 (cur st m k + pk_Weight (st k))" if "k \<in> set ks" for k
  proof -
    have "- ?W < cur st m k" using bal that by (rule balanced_lower)
    moreover have "cur st m k \<le> int (length ks) * ?W - ?W"
      using balanced_upper [OF pool bal that] by (simp add: algebra_simps)
    ultimately show ?thesis using w_le [OF that] nonneg that big Wle W(2) unfolding in_i64_def by fastforce
  qed
  show "t' = ?W" and raised: "\<forall>k \<in> set ks. cur st m1 k = cur st m k + pk_Weight (st k)"
    using wrr_raise_spec [OF _ nonneg _ _ _ raise] pool range small by (auto simp: wrr_pool_def)
  show "\<forall>k \<in> set ks. - ?W < cur st m1 k \<and> in_i64 (cur st m1 k)"
    using balanced_lower [OF bal] raised nonneg range by force
  have "(\<Sum>k \<in> set ks. cur st m1 k) = ?W"
    using raised balanced_sum_zero [OF pool bal] by (simp add: sum.distrib W(1))
  then show "\<exists>k \<in> set ks. 0 < cur st m1 k" using W(2) by (metis not_le sum_nonpos)
qed

lemma balanced_selected:
  assumes pool: "wrr_pool st ks" and bal: "balanced st ks m t n" and k: "k \<in> set ks" "0 < cur st m1 k"
    and raised: "\<forall>k \<in> set ks. cur st m1 k = cur st m k + pk_Weight (st k)"
    and low: "\<forall>k \<in> set ks. - total_weight st ks < cur st m1 k"
  shows "balanced st ks (m1(pk_ID (st k) \<mapsto> cur st m1 k - total_weight st ks)) (Suc t) (n(k := Suc (n k)))"
proof -
  let ?W = "total_weight st ks" and ?m = "m1(pk_ID (st k) \<mapsto> cur st m1 k - total_weight st ks)"
  have cur: "cur st ?m i = cur st m1 i - (if i = k then ?W else 0)" if "i \<in> set ks" for i
    using that k(1) pool by (auto simp: cur_def wrr_pool_def distinct_map dest: inj_onD)
  have "(\<Sum>i \<in> set ks. (n(k := Suc (n k))) i) = Suc t"
    using k(1) bal by (simp add: balanced_def sum.remove [of _ k])
  moreover have "cur st ?m i = int (Suc t) * pk_Weight (st i) - ?W * int ((n(k := Suc (n k))) i) \<and>
      - ?W < cur st ?m i" if "i \<in> set ks" for i
  proof -
    have "cur st m i = int t * pk_Weight (st i) - ?W * int (n i)" using bal that by (auto simp: balanced_def)
    then show ?thesis using cur [OF that] raised low that k(2) by (cases "i = k") (simp_all add: algebra_simps)
  qed
  ultimately show ?thesis unfolding balanced_def by blast
qed

lemma wrr_Select_balanced:
  assumes pool: "wrr_pool st ks" and bal: "balanced st ks (wrr_currentWeights w) t n"
  obtains k w' where "wrr_Select st w ks = (w', Some k)" and "k \<in> set ks"
    and "balanced st ks (wrr_currentWeights w') (Suc t) (n(k := Suc (n k)))"
proof -
  let ?W = "total_weight st ks"
  obtain t' m where raise: "wrr_raise st ks 0 (wrr_currentWeights w) = (t', m)" by fastforce
  note facts = wrr_raised [OF pool bal raise]
  obtain j where j: "j \<in> set ks" "0 < cur st m j" using facts(4) by blast
  then obtain k where best: "wrr_best st m ks None (-1) = Some k" and k: "k \<in> set ks"
      and max: "\<forall>j \<in> set ks. cur st m j \<le> cur st m k"
    by (auto elim: wrr_best_from_scratch [of j ks st m])
  have pos: "0 < cur st m k" using j max by force
  have wrap: "i64 (cur st m k - ?W) = cur st m k - ?W"
    using pos facts(3,5) k wrr_pool_total(2) [OF pool] by (intro i64_idI) (fastforce simp: in_i64_def)+
  let ?w = "w\<lparr>wrr_currentWeights := m(pk_ID (st k) \<mapsto> cur st m k - ?W)\<rparr>"
  have "wrr_Select st w ks = (?w, Some k)"
    using pool raise best wrap by (simp add: wrr_Select_def wrr_pool_def facts(1) cur_def)
  moreover have "balanced st ks (wrr_currentWeights ?w) (Suc t) (n(k := Suc (n k)))"
    using balanced_selected [OF pool bal k pos facts(2)] facts(3) by simp
  ultimately show thesis using that k by blast
qed

lemma wrr_run_balanced:
  assumes "wrr_pool st ks" and "balanced st ks (wrr_currentWeights w) t n"
    and "select_run (wrr_Select st) w ks N = (w', res)"
  shows "balanced st ks (wrr_currentWeights w') (t + N) (\<lambda>k. n k + count_list res (Some k)) \<and>
    None \<notin> set res \<and> length res = N"
  using assms(2,3)
proof (induction N arbitrary: w t n res)
  case 0
  then show ?case by (auto simp: balanced_def)
next
  case (Suc N)
  obtain k w1 where sel: "wrr_Select st w ks = (w1, Some k)"
      and bal: "balanced st ks (wrr_currentWeights w1) (Suc t) (n(k := Suc (n k)))"
    by (rule wrr_Select_balanced [OF assms(1) Suc.prems(1)])
  obtain rest where run: "select_run (wrr_Select st) w1 ks N = (w', rest)"
      and res: "res = Some k # rest"
    using Suc.prems(2) sel by (auto simp: split_beta prod_eq_iff)
  have "(\<lambda>j. (n(k := Suc (n k))) j + count_list rest (Some j)) =
      (\<lambda>j. n j + count_list res (Some j))"
    by (auto simp: res)
  with Suc.IH [OF bal run] show ?case by (simp add: res)
qed

lemma balanced_start: "\<forall>k \<in> set ks. cur st m k = 0 \<Longrightarrow> wrr_pool st ks \<Longrightarrow> balanced st ks m 0 (\<lambda>_. 0)"
  using wrr_pool_total(2) [of st ks] by (simp add: balanced_def)

lemma balanced_cycle:
  assumes pool: "wrr_pool st ks" and bal: "balanced st ks m (nat (total_weight st ks)) n"
    and k: "k \<in> set ks"
  shows "int (n k) = pk_Weight (st k) \<and> cur st m k = 0"
proof -
  let ?W = "total_weight st ks"
  note W = wrr_pool_total [OF pool]
  have eq: "cur st m j = ?W * (pk_Weight (st j) - int (n j))" if "j \<in> set ks" for j
    using bal that W(2) by (simp add: balanced_def algebra_simps)
  have le: "int (n j) \<le> pk_Weight (st j)" if "j \<in> set ks" for j
  proof -
    have "?W * (-1) < ?W * (pk_Weight (st j) - int (n j))"
      using balanced_lower [OF bal that] eq [OF that] by simp
    then have "-1 < pk_Weight (st j) - int (n j)" using W(2) by (simp only: mult_less_cancel_left_pos)
    then show ?thesis by simp
  qed
  have "(\<Sum>j \<in> set ks. pk_Weight (st j) - int (n j)) = ?W - int (\<Sum>j \<in> set ks. n j)"
    by (simp add: sum_subtractf W(1))
  also have "\<dots> = 0" using bal W(2) by (simp add: balanced_def)
  finally have "\<forall>j \<in> set ks. pk_Weight (st j) - int (n j) = 0"
    using le by (subst (asm) sum_nonneg_eq_0_iff) auto
  with k eq [OF k] show ?thesis by simp
qed

section \<open>Properties\<close>

text \<open>Round robin is a rotation. As many selections in a row as there are keys pick every key
  exactly once, in the order of the slice from the counter's position, as long as the 64-bit
  counter does not wrap in between.\<close>

theorem round_robin_rotates:
  assumes "ks \<noteq> []" and "length ks < 2 ^ 64" and "unat (rr_counter r) + length ks \<le> 2 ^ 64"
  shows "snd (select_run rr_Select r ks (length ks)) =
    map Some (rotate (unat (rr_counter r) mod length ks) ks)"
  by (rule rr_run_rotate [OF assms(1,3,2)])

theorem round_robin_rotates_witness:
  "let ks = [''A'', ''B'', ''C''] in
    snd (select_run rr_Select \<lparr>rr_counter = 4\<rparr> ks (length ks)) =
    [Some ''B'', Some ''C'', Some ''A'']"
proof -
  let ?ks = "[''A'', ''B'', ''C'']"
  have "snd (select_run rr_Select \<lparr>rr_counter = 4\<rparr> ?ks (length ?ks)) =
      map Some (rotate (unat (rr_counter \<lparr>rr_counter = 4\<rparr>) mod length ?ks) ?ks)"
    by (rule round_robin_rotates) simp_all
  also have "\<dots> = [Some ''B'', Some ''C'', Some ''A'']" by (simp add: rotate1_def)
  finally show ?thesis by (simp only: Let_def)
qed

text \<open>C22: weighted round robin gives every key exactly its share. From current weights that are
  zero (a new or a reset strategy), with positive weights, distinct key IDs and weights small
  enough for 64 bits, any number of selections from the same keys all pick a key; at every
  moment a key is less than one selection ahead of its proportional share; and a cycle of as
  many selections as the total weight picks each key exactly as often as its weight says and
  brings every current weight back to zero.\<close>

theorem weighted_round_robin_shares:
  assumes "wrr_pool st ks" and "\<forall>k \<in> set ks. cur st (wrr_currentWeights w) k = 0"
    and "select_run (wrr_Select st) w ks N = (w', picks)"
  shows "length picks = N \<and> set picks \<subseteq> Some ` set ks \<and>
    (\<forall>k \<in> set ks. total_weight st ks * int (count_list picks (Some k)) <
        int N * pk_Weight (st k) + total_weight st ks) \<and>
    (int N = total_weight st ks \<longrightarrow>
      (\<forall>k \<in> set ks. int (count_list picks (Some k)) = pk_Weight (st k) \<and>
         cur st (wrr_currentWeights w') k = 0))"
proof -
  let ?n = "\<lambda>k. count_list picks (Some k)"
  have run: "balanced st ks (wrr_currentWeights w') N ?n \<and> None \<notin> set picks \<and> length picks = N"
    using wrr_run_balanced [OF assms(1) balanced_start [OF assms(2,1)] assms(3)] by simp
  have "set picks \<subseteq> Some ` set ks"
  proof
    fix x assume x: "x \<in> set picks"
    then obtain k where "x = Some k" using run by (metis option.exhaust)
    then show "x \<in> Some ` set ks"
      using wrr.select_run_member [OF assms(3)] x by auto
  qed
  moreover have "total_weight st ks * int (?n k) < int N * pk_Weight (st k) + total_weight st ks"
    if "k \<in> set ks" for k
    using run that by (fastforce simp: balanced_def)
  moreover have "int N = total_weight st ks \<Longrightarrow> k \<in> set ks \<Longrightarrow>
      int (?n k) = pk_Weight (st k) \<and> cur st (wrr_currentWeights w') k = 0" for k
    using run balanced_cycle [OF assms(1), of _ ?n k] by (metis nat_int)
  ultimately show ?thesis using run by blast
qed

text \<open>The pool of the example in the comment of the source: A with weight 3, B with weight 1.\<close>

definition example_key :: "string \<Rightarrow> int \<Rightarrow> pool_key" where
  "example_key i w =
     \<lparr>pk_ID = i, pk_Name = i, pk_KeyEncrypted = ''e'', pk_Weight = w,
      pk_RateLimitPerMinute = 60, pk_RateLimitPerDay = 10000, pk_ConcurrentLimit = 5,
      pk_currentConcurrent = 0, pk_minuteCounter = 0, pk_dayCounter = 0,
      pk_minuteResetAt = 0, pk_dayResetAt = 0, pk_circuitBreaker = None\<rparr>"

definition example_store :: "int \<Rightarrow> int \<Rightarrow> key_store" where
  "example_store a b = (\<lambda>k. if k = 0 then example_key ''A'' a else example_key ''B'' b)"

theorem weighted_round_robin_shares_witness:
  "let picks = snd (select_run (wrr_Select (example_store 3 1)) NewWeightedRoundRobinStrategy [0, 1] 4)
   in picks = [Some 0, Some 0, Some 1, Some 0] \<and> int (count_list picks (Some 0)) = 3 \<and>
      int (count_list picks (Some 1)) = 1"
proof -
  let ?st = "example_store 3 1"
  have pool: "wrr_pool ?st [0, 1]" by (simp add: wrr_pool_def example_store_def example_key_def)
  obtain w' where run: "select_run (wrr_Select ?st) NewWeightedRoundRobinStrategy [0, 1] 4 =
      (w', [Some 0, Some 0, Some 1, Some 0])"
    by (simp add: numeral_eq_Suc wrr_Select_def Let_def NewWeightedRoundRobinStrategy_def
        example_store_def example_key_def i64_def)
  have zero: "\<forall>k \<in> set [0, 1]. cur ?st (wrr_currentWeights NewWeightedRoundRobinStrategy) k = 0"
    by (simp add: cur_def NewWeightedRoundRobinStrategy_def)
  have "total_weight ?st [0, 1] = 4" by (simp add: example_store_def example_key_def)
  then have "int (count_list [Some 0, Some 0, Some 1, Some 0] (Some (0::key_ref))) = pk_Weight (?st 0) \<and>
      int (count_list [Some 0, Some 0, Some 1, Some 0] (Some (1::key_ref))) = pk_Weight (?st 1)"
    using weighted_round_robin_shares [OF pool zero run] by simp
  then show ?thesis unfolding run Let_def snd_conv
    by (simp add: example_store_def example_key_def)
qed

text \<open>The weighted strategy can refuse a pool that has usable keys. After three selections from
  A (weight 1) and B (weight 5), A's current weight is -3; when B becomes unavailable, the next
  two calls on the slice holding only A select nothing, because a key is only ever picked at a
  current weight of 0 or more.\<close>

theorem weighted_round_robin_starves:
  "let st = example_store 1 5;
       (w, picks) = select_run (wrr_Select st) NewWeightedRoundRobinStrategy [0, 1] 3
   in picks = [Some 1, Some 1, Some 0] \<and>
      snd (select_run (wrr_Select st) w [0] 3) = [None, None, Some 0]"
  by (simp add: numeral_eq_Suc wrr_Select_def Let_def NewWeightedRoundRobinStrategy_def
      example_store_def example_key_def i64_def)

end
