(* ===== verification/Go_Strings.thy ===== *)
theory Go_Strings
  imports Go_Base
begin

text \<open>
  What the program uses of Go's \<open>strconv\<close>, \<open>strings\<close> and \<open>fmt\<close>: the decimal form of an
  integer, \<open>Atoi\<close>, \<open>ParseBool\<close>, \<open>ToLower\<close> on ASCII, the prefix and suffix tests and \<open>SplitN\<close>. A string
  is the list of its bytes.
\<close>

section \<open>Decimal integers\<close>

definition digit_char :: "nat \<Rightarrow> char" where
  "digit_char d = char_of (48 + d)"

definition digit_of :: "char \<Rightarrow> nat option" where
  "digit_of c = (let n = of_char c in if 48 \<le> n \<and> n \<le> 57 then Some (n - 48) else None)"

fun show_nat :: "nat \<Rightarrow> string" where
  "show_nat n = (if n < 10 then [digit_char n] else show_nat (n div 10) @ [digit_char (n mod 10)])"

declare show_nat.simps [simp del]

text \<open>The verb \<open>%d\<close> of \<open>fmt.Sprintf\<close>.\<close>

definition show_int :: "int \<Rightarrow> string" where
  "show_int n = (if n < 0 then CHR ''-'' # show_nat (nat (- n)) else show_nat (nat n))"

fun digits_value :: "nat \<Rightarrow> string \<Rightarrow> nat option" where
  "digits_value acc [] = Some acc"
| "digits_value acc (c # cs) =
     (case digit_of c of None \<Rightarrow> None | Some d \<Rightarrow> digits_value (10 * acc + d) cs)"

text \<open>
  \<open>strconv.Atoi\<close>: an optional sign and at least one digit, and nothing else; a number outside
  the range of \<open>int\<close> is an error.
\<close>

definition atoi_unsigned :: "string \<Rightarrow> nat option" where
  "atoi_unsigned s = (if s = [] then None else digits_value 0 s)"

definition Atoi :: "string \<Rightarrow> int option" where
  "Atoi s =
     (let v = (case s of
                 [] \<Rightarrow> None
               | c # cs \<Rightarrow>
                   if c = CHR ''-'' then map_option (\<lambda>n. - int n) (atoi_unsigned cs)
                   else if c = CHR ''+'' then map_option int (atoi_unsigned cs)
                   else map_option int (atoi_unsigned s))
      in case v of None \<Rightarrow> None | Some n \<Rightarrow> if in_i64 n then Some n else None)"

definition ParseBool :: "string \<Rightarrow> bool option" where
  "ParseBool s =
     (if s \<in> set [''1'', ''t'', ''T'', ''true'', ''TRUE'', ''True''] then Some True
      else if s \<in> set [''0'', ''f'', ''F'', ''false'', ''FALSE'', ''False''] then Some False
      else None)"

section \<open>Letters, prefixes and suffixes\<close>

definition lower_char :: "char \<Rightarrow> char" where
  "lower_char c = (let n = of_char c :: nat in if 65 \<le> n \<and> n \<le> 90 then char_of (n + 32) else c)"

definition to_lower :: "string \<Rightarrow> string" where
  "to_lower s = map lower_char s"

definition has_prefix :: "string \<Rightarrow> string \<Rightarrow> bool" where
  "has_prefix s p \<longleftrightarrow> take (length p) s = p"

definition has_suffix :: "string \<Rightarrow> string \<Rightarrow> bool" where
  "has_suffix s p \<longleftrightarrow> length p \<le> length s \<and> drop (length s - length p) s = p"

definition trim_prefix :: "string \<Rightarrow> string \<Rightarrow> string" where
  "trim_prefix s p = (if has_prefix s p then drop (length p) s else s)"

definition trim_suffix :: "string \<Rightarrow> string \<Rightarrow> string" where
  "trim_suffix s p = (if has_suffix s p then take (length s - length p) s else s)"

lemma has_prefix_append [simp]: "has_prefix (p @ s) p"
  by (simp add: has_prefix_def)

lemma trim_prefix_append [simp]: "trim_prefix (p @ s) p = s"
  by (simp add: trim_prefix_def)

lemma trim_suffix_append [simp]: "trim_suffix (s @ p) p = s"
  by (simp add: trim_suffix_def has_suffix_def)

text \<open>\<open>strings.SplitN(s, sep, 2)\<close>: the part before the separator, and the rest if there is one.\<close>

definition split2 :: "char \<Rightarrow> string \<Rightarrow> string \<times> string option" where
  "split2 c s = (takeWhile (\<lambda>x. x \<noteq> c) s,
     if c \<in> set s then Some (tl (dropWhile (\<lambda>x. x \<noteq> c) s)) else None)"

lemma split2_append:
  assumes "c \<notin> set a"
  shows "split2 c (a @ c # b) = (a, Some b)"
  using assms by (simp add: split2_def takeWhile_append dropWhile_append)

lemma split2_some: "split2 c s = (a, Some b) \<Longrightarrow> s = a @ c # b \<and> c \<notin> set a"
proof -
  assume "split2 c s = (a, Some b)"
  then have a: "a = takeWhile (\<lambda>x. x \<noteq> c) s" and c: "c \<in> set s" and b: "b = tl (dropWhile (\<lambda>x. x \<noteq> c) s)"
    by (auto simp: split2_def split: if_splits)
  have ne: "dropWhile (\<lambda>x. x \<noteq> c) s \<noteq> []" using c by (simp add: dropWhile_eq_Nil_conv)
  have "hd (dropWhile (\<lambda>x. x \<noteq> c) s) = c" using hd_dropWhile [OF ne] by simp
  then have "dropWhile (\<lambda>x. x \<noteq> c) s = c # b" unfolding b using ne by (metis list.collapse)
  then have "s = a @ c # b" using takeWhile_dropWhile_id [of "\<lambda>x. x \<noteq> c" s] a by simp
  moreover have "c \<notin> set a" using a by (metis set_takeWhileD)
  ultimately show ?thesis by simp
qed

section \<open>Printing and parsing an integer\<close>

lemma digit_of_char: "d < 10 \<Longrightarrow> digit_of (digit_char d) = Some d"
  by (simp add: digit_of_def digit_char_def)

lemma digit_char_not_sign:
  assumes "d < 10"
  shows "digit_char d \<noteq> CHR ''-''" and "digit_char d \<noteq> CHR ''+''"
proof -
  have "of_char (digit_char d) = 48 + d" using assms by (simp add: digit_char_def)
  moreover have "of_char CHR ''-'' = (45::nat)" "of_char CHR ''+'' = (43::nat)" by simp_all
  ultimately show "digit_char d \<noteq> CHR ''-''" "digit_char d \<noteq> CHR ''+''" by (metis less_add_same_cancel1 not_add_less1 numeral_less_iff semiring_norm)+
qed

lemma digits_value_append:
  "digits_value acc (xs @ ys) =
     (case digits_value acc xs of None \<Rightarrow> None | Some a \<Rightarrow> digits_value a ys)"
  by (induction acc xs rule: digits_value.induct) (auto split: option.splits)

lemma digits_value_show: "digits_value 0 (show_nat n) = Some n"
proof (induction n rule: show_nat.induct)
  case (1 n)
  show ?case
  proof (cases "n < 10")
    case True
    then show ?thesis by (subst show_nat.simps) (simp add: digit_of_char)
  next
    case False
    with 1 show ?thesis
      by (subst show_nat.simps) (simp add: digits_value_append digit_of_char)
  qed
qed

lemma show_nat_first: "\<exists>d cs. show_nat n = digit_char d # cs \<and> d < 10"
proof (induction n rule: show_nat.induct)
  case (1 n)
  then show ?case by (subst show_nat.simps) (cases "n < 10", auto)
qed

lemma Atoi_show_int: "in_i64 n \<Longrightarrow> Atoi (show_int n) = Some n"
proof (cases "n < 0")
  case True
  obtain d cs where "show_nat (nat (- n)) = digit_char d # cs" using show_nat_first by blast
  moreover assume "in_i64 n"
  ultimately show ?thesis
    using True digits_value_show [of "nat (- n)"] by (simp add: Atoi_def show_int_def atoi_unsigned_def)
next
  case False
  obtain d cs where first: "show_nat (nat n) = digit_char d # cs" "d < 10"
    using show_nat_first by blast
  moreover assume "in_i64 n"
  ultimately show ?thesis
    using False digits_value_show [of "nat n"] digit_char_not_sign [OF first(2)]
    by (simp add: Atoi_def show_int_def atoi_unsigned_def)
qed

lemma Atoi_in_range: "Atoi s = Some n \<Longrightarrow> in_i64 n"
  by (auto simp: Atoi_def Let_def split: option.splits if_splits)

end
