(* ===== verification/Go_Float.thy ===== *)
theory Go_Float
  imports Complex_Main "HOL-Library.Log_Nat" Go_Base
begin

text \<open>
  Go's \<open>float64\<close>: a finite value is the rational it denotes, beside the infinities and NaN. The
  two zeros are one value (no comparison of the program tells them apart). Every arithmetic
  operation rounds its exact result to the nearest double, ties to even, as IEEE 754 does;
  \<open>f64_round\<close> is that rounding, with gradual underflow and overflow to an infinity, and it is
  executable.
\<close>

section \<open>Values and comparisons\<close>

datatype f64 = Fin rat | PInf | NInf | NaN

fun f64_less :: "f64 \<Rightarrow> f64 \<Rightarrow> bool" where
  "f64_less NaN _ = False"
| "f64_less _ NaN = False"
| "f64_less (Fin a) (Fin b) = (a < b)"
| "f64_less (Fin _) PInf = True"
| "f64_less (Fin _) NInf = False"
| "f64_less PInf _ = False"
| "f64_less NInf NInf = False"
| "f64_less NInf _ = True"

definition f64_eq :: "f64 \<Rightarrow> f64 \<Rightarrow> bool" where
  "f64_eq a b \<longleftrightarrow> a \<noteq> NaN \<and> a = b"

section \<open>Rounding\<close>

definition floor_log2 :: "rat \<Rightarrow> int" where
  "floor_log2 x =
     (let (p, q) = quotient_of x; k = bitlen p - bitlen q
      in if 2 powi k \<le> x then k else k - 1)"

definition round_even :: "rat \<Rightarrow> int" where
  "round_even x =
     (let f = floor x; d = x - of_int f
      in if d < 1 / 2 then f else if 1 / 2 < d then f + 1 else if even f then f else f + 1)"

text \<open>The exponent of the last place of a positive rational, and the rounding of one.\<close>

definition ulp_exp :: "rat \<Rightarrow> int" where
  "ulp_exp x = max (floor_log2 x - 52) (- 1074)"

definition rnd_pos :: "rat \<Rightarrow> rat" where
  "rnd_pos x = of_int (round_even (x / 2 powi ulp_exp x)) * 2 powi ulp_exp x"

definition f64_round :: "rat \<Rightarrow> f64" where
  "f64_round x =
     (if x = 0 then Fin 0
      else let y = rnd_pos \<bar>x\<bar>
           in if 2 ^ 1024 \<le> y then (if 0 < x then PInf else NInf)
              else Fin (if 0 < x then y else - y))"

definition f64_of_int :: "int \<Rightarrow> f64" where
  "f64_of_int n = f64_round (of_int n)"

fun f64_add :: "f64 \<Rightarrow> f64 \<Rightarrow> f64" where
  "f64_add NaN _ = NaN"
| "f64_add _ NaN = NaN"
| "f64_add (Fin a) (Fin b) = f64_round (a + b)"
| "f64_add (Fin _) y = y"
| "f64_add x (Fin _) = x"
| "f64_add x y = (if x = y then x else NaN)"

fun f64_neg :: "f64 \<Rightarrow> f64" where
  "f64_neg (Fin a) = Fin (- a)"
| "f64_neg PInf = NInf"
| "f64_neg NInf = PInf"
| "f64_neg NaN = NaN"

text \<open>A finite number times an infinity.\<close>

definition f64_scale_inf :: "rat \<Rightarrow> f64 \<Rightarrow> f64" where
  "f64_scale_inf a y = (if a = 0 then NaN else if 0 < a then y else f64_neg y)"

fun f64_mult :: "f64 \<Rightarrow> f64 \<Rightarrow> f64" where
  "f64_mult NaN _ = NaN"
| "f64_mult _ NaN = NaN"
| "f64_mult (Fin a) (Fin b) = f64_round (a * b)"
| "f64_mult (Fin a) y = f64_scale_inf a y"
| "f64_mult x (Fin b) = f64_scale_inf b x"
| "f64_mult PInf y = y"
| "f64_mult NInf y = f64_neg y"

text \<open>\<open>math.Pow(2, n)\<close> for an integral exponent is exact where the power is a double.\<close>

definition f64_pow2 :: "int \<Rightarrow> f64" where
  "f64_pow2 n = (if 1024 \<le> n then PInf else if n < - 1074 then Fin 0 else Fin (2 powi n))"

text \<open>
  The conversion \<open>int64(x)\<close> drops the fraction; for a value that does not fit, the result is up
  to the implementation, and on amd64 it is the smallest integer.
\<close>

definition rat_trunc :: "rat \<Rightarrow> int" where
  "rat_trunc x = (if 0 \<le> x then floor x else - floor (- x))"

fun f64_to_i64 :: "f64 \<Rightarrow> int" where
  "f64_to_i64 (Fin a) = (if in_i64 (rat_trunc a) then rat_trunc a else - (2 ^ 63))"
| "f64_to_i64 _ = - (2 ^ 63)"

section \<open>The binary exponent\<close>

lemma bitlen_powi:
  assumes "0 < n"
  shows "2 powi (bitlen n - 1) \<le> (of_int n :: rat)" and "(of_int n :: rat) < 2 powi bitlen n"
proof -
  have b: "2 ^ nat (bitlen n - 1) \<le> n" "n < 2 ^ nat (bitlen n)" "0 \<le> bitlen n - 1"
    using bitlen_bounds [OF assms] bitlen_nonneg [of n] bitlen_eq_zero_iff [of n] assms by linarith+
  have "(of_int (2 ^ nat (bitlen n - 1)) :: rat) \<le> of_int n" using b(1) by (rule of_int_le_iff [THEN iffD2])
  then show "2 powi (bitlen n - 1) \<le> (of_int n :: rat)"
    using b(3) by (simp add: power_int_nonneg_exp)
  have "(of_int n :: rat) < of_int (2 ^ nat (bitlen n))" using b(2) by (rule of_int_less_iff [THEN iffD2])
  then show "(of_int n :: rat) < 2 powi bitlen n"
    using b(3) by (simp add: power_int_nonneg_exp)
qed

lemma floor_log2_bounds:
  assumes "0 < x"
  shows "2 powi floor_log2 x \<le> x" and "x < 2 powi (floor_log2 x + 1)"
proof -
  obtain p q where pq: "quotient_of x = (p, q)" by (cases "quotient_of x")
  then have x: "x = of_int p / of_int q" and q: "0 < q"
    by (auto simp: quotient_of_div quotient_of_denom_pos)
  then have p: "0 < p" using assms by (simp add: zero_less_divide_iff)
  let ?k = "bitlen p - bitlen q"
  have "x * of_int q = of_int p" using x q by simp
  have "x < 2 powi bitlen p / 2 powi (bitlen q - 1)"
    unfolding x using bitlen_powi [OF p] bitlen_powi [OF q] p
    by (intro frac_less) simp_all
  also have "\<dots> = 2 powi (?k + 1)" by (simp flip: power_int_diff add: algebra_simps)
  finally have up: "x < 2 powi (?k + 1)" .
  have "2 powi (bitlen p - 1) / 2 powi bitlen q \<le> x"
    unfolding x using bitlen_powi [OF p] bitlen_powi [OF q] p q
    by (intro frac_le) simp_all
  also have "2 powi (bitlen p - 1) / 2 powi bitlen q = (2 powi (?k - 1) :: rat)"
    by (simp flip: power_int_diff add: algebra_simps)
  finally have low: "2 powi (?k - 1) \<le> x" .
  show "2 powi floor_log2 x \<le> x" "x < 2 powi (floor_log2 x + 1)"
    using low up by (auto simp: floor_log2_def pq Let_def)
qed

lemma powi_le_iff: "(2::rat) powi a \<le> 2 powi b \<longleftrightarrow> a \<le> b"
  by (metis one_less_numeral_iff power_int_increasing power_int_strict_increasing semiring_norm(76)
      linorder_not_le less_imp_le)

lemma powi_less_iff: "(2::rat) powi a < 2 powi b \<longleftrightarrow> a < b"
  using powi_le_iff [of b a] by linarith

lemma floor_log2_mono: "0 < x \<Longrightarrow> x \<le> y \<Longrightarrow> floor_log2 x \<le> floor_log2 y"
proof -
  assume "0 < x" "x \<le> y"
  then have "2 powi floor_log2 x < (2 powi (floor_log2 y + 1) :: rat)"
    using floor_log2_bounds [of x] floor_log2_bounds [of y] by linarith
  then show ?thesis by (simp add: powi_less_iff)
qed

lemma floor_log2_less: "0 < x \<Longrightarrow> x < 2 powi k \<Longrightarrow> floor_log2 x < k"
  using floor_log2_bounds [of x] powi_less_iff [of "floor_log2 x" k] by linarith

section \<open>Rounding is monotone and exact on short values\<close>

lemma round_even_of_int [simp]: "round_even (of_int n) = n"
  by (simp add: round_even_def)

lemma round_even_bounds: "floor x \<le> round_even x" "round_even x \<le> floor x + 1"
  by (auto simp: round_even_def Let_def)

lemma round_even_mono: "x \<le> y \<Longrightarrow> round_even x \<le> round_even y"
proof -
  assume le: "x \<le> y"
  then have "floor x \<le> floor y" by (rule floor_mono)
  then consider "floor x < floor y" | "floor x = floor y" by linarith
  then show ?thesis
  proof cases
    case 1
    then show ?thesis using round_even_bounds [of x] round_even_bounds [of y] by linarith
  next
    case 2
    then show ?thesis using le by (auto simp: round_even_def Let_def)
  qed
qed

lemma round_even_le: "x \<le> of_int n \<Longrightarrow> round_even x \<le> n"
  using round_even_mono [of x "of_int n"] by simp

lemma round_even_ge: "of_int n \<le> x \<Longrightarrow> n \<le> round_even x"
  using round_even_mono [of "of_int n" x] by simp

lemma powi_quotient: "u \<le> k \<Longrightarrow> (2::rat) powi k / 2 powi u = of_int (2 ^ nat (k - u))"
  by (simp add: power_int_nonneg_exp flip: power_int_diff)

lemma rnd_pos_le_power:
  assumes "0 < x" and "x \<le> 2 powi k" and "ulp_exp x \<le> k"
  shows "rnd_pos x \<le> 2 powi k"
proof -
  let ?u = "ulp_exp x"
  have "x / 2 powi ?u \<le> 2 powi k / 2 powi ?u" using assms(2) by (intro divide_right_mono) simp_all
  then have "round_even (x / 2 powi ?u) \<le> 2 ^ nat (k - ?u)"
    unfolding powi_quotient [OF assms(3)] by (rule round_even_le)
  then have "(of_int (round_even (x / 2 powi ?u)) :: rat) \<le> 2 powi k / 2 powi ?u"
    unfolding powi_quotient [OF assms(3)] by (rule of_int_le_iff [THEN iffD2])
  then show ?thesis by (simp add: rnd_pos_def pos_le_divide_eq)
qed

lemma rnd_pos_ge_power:
  assumes "0 < x" and "2 powi k \<le> x" and "ulp_exp x \<le> k"
  shows "2 powi k \<le> rnd_pos x"
proof -
  let ?u = "ulp_exp x"
  have "2 powi k / 2 powi ?u \<le> x / 2 powi ?u" using assms(2) by (intro divide_right_mono) simp_all
  then have "2 ^ nat (k - ?u) \<le> round_even (x / 2 powi ?u)"
    unfolding powi_quotient [OF assms(3)] by (rule round_even_ge)
  then have "2 powi k / 2 powi ?u \<le> (of_int (round_even (x / 2 powi ?u)) :: rat)"
    unfolding powi_quotient [OF assms(3)] by (rule of_int_le_iff [THEN iffD2])
  then show ?thesis by (simp add: rnd_pos_def pos_divide_le_eq)
qed

lemma rnd_pos_mono:
  assumes "0 < x" and "x \<le> y"
  shows "rnd_pos x \<le> rnd_pos y"
proof -
  have e: "floor_log2 x \<le> floor_log2 y" using assms by (rule floor_log2_mono)
  show ?thesis
  proof (cases "ulp_exp x = ulp_exp y")
    case True
    have "x / 2 powi ulp_exp y \<le> y / 2 powi ulp_exp y"
      using assms(2) by (intro divide_right_mono) simp_all
    then have "round_even (x / 2 powi ulp_exp y) \<le> round_even (y / 2 powi ulp_exp y)"
      by (rule round_even_mono)
    then show ?thesis unfolding rnd_pos_def True by (intro mult_right_mono) simp_all
  next
    case False
    with e have less: "floor_log2 x < floor_log2 y" and u: "ulp_exp y = floor_log2 y - 52"
        "ulp_exp x \<le> floor_log2 y"
      by (auto simp: ulp_exp_def max_def split: if_splits)
    have y: "0 < y" using assms by linarith
    have "x \<le> 2 powi floor_log2 y"
      using floor_log2_bounds(2) [OF assms(1)] less powi_le_iff [of "floor_log2 x + 1" "floor_log2 y"]
      by linarith
    then have "rnd_pos x \<le> 2 powi floor_log2 y" using assms(1) u(2) by (intro rnd_pos_le_power)
    also have "\<dots> \<le> rnd_pos y"
      using u(1) by (intro rnd_pos_ge_power y floor_log2_bounds(1)) simp
    finally show ?thesis .
  qed
qed

lemma rnd_pos_exact_below:
  assumes "0 < m" and "m < 2 ^ 53" and "- 1074 \<le> k"
  shows "rnd_pos (of_int m * 2 powi k) = of_int m * 2 powi k"
proof -
  let ?x = "of_int m * (2 :: rat) powi k"
  have "(of_int m :: rat) < of_int (2 ^ 53)" using assms(2) by (rule of_int_less_iff [THEN iffD2])
  then have "?x < 2 powi 53 * 2 powi k" by (intro mult_strict_right_mono) simp_all
  also have "\<dots> = 2 powi (53 + k)" by (rule power_int_add [symmetric]) simp
  finally have "floor_log2 ?x < 53 + k" using assms(1) by (intro floor_log2_less) simp_all
  then have u: "ulp_exp ?x \<le> k" using assms(3) by (simp add: ulp_exp_def)
  have "?x / 2 powi ulp_exp ?x = of_int (m * 2 ^ nat (k - ulp_exp ?x))"
    using powi_quotient [OF u] by (simp add: times_divide_eq_right [symmetric] del: times_divide_eq_right)
  then have "of_int (round_even (?x / 2 powi ulp_exp ?x)) = ?x / 2 powi ulp_exp ?x"
    by (simp only: round_even_of_int)
  then show ?thesis by (simp add: rnd_pos_def)
qed

lemma rnd_pos_exact:
  assumes "0 < m" and "m \<le> 2 ^ 53" and "- 1074 \<le> k"
  shows "rnd_pos (of_int m * 2 powi k) = of_int m * 2 powi k"
proof (cases "m = 2 ^ 53")
  case True
  have "of_int m * 2 powi k = of_int 1 * (2 :: rat) powi (53 + k)"
    by (simp add: True power_int_add)
  with rnd_pos_exact_below [of 1 "53 + k"] assms(3) show ?thesis by simp
qed (use assms rnd_pos_exact_below in simp)

lemma f64_round_short:
  assumes "0 \<le> m" and "m \<le> 2 ^ 53" and "- 1074 \<le> k" and "k \<le> 900"
  shows "f64_round (of_int m * 2 powi k) = Fin (of_int m * 2 powi k)"
proof (cases "m = 0")
  case True
  then show ?thesis by (simp add: f64_round_def)
next
  case False
  let ?x = "of_int m * (2 :: rat) powi k"
  have x: "rnd_pos ?x = ?x" "0 < ?x" using assms False by (auto intro: rnd_pos_exact)
  have "(of_int m :: rat) \<le> of_int (2 ^ 53)" using assms(2) by (rule of_int_le_iff [THEN iffD2])
  then have "?x \<le> 2 powi 53 * 2 powi k" by (intro mult_right_mono) simp_all
  also have "\<dots> = 2 powi (53 + k)" by (rule power_int_add [symmetric]) simp
  also have "\<dots> < (2 :: rat) powi 1024" using assms(4) by (subst powi_less_iff) simp
  finally have "\<not> 2 ^ 1024 \<le> ?x" by simp
  with x show ?thesis by (simp add: f64_round_def)
qed

lemma f64_round_uminus:
  assumes "f64_round x = Fin y" and "0 < x"
  shows "f64_round (- x) = Fin (- y)"
  using assms by (auto simp: f64_round_def Let_def split: if_splits)

lemma f64_of_int_exact: "\<bar>n\<bar> \<le> 2 ^ 53 \<Longrightarrow> f64_of_int n = Fin (of_int n)"
proof (cases "0 \<le> n")
  case True
  assume "\<bar>n\<bar> \<le> 2 ^ 53"
  with True f64_round_short [of n 0] show ?thesis by (simp add: f64_of_int_def)
next
  case False
  assume "\<bar>n\<bar> \<le> 2 ^ 53"
  with False have "f64_round (of_int (- n)) = Fin (of_int (- n))"
    using f64_round_short [of "- n" 0] by simp
  with False f64_round_uminus [of "of_int (- n)"] show ?thesis by (simp add: f64_of_int_def)
qed

lemma f64_round_0 [simp]: "f64_round 0 = Fin 0"
  by (simp add: f64_round_def)

lemma rat_trunc_of_int [simp]: "rat_trunc (of_int n) = n"
  by (simp add: rat_trunc_def)

section \<open>Bounds of a rounded value\<close>

text \<open>The values with at most 53 significant bits, which rounding keeps.\<close>

definition short :: "rat \<Rightarrow> bool" where
  "short x \<longleftrightarrow> (\<exists>m k. x = of_int m * 2 powi k \<and> 0 \<le> m \<and> m \<le> 2 ^ 53 \<and> - 1074 \<le> k \<and> k \<le> 900)"

lemma short_round: "short x \<Longrightarrow> f64_round x = Fin x"
  by (auto simp: short_def f64_round_short)

lemma short_of_int: "0 \<le> n \<Longrightarrow> n \<le> 2 ^ 53 \<Longrightarrow> short (of_int n)"
  unfolding short_def by (intro exI [of _ n] exI [of _ 0]) simp

lemma short_half: "0 \<le> n \<Longrightarrow> n \<le> 2 ^ 53 \<Longrightarrow> short (of_int n / 2)"
  unfolding short_def by (intro exI [of _ n] exI [of _ "- 1"]) (simp add: power_int_minus field_simps)

lemma short_power: "- 1074 \<le> k \<Longrightarrow> k \<le> 900 \<Longrightarrow> short (2 powi k)"
  unfolding short_def by (intro exI [of _ 1] exI [of _ k]) simp

lemma f64_round_pos:
  assumes "0 < x"
  shows "f64_round x = PInf \<and> 2 ^ 1024 \<le> rnd_pos x \<or> f64_round x = Fin (rnd_pos x) \<and> rnd_pos x < 2 ^ 1024"
  using assms by (auto simp: f64_round_def Let_def)

lemma short_rnd_pos: "short x \<Longrightarrow> 0 < x \<Longrightarrow> rnd_pos x = x \<and> x < 2 ^ 1024"
  using short_round [of x] f64_round_pos [of x] by auto

lemma f64_round_bounds:
  assumes "short l" and "short h" and "0 \<le> l" and "l \<le> x" and "x \<le> h"
  obtains z where "f64_round x = Fin z" and "l \<le> z" and "z \<le> h"
proof (cases "x = 0")
  case True
  with assms that [of 0] show thesis by simp
next
  case False
  with assms(3,4) have x: "0 < x" by linarith
  then have h: "rnd_pos x \<le> h" "h < 2 ^ 1024"
    using rnd_pos_mono [OF x assms(5)] short_rnd_pos [OF assms(2)] assms(5) by linarith+
  then have "f64_round x = Fin (rnd_pos x)" using f64_round_pos [OF x] by linarith
  moreover have "l \<le> rnd_pos x"
  proof (cases "l = 0")
    case True
    have "0 \<le> round_even (x / 2 powi ulp_exp x)"
      using x by (intro round_even_ge) simp
    then show ?thesis by (simp add: True rnd_pos_def)
  next
    case False
    with assms(3) have "0 < l" by linarith
    then show ?thesis using rnd_pos_mono [OF _ assms(4)] short_rnd_pos [OF assms(1)] by simp
  qed
  ultimately show thesis using h that by blast
qed

end
