(* ===== verification/Static_Config.thy ===== *)
theory Static_Config
  imports Go_Strings Go_Float
begin

text \<open>
  The configuration read from the environment at start-up: \<^verbatim>\<open>internal/config/config.go\<close> (\<open>Config\<close>,
  \<open>Load\<close>, \<open>validate\<close>, \<open>IsDebug\<close>), \<^verbatim>\<open>helpers.go\<close> (\<open>getEnv\<close> and its typed variants) and
  \<^verbatim>\<open>validators.go\<close>. \<open>os.Getenv\<close> is a function that is empty on unset variables. An error is its
  message. \<open>strconv.ParseFloat\<close> is the argument \<open>parse\<close> (\<open>None\<close> where it returns an error), and
  every theorem holds for each such function.
\<close>

section \<open>Reading the environment\<close>

type_synonym env = "string \<Rightarrow> string"

definition getEnv :: "env \<Rightarrow> string \<Rightarrow> string \<Rightarrow> string" where
  "getEnv env key d = (if env key \<noteq> '''' then env key else d)"

definition getEnvAsInt :: "env \<Rightarrow> string \<Rightarrow> int \<Rightarrow> int" where
  "getEnvAsInt env key d =
     (if env key = '''' then d else (case Atoi (env key) of None \<Rightarrow> d | Some v \<Rightarrow> v))"

definition getEnvAsBool :: "env \<Rightarrow> string \<Rightarrow> bool \<Rightarrow> bool" where
  "getEnvAsBool env key d =
     (if env key = '''' then d else (case ParseBool (env key) of None \<Rightarrow> d | Some v \<Rightarrow> v))"

definition getEnvAsFloat :: "(string \<Rightarrow> f64 option) \<Rightarrow> env \<Rightarrow> string \<Rightarrow> f64 \<Rightarrow> f64" where
  "getEnvAsFloat parse env key d =
     (if env key = '''' then d else (case parse (env key) of None \<Rightarrow> d | Some v \<Rightarrow> v))"

definition getEnvAsDuration :: "env \<Rightarrow> string \<Rightarrow> int \<Rightarrow> duration \<Rightarrow> duration" where
  "getEnvAsDuration env key d unit =
     (if env key = '''' then i64 (d * unit)
      else (case Atoi (env key) of None \<Rightarrow> i64 (d * unit) | Some v \<Rightarrow> i64 (v * unit)))"

lemma getEnvAsInt_unset [simp]: "env key = '''' \<Longrightarrow> getEnvAsInt env key d = d"
  by (simp add: getEnvAsInt_def)

lemma getEnvAsInt_set [simp]: "in_i64 n \<Longrightarrow> env key = show_int n \<Longrightarrow> getEnvAsInt env key d = n"
  using Atoi_show_int [of n] by (auto simp: getEnvAsInt_def Atoi_def)

section \<open>The configuration\<close>

record config =
  cfg_ServerPort :: int
  cfg_ServerReadTimeout :: duration
  cfg_ServerWriteTimeout :: duration
  cfg_ServerIdleTimeout :: duration
  cfg_ServerShutdownTimeout :: duration
  cfg_DBPath :: string
  cfg_DBMaxOpenConns :: int
  cfg_DBBusyTimeoutMS :: int
  cfg_EncryptionKey :: string
  cfg_AdminToken :: string
  cfg_WorkerCount :: int
  cfg_WorkerWarmupPeriod :: duration
  cfg_QueueMaxSize :: int
  cfg_QueueHighPriorityPreemptsLow :: bool
  cfg_KeyPoolStrategy :: string
  cfg_KeyPoolReloadInterval :: duration
  cfg_KeyPoolHealthCheckInterval :: duration
  cfg_CircuitBreakerFailureThreshold :: int
  cfg_CircuitBreakerOpenDuration :: duration
  cfg_CircuitBreakerProbeTimeout :: duration
  cfg_RetryMaxAttempts :: int
  cfg_RetryBaseDelayMS :: int
  cfg_RetryMaxDelayMS :: int
  cfg_RetryJitterMaxMS :: int
  cfg_HTTPClientTimeout :: duration
  cfg_HTTPClientMaxIdleConns :: int
  cfg_HTTPClientIdleConnTimeout :: duration
  cfg_LoadShedLevel1Threshold :: f64
  cfg_LoadShedLevel2Threshold :: f64
  cfg_ConfigReloadInterval :: duration
  cfg_LogLevel :: string
  cfg_LogFormat :: string
  cfg_LogRequests :: bool
  cfg_MetricsEnabled :: bool
  cfg_MetricsPath :: string

definition config_from_env :: "(string \<Rightarrow> f64 option) \<Rightarrow> env \<Rightarrow> config" where
  "config_from_env parse env =
     \<lparr>cfg_ServerPort = getEnvAsInt env ''SERVER_PORT'' 8080,
      cfg_ServerReadTimeout = getEnvAsDuration env ''SERVER_READ_TIMEOUT_SECONDS'' 30 Second,
      cfg_ServerWriteTimeout = getEnvAsDuration env ''SERVER_WRITE_TIMEOUT_SECONDS'' 30 Second,
      cfg_ServerIdleTimeout = getEnvAsDuration env ''SERVER_IDLE_TIMEOUT_SECONDS'' 120 Second,
      cfg_ServerShutdownTimeout = getEnvAsDuration env ''SERVER_SHUTDOWN_TIMEOUT_SECONDS'' 30 Second,
      cfg_DBPath = getEnv env ''DB_PATH'' ''./data/pool.db'',
      cfg_DBMaxOpenConns = getEnvAsInt env ''DB_MAX_OPEN_CONNS'' 1,
      cfg_DBBusyTimeoutMS = getEnvAsInt env ''DB_BUSY_TIMEOUT_MS'' 5000,
      cfg_EncryptionKey = getEnv env ''ENCRYPTION_KEY'' '''',
      cfg_AdminToken = getEnv env ''ADMIN_TOKEN'' '''',
      cfg_WorkerCount = getEnvAsInt env ''WORKER_COUNT'' 10,
      cfg_WorkerWarmupPeriod = getEnvAsDuration env ''WORKER_WARMUP_SECONDS'' 30 Second,
      cfg_QueueMaxSize = getEnvAsInt env ''QUEUE_MAX_SIZE'' 1000,
      cfg_QueueHighPriorityPreemptsLow = getEnvAsBool env ''QUEUE_HIGH_PRIORITY_PREEMPTS_LOW'' True,
      cfg_KeyPoolStrategy = getEnv env ''KEY_POOL_STRATEGY'' ''round_robin'',
      cfg_KeyPoolReloadInterval = getEnvAsDuration env ''KEY_POOL_RELOAD_INTERVAL_SECONDS'' 60 Second,
      cfg_KeyPoolHealthCheckInterval = getEnvAsDuration env ''KEY_POOL_HEALTH_CHECK_INTERVAL_SECONDS'' 10 Second,
      cfg_CircuitBreakerFailureThreshold = getEnvAsInt env ''CIRCUIT_BREAKER_FAILURE_THRESHOLD'' 3,
      cfg_CircuitBreakerOpenDuration = getEnvAsDuration env ''CIRCUIT_BREAKER_OPEN_DURATION_SECONDS'' 60 Second,
      cfg_CircuitBreakerProbeTimeout = getEnvAsDuration env ''CIRCUIT_BREAKER_PROBE_TIMEOUT_SECONDS'' 10 Second,
      cfg_RetryMaxAttempts = getEnvAsInt env ''RETRY_MAX_ATTEMPTS'' 4,
      cfg_RetryBaseDelayMS = getEnvAsInt env ''RETRY_BASE_DELAY_MS'' 1000,
      cfg_RetryMaxDelayMS = getEnvAsInt env ''RETRY_MAX_DELAY_MS'' 30000,
      cfg_RetryJitterMaxMS = getEnvAsInt env ''RETRY_JITTER_MAX_MS'' 500,
      cfg_HTTPClientTimeout = getEnvAsDuration env ''HTTP_CLIENT_TIMEOUT_SECONDS'' 30 Second,
      cfg_HTTPClientMaxIdleConns = getEnvAsInt env ''HTTP_CLIENT_MAX_IDLE_CONNS'' 100,
      cfg_HTTPClientIdleConnTimeout = getEnvAsDuration env ''HTTP_CLIENT_IDLE_CONN_TIMEOUT_SECONDS'' 90 Second,
      cfg_LoadShedLevel1Threshold = getEnvAsFloat parse env ''LOAD_SHED_LEVEL_1_THRESHOLD'' (Fin (1 / 2)),
      cfg_LoadShedLevel2Threshold = getEnvAsFloat parse env ''LOAD_SHED_LEVEL_2_THRESHOLD'' (Fin (1 / 4)),
      cfg_ConfigReloadInterval = getEnvAsDuration env ''CONFIG_RELOAD_INTERVAL_SECONDS'' 30 Second,
      cfg_LogLevel = getEnv env ''LOG_LEVEL'' ''info'',
      cfg_LogFormat = getEnv env ''LOG_FORMAT'' ''json'',
      cfg_LogRequests = getEnvAsBool env ''LOG_REQUESTS'' True,
      cfg_MetricsEnabled = getEnvAsBool env ''METRICS_ENABLED'' True,
      cfg_MetricsPath = getEnv env ''METRICS_PATH'' ''/metrics''\<rparr>"

section \<open>Validation\<close>

definition ValidStrategies :: "string list" where
  "ValidStrategies = [''round_robin'', ''weighted_round_robin'']"

definition ValidLogLevels :: "string list" where
  "ValidLogLevels = [''debug'', ''info'', ''warn'', ''error'']"

definition ValidLogFormats :: "string list" where
  "ValidLogFormats = [''json'', ''pretty'']"

text \<open>A validator returns the message of its error, or \<open>None\<close> for nil.\<close>

definition validateEncryptionKey :: "string \<Rightarrow> string option" where
  "validateEncryptionKey key =
     (if key = '''' then
        Some ''ENCRYPTION_KEY is required - generate with: openssl rand -hex 32''
      else if length key \<noteq> 64 then
        Some (''ENCRYPTION_KEY must be exactly 32 bytes (64 hex characters), got '' @
              show_int (int (length key)))
      else None)"

definition validateAdminToken :: "string \<Rightarrow> string option" where
  "validateAdminToken token =
     (if token = '''' then Some ''ADMIN_TOKEN is required - generate with: openssl rand -hex 32''
      else None)"

definition validateDBMaxOpenConns :: "int \<Rightarrow> string option" where
  "validateDBMaxOpenConns conns =
     (if conns \<noteq> 1 then Some (''DB_MAX_OPEN_CONNS must be 1 for SQLite, got '' @ show_int conns)
      else None)"

definition validateStrategy :: "string \<Rightarrow> string option" where
  "validateStrategy strategy =
     (if strategy \<notin> set ValidStrategies then
        Some (''KEY_POOL_STRATEGY must be one of: round_robin, weighted_round_robin, got: '' @ strategy)
      else None)"

definition validateLogLevel :: "string \<Rightarrow> string option" where
  "validateLogLevel level =
     (if level \<notin> set ValidLogLevels then
        Some (''LOG_LEVEL must be one of: debug, info, warn, error, got: '' @ level)
      else None)"

definition validateLogFormat :: "string \<Rightarrow> string option" where
  "validateLogFormat format =
     (if format \<notin> set ValidLogFormats then
        Some (''LOG_FORMAT must be one of: json, pretty, got: '' @ format)
      else None)"

definition validatePositiveInt :: "string \<Rightarrow> int \<Rightarrow> string option" where
  "validatePositiveInt name value =
     (if value < 1 then Some (name @ '' must be at least 1, got '' @ show_int value) else None)"

text \<open>\<open>validate\<close> returns the first error of its chain of checks.\<close>

fun first_error :: "string option list \<Rightarrow> string option" where
  "first_error [] = None"
| "first_error (Some e # es) = Some e"
| "first_error (None # es) = first_error es"

definition validate :: "config \<Rightarrow> string option" where
  "validate c = first_error
     [validateEncryptionKey (cfg_EncryptionKey c),
      validateAdminToken (cfg_AdminToken c),
      validateDBMaxOpenConns (cfg_DBMaxOpenConns c),
      validateStrategy (cfg_KeyPoolStrategy c),
      validateLogLevel (cfg_LogLevel c),
      validateLogFormat (cfg_LogFormat c),
      validatePositiveInt ''WORKER_COUNT'' (cfg_WorkerCount c),
      validatePositiveInt ''QUEUE_MAX_SIZE'' (cfg_QueueMaxSize c),
      validatePositiveInt ''RETRY_MAX_ATTEMPTS'' (cfg_RetryMaxAttempts c)]"

definition Load :: "(string \<Rightarrow> f64 option) \<Rightarrow> env \<Rightarrow> string + config" where
  "Load parse env =
     (let c = config_from_env parse env
      in case validate c of
           Some e \<Rightarrow> Inl (''config validation failed: '' @ e)
         | None \<Rightarrow> Inr c)"

definition IsDebug :: "config \<Rightarrow> bool" where
  "IsDebug c \<longleftrightarrow> to_lower (cfg_LogLevel c) = ''debug''"

section \<open>What a loaded configuration satisfies\<close>

definition config_ok :: "config \<Rightarrow> bool" where
  "config_ok c \<longleftrightarrow> length (cfg_EncryptionKey c) = 64 \<and> cfg_AdminToken c \<noteq> '''' \<and>
     cfg_DBMaxOpenConns c = 1 \<and> cfg_KeyPoolStrategy c \<in> set ValidStrategies \<and>
     cfg_LogLevel c \<in> set ValidLogLevels \<and> cfg_LogFormat c \<in> set ValidLogFormats \<and>
     1 \<le> cfg_WorkerCount c \<and> 1 \<le> cfg_QueueMaxSize c \<and> 1 \<le> cfg_RetryMaxAttempts c"

lemma first_error_None: "first_error es = None \<longleftrightarrow> (\<forall>e \<in> set es. e = None)"
  by (induction es rule: first_error.induct) auto

lemma validate_ok: "validate c = None \<longleftrightarrow> config_ok c"
proof -
  have "validateEncryptionKey k = None \<longleftrightarrow> length k = 64" for k
    by (auto simp: validateEncryptionKey_def)
  then show ?thesis
    unfolding validate_def first_error_None config_ok_def
    by (simp add: validateAdminToken_def validateDBMaxOpenConns_def validateStrategy_def
        validateLogLevel_def validateLogFormat_def validatePositiveInt_def not_less)
qed

section \<open>Properties\<close>

text \<open>What \<open>validate\<close> asks of the configuration, and what that means for the environment: a variable
  that is to hold a number and does not read as one is as good as unset.\<close>

lemma Load_iff: "Load parse env = Inr c \<longleftrightarrow> c = config_from_env parse env \<and> config_ok c"
  using validate_ok [of "config_from_env parse env"] by (auto simp: Load_def Let_def split: option.splits)

definition number_or_default :: "env \<Rightarrow> string \<Rightarrow> (int \<Rightarrow> bool) \<Rightarrow> bool" where
  "number_or_default env v p \<longleftrightarrow> (case Atoi (env v) of None \<Rightarrow> True | Some n \<Rightarrow> p n)"

definition one_of :: "env \<Rightarrow> string \<Rightarrow> string list \<Rightarrow> bool" where
  "one_of env v names \<longleftrightarrow> env v \<in> set ('''' # names)"

lemma getEnvAsInt_default: "p d \<Longrightarrow> p (getEnvAsInt env v d) \<longleftrightarrow> number_or_default env v p"
  by (auto simp: getEnvAsInt_def number_or_default_def Atoi_def atoi_unsigned_def split: option.splits)

lemma getEnv_default: "d \<in> set names \<Longrightarrow> getEnv env v d \<in> set names \<longleftrightarrow> one_of env v names"
  by (auto simp: getEnv_def one_of_def)


definition example_env :: env where
  "example_env =
     (\<lambda>_. '''')(''ENCRYPTION_KEY'' := replicate 64 CHR ''z'', ''ADMIN_TOKEN'' := ''secret'',
       ''CONFIG_RELOAD_INTERVAL_SECONDS'' := ''0'', ''RETRY_BASE_DELAY_MS'' := ''-5'')"

text \<open>Validation leaves gaps that later code runs into: an environment is accepted whose
  encryption key is no hexadecimal string (every \<open>Encrypt\<close> and \<open>Decrypt\<close> then fails), whose
  reload interval is zero (\<open>time.NewTicker\<close> panics on it) and whose base delay is negative.\<close>

theorem load_accepts_unusable_values:
  "\<exists>c. Load (\<lambda>_. None) example_env = Inr c \<and> cfg_EncryptionKey c = replicate 64 CHR ''z'' \<and>
     cfg_ConfigReloadInterval c = 0 \<and> cfg_RetryBaseDelayMS c = -5"
proof -
  have "validate (config_from_env (\<lambda>_. None) example_env) = None" by code_simp
  then have "Load (\<lambda>_. None) example_env = Inr (config_from_env (\<lambda>_. None) example_env)"
    by (simp add: Load_def)
  moreover have "cfg_EncryptionKey (config_from_env (\<lambda>_. None) example_env) = replicate 64 CHR ''z''"
      "cfg_ConfigReloadInterval (config_from_env (\<lambda>_. None) example_env) = 0"
      "cfg_RetryBaseDelayMS (config_from_env (\<lambda>_. None) example_env) = -5"
    by code_simp+
  ultimately show ?thesis by blast
qed

end
