(* ===== verification/Hot_Config.thy ===== *)
theory Hot_Config
  imports Static_Config
begin

text \<open>
  The configuration that can change at run time (\<^verbatim>\<open>internal/config/reload.go\<close>): the values, their
  initialisation from the static configuration, \<open>Get\<close>, \<open>Update\<close> with its three field updates, and
  the reload loop. \<open>Get\<close> and \<open>Update\<close> hold the structure's lock and are atomic. A field update gets
  a pointer to the field in the code; here it maps the field's value to its new value and the
  change lines. The verb \<open>%.2f\<close> and \<open>strconv.ParseFloat\<close> are the arguments \<open>fmt2\<close> and \<open>parse\<close>.
\<close>

section \<open>The values\<close>

record hot_config =
  hc_WorkerCount :: int
  hc_QueueMaxSize :: int
  hc_Strategy :: string
  hc_CircuitBreakerThreshold :: int
  hc_CircuitBreakerOpenDuration :: int
  hc_RetryMaxAttempts :: int
  hc_RetryBaseDelayMS :: int
  hc_RetryMaxDelayMS :: int
  hc_LoadShedLevel1Threshold :: f64
  hc_LoadShedLevel2Threshold :: f64

text \<open>\<open>Duration.Seconds\<close>: whole seconds plus the fraction, each operation rounded.\<close>

definition duration_Seconds :: "duration \<Rightarrow> f64" where
  "duration_Seconds d =
     (let sec = rat_trunc (of_int d / of_int Second); nsec = d - sec * Second
      in f64_add (f64_of_int sec) (f64_round (of_int nsec / 1000000000)))"

definition NewHotReloadConfig :: "config \<Rightarrow> hot_config" where
  "NewHotReloadConfig c =
     \<lparr>hc_WorkerCount = cfg_WorkerCount c,
      hc_QueueMaxSize = cfg_QueueMaxSize c,
      hc_Strategy = cfg_KeyPoolStrategy c,
      hc_CircuitBreakerThreshold = cfg_CircuitBreakerFailureThreshold c,
      hc_CircuitBreakerOpenDuration = f64_to_i64 (duration_Seconds (cfg_CircuitBreakerOpenDuration c)),
      hc_RetryMaxAttempts = cfg_RetryMaxAttempts c,
      hc_RetryBaseDelayMS = cfg_RetryBaseDelayMS c,
      hc_RetryMaxDelayMS = cfg_RetryMaxDelayMS c,
      hc_LoadShedLevel1Threshold = cfg_LoadShedLevel1Threshold c,
      hc_LoadShedLevel2Threshold = cfg_LoadShedLevel2Threshold c\<rparr>"

text \<open>\<open>Get\<close> returns a copy made field by field.\<close>

definition hc_Get :: "hot_config \<Rightarrow> hot_config" where
  "hc_Get h =
     \<lparr>hc_WorkerCount = hc_WorkerCount h,
      hc_QueueMaxSize = hc_QueueMaxSize h,
      hc_Strategy = hc_Strategy h,
      hc_CircuitBreakerThreshold = hc_CircuitBreakerThreshold h,
      hc_CircuitBreakerOpenDuration = hc_CircuitBreakerOpenDuration h,
      hc_RetryMaxAttempts = hc_RetryMaxAttempts h,
      hc_RetryBaseDelayMS = hc_RetryBaseDelayMS h,
      hc_RetryMaxDelayMS = hc_RetryMaxDelayMS h,
      hc_LoadShedLevel1Threshold = hc_LoadShedLevel1Threshold h,
      hc_LoadShedLevel2Threshold = hc_LoadShedLevel2Threshold h\<rparr>"

lemma hc_Get_id [simp]: "hc_Get h = h"
  by (simp add: hc_Get_def)

section \<open>Update\<close>

type_synonym db_config = "string \<rightharpoonup> string"

definition updateInt :: "db_config \<Rightarrow> string \<Rightarrow> int \<Rightarrow> int \<times> string list" where
  "updateInt db key field =
     (case db key of
        None \<Rightarrow> (field, [])
      | Some val \<Rightarrow>
          (case Atoi val of
             None \<Rightarrow> (field, [])
           | Some newVal \<Rightarrow>
               if newVal \<le> 0 \<or> newVal = field then (field, [])
               else (newVal, [key @ '': '' @ show_int field @ '' -> '' @ show_int newVal])))"

definition updateFloat ::
  "(string \<Rightarrow> f64 option) \<Rightarrow> (f64 \<Rightarrow> string) \<Rightarrow> db_config \<Rightarrow> string \<Rightarrow> f64 \<Rightarrow> f64 \<times> string list" where
  "updateFloat parse fmt2 db key field =
     (case db key of
        None \<Rightarrow> (field, [])
      | Some val \<Rightarrow>
          (case parse val of
             None \<Rightarrow> (field, [])
           | Some newVal \<Rightarrow>
               if f64_less newVal (Fin 0) \<or> f64_less (Fin 1) newVal \<or> f64_eq newVal field
               then (field, [])
               else (newVal, [key @ '': '' @ fmt2 field @ '' -> '' @ fmt2 newVal])))"

definition updateStrategy :: "db_config \<Rightarrow> string \<Rightarrow> string \<times> string list" where
  "updateStrategy db field =
     (case db ''strategy'' of
        None \<Rightarrow> (field, [])
      | Some val \<Rightarrow>
          if val \<notin> set ValidStrategies \<or> val = field then (field, [])
          else (val, [''strategy: '' @ field @ '' -> '' @ val]))"

definition Update ::
  "(string \<Rightarrow> f64 option) \<Rightarrow> (f64 \<Rightarrow> string) \<Rightarrow> db_config \<Rightarrow> hot_config \<Rightarrow> hot_config \<times> string list" where
  "Update parse fmt2 db h =
     (let (workers, c1) = updateInt db ''worker_count'' (hc_WorkerCount h);
          (queue, c2) = updateInt db ''queue_max_size'' (hc_QueueMaxSize h);
          (threshold, c3) = updateInt db ''circuit_breaker_threshold'' (hc_CircuitBreakerThreshold h);
          (open_s, c4) = updateInt db ''circuit_breaker_open_duration_seconds''
                           (hc_CircuitBreakerOpenDuration h);
          (attempts, c5) = updateInt db ''retry_max_attempts'' (hc_RetryMaxAttempts h);
          (base, c6) = updateInt db ''retry_base_delay_ms'' (hc_RetryBaseDelayMS h);
          (delay, c7) = updateInt db ''retry_max_delay_ms'' (hc_RetryMaxDelayMS h);
          (strat, c8) = updateStrategy db (hc_Strategy h);
          (shed1, c9) = updateFloat parse fmt2 db ''load_shed_level1'' (hc_LoadShedLevel1Threshold h);
          (shed2, c10) = updateFloat parse fmt2 db ''load_shed_level2'' (hc_LoadShedLevel2Threshold h)
      in (\<lparr>hc_WorkerCount = workers, hc_QueueMaxSize = queue, hc_Strategy = strat,
           hc_CircuitBreakerThreshold = threshold, hc_CircuitBreakerOpenDuration = open_s,
           hc_RetryMaxAttempts = attempts, hc_RetryBaseDelayMS = base, hc_RetryMaxDelayMS = delay,
           hc_LoadShedLevel1Threshold = shed1, hc_LoadShedLevel2Threshold = shed2\<rparr>,
          c1 @ c2 @ c3 @ c4 @ c5 @ c6 @ c7 @ c8 @ c9 @ c10))"

section \<open>The reload loop\<close>

text \<open>
  Each round of \<open>StartReloadLoop\<close> is decided by the channel its \<open>select\<close> receives from: a tick,
  with what \<open>GetSystemConfig\<close> then returns, or the cancellation, which ends the loop.
\<close>

datatype reload_event = Tick "string + db_config" | Cancelled

type_synonym log_line = "string \<times> string list"

fun reload_rounds ::
  "(string \<Rightarrow> f64 option) \<Rightarrow> (f64 \<Rightarrow> string) \<Rightarrow> reload_event list \<Rightarrow> hot_config \<Rightarrow>
   hot_config \<times> log_line list" where
  "reload_rounds parse fmt2 [] h = (h, [])"
| "reload_rounds parse fmt2 (Cancelled # es) h = (h, [(''config hot reload loop stopped'', [])])"
| "reload_rounds parse fmt2 (Tick (Inl err) # es) h =
     (let (h', logs) = reload_rounds parse fmt2 es h
      in (h', (''failed to read system_config from DB: '' @ err, []) # logs))"
| "reload_rounds parse fmt2 (Tick (Inr db) # es) h =
     (let (h1, changes) = Update parse fmt2 db h; (h', logs) = reload_rounds parse fmt2 es h1
      in (h', (if changes \<noteq> [] then [(''config hot reload applied changes'', changes)] else []) @ logs))"

definition StartReloadLoop ::
  "(string \<Rightarrow> f64 option) \<Rightarrow> (f64 \<Rightarrow> string) \<Rightarrow> reload_event list \<Rightarrow> hot_config \<Rightarrow>
   hot_config \<times> log_line list" where
  "StartReloadLoop parse fmt2 es h =
     (let (h', logs) = reload_rounds parse fmt2 es h
      in (h', (''config hot reload loop started'', []) # logs))"

section \<open>What an update does to each field\<close>

text \<open>The value a field has after an update: the stored one when it is acceptable.\<close>

definition accepted_int :: "db_config \<Rightarrow> string \<Rightarrow> int \<Rightarrow> int" where
  "accepted_int db key old =
     (case Option.bind (db key) Atoi of Some n \<Rightarrow> if 0 < n then n else old | None \<Rightarrow> old)"

definition accepted_float :: "(string \<Rightarrow> f64 option) \<Rightarrow> db_config \<Rightarrow> string \<Rightarrow> f64 \<Rightarrow> f64" where
  "accepted_float parse db key old =
     (case Option.bind (db key) parse of
        Some x \<Rightarrow> if f64_less x (Fin 0) \<or> f64_less (Fin 1) x then old else x
      | None \<Rightarrow> old)"

definition accepted_strategy :: "db_config \<Rightarrow> string \<Rightarrow> string" where
  "accepted_strategy db old =
     (case db ''strategy'' of Some s \<Rightarrow> if s \<in> set ValidStrategies then s else old | None \<Rightarrow> old)"

lemma updateInt_fst: "fst (updateInt db key old) = accepted_int db key old"
  by (auto simp: updateInt_def accepted_int_def split: option.splits)

lemma updateFloat_fst: "fst (updateFloat parse fmt2 db key old) = accepted_float parse db key old"
  by (auto simp: updateFloat_def accepted_float_def f64_eq_def split: option.splits)

lemma updateStrategy_fst: "fst (updateStrategy db old) = accepted_strategy db old"
  by (auto simp: updateStrategy_def accepted_strategy_def split: option.splits)

lemma updateInt_changes: "snd (updateInt db key old) = [] \<longleftrightarrow> accepted_int db key old = old"
  by (auto simp: updateInt_def accepted_int_def split: option.splits)

lemma updateStrategy_changes: "snd (updateStrategy db old) = [] \<longleftrightarrow> accepted_strategy db old = old"
  by (auto simp: updateStrategy_def accepted_strategy_def split: option.splits)

lemma updateFloat_changes:
  "Option.bind (db key) parse \<noteq> Some NaN \<Longrightarrow>
     snd (updateFloat parse fmt2 db key old) = [] \<longleftrightarrow> accepted_float parse db key old = old"
  by (auto simp: updateFloat_def accepted_float_def f64_eq_def split: option.splits)

lemmas field_updates = updateInt_fst updateFloat_fst updateStrategy_fst

lemma Update_fst:
  "fst (Update parse fmt2 db h) =
     \<lparr>hc_WorkerCount = accepted_int db ''worker_count'' (hc_WorkerCount h),
      hc_QueueMaxSize = accepted_int db ''queue_max_size'' (hc_QueueMaxSize h),
      hc_Strategy = accepted_strategy db (hc_Strategy h),
      hc_CircuitBreakerThreshold =
        accepted_int db ''circuit_breaker_threshold'' (hc_CircuitBreakerThreshold h),
      hc_CircuitBreakerOpenDuration =
        accepted_int db ''circuit_breaker_open_duration_seconds'' (hc_CircuitBreakerOpenDuration h),
      hc_RetryMaxAttempts = accepted_int db ''retry_max_attempts'' (hc_RetryMaxAttempts h),
      hc_RetryBaseDelayMS = accepted_int db ''retry_base_delay_ms'' (hc_RetryBaseDelayMS h),
      hc_RetryMaxDelayMS = accepted_int db ''retry_max_delay_ms'' (hc_RetryMaxDelayMS h),
      hc_LoadShedLevel1Threshold =
        accepted_float parse db ''load_shed_level1'' (hc_LoadShedLevel1Threshold h),
      hc_LoadShedLevel2Threshold =
        accepted_float parse db ''load_shed_level2'' (hc_LoadShedLevel2Threshold h)\<rparr>"
  by (simp add: Update_def Let_def split_beta field_updates)

text \<open>No threshold of a configuration update reads as NaN.\<close>

definition no_nan :: "(string \<Rightarrow> f64 option) \<Rightarrow> db_config \<Rightarrow> bool" where
  "no_nan parse db \<longleftrightarrow> Option.bind (db ''load_shed_level1'') parse \<noteq> Some NaN \<and>
     Option.bind (db ''load_shed_level2'') parse \<noteq> Some NaN"

lemma Update_changes:
  "no_nan parse db \<Longrightarrow> snd (Update parse fmt2 db h) = [] \<longleftrightarrow> fst (Update parse fmt2 db h) = h"
  unfolding Update_fst
  by (cases h)
    (auto simp: Update_def Let_def split_beta no_nan_def updateInt_changes updateFloat_changes
      updateStrategy_changes)

section \<open>The invariant\<close>

definition int_ok :: "int \<Rightarrow> bool" where
  "int_ok n \<longleftrightarrow> 1 \<le> n \<and> in_i64 n"

definition fraction_ok :: "f64 \<Rightarrow> bool" where
  "fraction_ok x \<longleftrightarrow> \<not> f64_less x (Fin 0) \<and> \<not> f64_less (Fin 1) x"

definition hc_ok :: "hot_config \<Rightarrow> bool" where
  "hc_ok h \<longleftrightarrow> int_ok (hc_WorkerCount h) \<and> int_ok (hc_QueueMaxSize h) \<and>
     hc_Strategy h \<in> set ValidStrategies \<and> int_ok (hc_CircuitBreakerThreshold h) \<and>
     int_ok (hc_CircuitBreakerOpenDuration h) \<and> int_ok (hc_RetryMaxAttempts h) \<and>
     int_ok (hc_RetryBaseDelayMS h) \<and> int_ok (hc_RetryMaxDelayMS h) \<and>
     fraction_ok (hc_LoadShedLevel1Threshold h) \<and> fraction_ok (hc_LoadShedLevel2Threshold h)"

lemma accepted_ok:
  "int_ok old \<Longrightarrow> int_ok (accepted_int db key old)"
  "fraction_ok x \<Longrightarrow> fraction_ok (accepted_float parse db key x)"
  "s \<in> set ValidStrategies \<Longrightarrow> accepted_strategy db s \<in> set ValidStrategies"
  by (auto simp: accepted_int_def accepted_float_def accepted_strategy_def int_ok_def fraction_ok_def
      dest: Atoi_in_range split: option.splits bind_splits)

lemma Update_ok: "hc_ok h \<Longrightarrow> hc_ok (fst (Update parse fmt2 db h))"
  by (simp add: Update_fst hc_ok_def accepted_ok)

lemma accepted_idem:
  "accepted_int db key (accepted_int db key old) = accepted_int db key old"
  "accepted_float parse db key (accepted_float parse db key x) = accepted_float parse db key x"
  "accepted_strategy db (accepted_strategy db s) = accepted_strategy db s"
  by (auto simp: accepted_int_def accepted_float_def accepted_strategy_def split: option.splits)

lemma reload_rounds_ok: "hc_ok h \<Longrightarrow> hc_ok (fst (reload_rounds parse fmt2 es h))"
proof (induction es arbitrary: h)
  case (Cons e es)
  show ?case
  proof (cases e)
    case (Tick r)
    with Cons Update_ok [OF Cons.prems] show ?thesis by (cases r) (simp_all add: split_beta Let_def)
  qed (use Cons.prems in simp)
qed simp

lemma whole_seconds:
  assumes "\<bar>n\<bar> \<le> 2 ^ 53"
  shows "f64_to_i64 (duration_Seconds (n * Second)) = n"
proof -
  have "(of_int (n * Second) / of_int Second :: rat) = of_int n" by (simp add: Second_def)
  then have "duration_Seconds (n * Second) = f64_add (Fin (of_int n)) (Fin 0)"
    using assms by (simp add: duration_Seconds_def f64_of_int_exact)
  also have "\<dots> = f64_of_int n" by (simp add: f64_of_int_def)
  finally have "duration_Seconds (n * Second) = Fin (of_int n)" using assms by (simp add: f64_of_int_exact)
  moreover have "in_i64 n" using assms by (auto simp: in_i64_def abs_le_iff)
  ultimately show ?thesis by simp
qed

section \<open>Properties\<close>

definition example_hot :: hot_config where
  "example_hot = \<lparr>hc_WorkerCount = 10, hc_QueueMaxSize = 1000, hc_Strategy = ''round_robin'',
     hc_CircuitBreakerThreshold = 3, hc_CircuitBreakerOpenDuration = 60, hc_RetryMaxAttempts = 4,
     hc_RetryBaseDelayMS = 1000, hc_RetryMaxDelayMS = 30000,
     hc_LoadShedLevel1Threshold = Fin (1 / 2), hc_LoadShedLevel2Threshold = Fin (1 / 4)\<rparr>"

text \<open>The reload loop never makes the configuration unusable: if the integers are positive, the
  strategy is a known one and the thresholds are within 0 and 1 (or NaN), they stay so, whatever
  the database holds, however often it is read, and whichever reads fail.\<close>

theorem reload_keeps_config_usable:
  assumes "hc_ok h"
  shows "hc_ok (fst (StartReloadLoop parse fmt2 es h))"
  using reload_rounds_ok [OF assms, of parse fmt2 es] by (simp add: StartReloadLoop_def split_beta Let_def)

theorem reload_keeps_config_usable_witness:
  "hc_ok (fst (StartReloadLoop (\<lambda>_. None) (\<lambda>_. '''') [Tick (Inl ''locked''),
     Tick (Inr [''worker_count'' \<mapsto> ''-3'', ''strategy'' \<mapsto> ''random''])] example_hot))"
proof -
  have "hc_ok example_hot" by code_simp
  then show ?thesis by (rule reload_keeps_config_usable)
qed

text \<open>\<open>Update\<close> gives every field the stored value exactly when that value is acceptable, and
  its old value otherwise, independently of the other fields; when no threshold reads as NaN it
  reports changes exactly if a field changed, and applying the same values again changes and
  reports nothing.\<close>

theorem update_applies_acceptable_values:
  assumes "no_nan parse db" and "Update parse fmt2 db h = (h', changes)"
  shows "h' = \<lparr>hc_WorkerCount = accepted_int db ''worker_count'' (hc_WorkerCount h),
      hc_QueueMaxSize = accepted_int db ''queue_max_size'' (hc_QueueMaxSize h),
      hc_Strategy = accepted_strategy db (hc_Strategy h),
      hc_CircuitBreakerThreshold =
        accepted_int db ''circuit_breaker_threshold'' (hc_CircuitBreakerThreshold h),
      hc_CircuitBreakerOpenDuration =
        accepted_int db ''circuit_breaker_open_duration_seconds'' (hc_CircuitBreakerOpenDuration h),
      hc_RetryMaxAttempts = accepted_int db ''retry_max_attempts'' (hc_RetryMaxAttempts h),
      hc_RetryBaseDelayMS = accepted_int db ''retry_base_delay_ms'' (hc_RetryBaseDelayMS h),
      hc_RetryMaxDelayMS = accepted_int db ''retry_max_delay_ms'' (hc_RetryMaxDelayMS h),
      hc_LoadShedLevel1Threshold =
        accepted_float parse db ''load_shed_level1'' (hc_LoadShedLevel1Threshold h),
      hc_LoadShedLevel2Threshold =
        accepted_float parse db ''load_shed_level2'' (hc_LoadShedLevel2Threshold h)\<rparr> \<and>
    (changes = [] \<longleftrightarrow> h' = h) \<and> Update parse fmt2 db h' = (h', [])"
proof -
  have h': "h' = fst (Update parse fmt2 db h)" and c: "changes = snd (Update parse fmt2 db h)"
    using assms(2) by simp_all
  have "fst (Update parse fmt2 db h') = h'" unfolding h' Update_fst by (simp add: accepted_idem)
  moreover from this have "snd (Update parse fmt2 db h') = []" using assms(1) by (simp add: Update_changes)
  ultimately have "Update parse fmt2 db h' = (h', [])" by (metis prod.collapse)
  moreover have "changes = [] \<longleftrightarrow> h' = h" unfolding h' c using assms(1) by (rule Update_changes)
  ultimately show ?thesis unfolding h' Update_fst by blast
qed

theorem update_applies_acceptable_values_witness:
  "let db = [''worker_count'' \<mapsto> ''20'', ''strategy'' \<mapsto> ''random'']
   in hc_WorkerCount (fst (Update (\<lambda>_. None) (\<lambda>_. '''') db example_hot)) = 20 \<and>
      snd (Update (\<lambda>_. None) (\<lambda>_. '''') db example_hot) = [''worker_count: 10 -> 20'']"
proof -
  define db :: db_config where "db = [''worker_count'' \<mapsto> ''20'', ''strategy'' \<mapsto> ''random'']"
  let ?u = "Update (\<lambda>_. None) (\<lambda>_. '''') db example_hot"
  have "no_nan (\<lambda>_. None) db" by (simp add: no_nan_def db_def)
  from update_applies_acceptable_values [OF this, of "\<lambda>_. ''''" example_hot "fst ?u" "snd ?u"]
  have "hc_WorkerCount (fst ?u) = accepted_int db ''worker_count'' 10"
    by (simp add: example_hot_def)
  moreover have "accepted_int db ''worker_count'' 10 = 20" unfolding db_def by code_simp
  moreover have "snd ?u = [''worker_count: 10 -> 20'']" unfolding db_def by code_simp
  ultimately show ?thesis by (simp add: db_def)
qed

text \<open>A positive value written to the database in decimal takes effect at the next update, with
  one line that reports the old and the new value; writing the current value is not reported.\<close>

theorem stored_value_takes_effect:
  assumes "0 < n" and "in_i64 n"
  shows "updateInt (db(key \<mapsto> show_int n)) key old =
    (if n = old then (old, []) else (n, [key @ '': '' @ show_int old @ '' -> '' @ show_int n]))"
  using assms by (simp add: updateInt_def Atoi_show_int)

theorem stored_value_takes_effect_witness:
  "updateInt [''retry_max_attempts'' \<mapsto> show_int 7] ''retry_max_attempts'' 4 =
     (7, [''retry_max_attempts: 4 -> 7''])"
proof -
  have "in_i64 7" by (simp add: in_i64_def)
  moreover have "''retry_max_attempts'' @ '': '' @ show_int 4 @ '' -> '' @ show_int 7 =
      ''retry_max_attempts: 4 -> 7''" by code_simp
  ultimately show ?thesis
    using stored_value_takes_effect [of 7 Map.empty "''retry_max_attempts''" 4] by simp
qed

text \<open>A threshold stored as NaN passes the range check and is reported as a change at every
  reload, because no comparison with NaN is true; \<open>ParseFloat\<close> accepts \<open>nan\<close>.\<close>

theorem nan_threshold_accepted_and_reported_forever:
  assumes "parse ''nan'' = Some NaN" and "db ''load_shed_level1'' = Some ''nan''"
  shows "hc_LoadShedLevel1Threshold (fst (Update parse fmt2 db h)) = NaN \<and>
    fst (Update parse fmt2 db (fst (Update parse fmt2 db h))) = fst (Update parse fmt2 db h) \<and>
    snd (Update parse fmt2 db (fst (Update parse fmt2 db h))) \<noteq> []"
proof -
  have "accepted_float parse db ''load_shed_level1'' x = NaN" for x
    using assms by (simp add: accepted_float_def)
  moreover have "snd (updateFloat parse fmt2 db ''load_shed_level1'' x) \<noteq> []" for x
    using assms by (simp add: updateFloat_def f64_eq_def)
  then have "snd (Update parse fmt2 db g) \<noteq> []" for g
    by (simp add: Update_def Let_def split_beta)
  ultimately show ?thesis by (simp add: Update_fst accepted_idem)
qed

theorem nan_threshold_accepted_and_reported_forever_witness:
  "hc_LoadShedLevel1Threshold (fst (Update (\<lambda>s. if s = ''nan'' then Some NaN else None) (\<lambda>_. ''NaN'')
     [''load_shed_level1'' \<mapsto> ''nan''] example_hot)) = NaN"
  using nan_threshold_accepted_and_reported_forever
    [of "\<lambda>s. if s = ''nan'' then Some NaN else None" "[''load_shed_level1'' \<mapsto> ''nan'']"
      "\<lambda>_. ''NaN''" example_hot]
  by simp

text \<open>The open duration of the breaker survives its way from the environment, where it is a
  number of seconds, through a duration in nanoseconds and a floating-point number of seconds, to
  the integer of the run-time configuration, as long as the nanoseconds fit in 64 bits.\<close>

theorem open_duration_roundtrip:
  assumes "\<bar>n\<bar> \<le> 9223372036" and "env ''CIRCUIT_BREAKER_OPEN_DURATION_SECONDS'' = show_int n"
  shows "hc_CircuitBreakerOpenDuration (NewHotReloadConfig (config_from_env parse env)) = n"
proof -
  have "in_i64 n" and fit: "i64 (n * Second) = n * Second"
    using assms(1) by (auto simp: in_i64_def Second_def intro!: i64_idI)
  then have atoi: "Atoi (show_int n) = Some n" by (intro Atoi_show_int)
  then have "show_int n \<noteq> ''''" by (auto simp: Atoi_def)
  with atoi assms(2) have "cfg_CircuitBreakerOpenDuration (config_from_env parse env) = n * Second"
    by (simp add: config_from_env_def getEnvAsDuration_def fit)
  with assms(1) show ?thesis by (simp add: NewHotReloadConfig_def whole_seconds)
qed

theorem open_duration_roundtrip_witness:
  "hc_CircuitBreakerOpenDuration (NewHotReloadConfig (config_from_env (\<lambda>_. None)
     ((\<lambda>_. '''')(''CIRCUIT_BREAKER_OPEN_DURATION_SECONDS'' := show_int 90)))) = 90"
  by (rule open_duration_roundtrip) simp_all

end
