(* ===== verification/Database.thy ===== *)
theory Database
  imports Go_Strings Go_Float "HOL-Library.Multiset"
begin

text \<open>
  The SQLite adapter (\<^verbatim>\<open>internal/db/adapter.go\<close>, \<^verbatim>\<open>sqlite_keys.go\<close>, \<^verbatim>\<open>sqlite_requests.go\<close>,
  \<^verbatim>\<open>sqlite_config.go\<close>, with the helpers of \<^verbatim>\<open>sqlite.go\<close>) over the schema of \<^verbatim>\<open>migrations/\<close>. A table
  is the list of its rows in insertion order and each operation does what its SQL statement says:
  the PRIMARY KEY and UNIQUE constraints refuse a row, NULL is \<open>None\<close>, a column that an INSERT
  leaves out gets its default, and \<open>datetime('now')\<close> is the clock in whole seconds. Rows that an
  ORDER BY does not distinguish come in insertion order.

  A statement can also fail in the driver (a busy database, an expired context): the argument
  \<open>io\<close> is the driver's message then, and nothing is written. An operation that returns only an
  error returns it as an option, \<open>None\<close> for nil.
\<close>

section \<open>Rows and tables\<close>

record api_key =
  ak_ID :: string
  ak_Name :: string
  ak_KeyEncrypted :: string
  ak_Weight :: int
  ak_IsHealthy :: bool
  ak_FailureCount :: int
  ak_CircuitState :: string
  ak_LastUsedAt :: "time option"
  ak_RateLimitPerMinute :: int
  ak_RateLimitPerDay :: int
  ak_ConcurrentLimit :: int
  ak_CurrentConcurrent :: int
  ak_CreatedAt :: time
  ak_UpdatedAt :: time

record request =
  rq_ID :: string
  rq_IdempotencyKey :: "string option"
  rq_Source :: string
  rq_Priority :: int
  rq_Method :: string
  rq_DestinationURL :: string
  rq_Headers :: "string option"
  rq_Payload :: "string option"
  rq_Status :: string
  rq_AssignedKeyID :: "string option"
  rq_Attempts :: int
  rq_LastError :: "string option"
  rq_ResponseStatus :: "int option"
  rq_ResponseBody :: "string option"
  rq_CreatedAt :: time
  rq_UpdatedAt :: time
  rq_CompletedAt :: "time option"

record key_event =
  ke_ID :: string
  ke_KeyID :: string
  ke_EventType :: string
  ke_Message :: "string option"
  ke_CreatedAt :: time

text \<open>A row of \<open>api_keys\<close> stores its flag as an integer.\<close>

record key_row =
  kr_key :: api_key
  kr_is_healthy :: int

record database =
  db_keys :: "key_row list"
  db_requests :: "request list"
  db_events :: "key_event list"
  db_config :: "(string \<times> string) list"

definition RequestStatusPending :: string where "RequestStatusPending = ''pending''"
definition RequestStatusProcessing :: string where "RequestStatusProcessing = ''processing''"
definition RequestStatusSuccess :: string where "RequestStatusSuccess = ''success''"
definition RequestStatusFailed :: string where "RequestStatusFailed = ''failed''"
definition RequestStatusQueued :: string where "RequestStatusQueued = ''queued''"

lemmas request_status_defs = RequestStatusPending_def RequestStatusProcessing_def
  RequestStatusSuccess_def RequestStatusFailed_def RequestStatusQueued_def

definition db_CircuitStateClosed :: string where "db_CircuitStateClosed = ''closed''"

definition boolToInt :: "bool \<Rightarrow> int" where
  "boolToInt b = (if b then 1 else 0)"

definition intToBool :: "int \<Rightarrow> bool" where
  "intToBool i \<longleftrightarrow> i \<noteq> 0"

lemma intToBool_boolToInt [simp]: "intToBool (boolToInt b) = b"
  by (simp add: boolToInt_def intToBool_def)

text \<open>\<open>datetime('now')\<close>.\<close>

definition datetime :: "time \<Rightarrow> time" where
  "datetime now = now div Second * Second"

text \<open>Statements: an UPDATE of the rows that satisfy a condition, and the number of them.\<close>

definition update_where :: "('r \<Rightarrow> bool) \<Rightarrow> ('r \<Rightarrow> 'r) \<Rightarrow> 'r list \<Rightarrow> 'r list" where
  "update_where p f rs = map (\<lambda>r. if p r then f r else r) rs"

definition rows_affected :: "('r \<Rightarrow> bool) \<Rightarrow> 'r list \<Rightarrow> nat" where
  "rows_affected p rs = length (filter p rs)"

text \<open>LIMIT; a negative limit is none.\<close>

definition limit_rows :: "int \<Rightarrow> 'r list \<Rightarrow> 'r list" where
  "limit_rows limit rs = (if limit < 0 then rs else take (nat limit) rs)"

section \<open>API keys\<close>

definition kr_id :: "key_row \<Rightarrow> string" where
  "kr_id r = ak_ID (kr_key r)"

definition scanAPIKey :: "key_row \<Rightarrow> api_key" where
  "scanAPIKey r = (kr_key r)\<lparr>ak_IsHealthy := intToBool (kr_is_healthy r)\<rparr>"

definition scanAPIKeyFromRows :: "key_row \<Rightarrow> api_key" where
  "scanAPIKeyFromRows r = (kr_key r)\<lparr>ak_IsHealthy := intToBool (kr_is_healthy r)\<rparr>"

lemma scanAPIKeyFromRows_eq [simp]: "scanAPIKeyFromRows = scanAPIKey"
  by (simp add: fun_eq_iff scanAPIKeyFromRows_def scanAPIKey_def)

definition CreateAPIKey :: "string option \<Rightarrow> time \<Rightarrow> api_key \<Rightarrow> database \<Rightarrow> database \<times> string option" where
  "CreateAPIKey io now key d =
     (case io of
        Some e \<Rightarrow> (d, Some (''failed to create API key: '' @ e))
      | None \<Rightarrow>
          if ak_ID key \<in> set (map kr_id (db_keys d))
          then (d, Some (''failed to create API key: '' @ ''UNIQUE constraint failed: api_keys.id''))
          else (d\<lparr>db_keys := db_keys d @
                   [\<lparr>kr_key = key\<lparr>ak_LastUsedAt := None, ak_CreatedAt := datetime now,
                       ak_UpdatedAt := datetime now\<rparr>,
                     kr_is_healthy = boolToInt (ak_IsHealthy key)\<rparr>]\<rparr>, None))"

definition GetAPIKey :: "string option \<Rightarrow> string \<Rightarrow> database \<Rightarrow> string + api_key" where
  "GetAPIKey io i d =
     (case io of
        Some e \<Rightarrow> Inl (''failed to get API key: '' @ e)
      | None \<Rightarrow>
          (case find (\<lambda>r. kr_id r = i) (db_keys d) of
             None \<Rightarrow> Inl (''API key not found: '' @ i)
           | Some r \<Rightarrow> Inr (scanAPIKey r)))"

definition GetAllAPIKeys :: "string option \<Rightarrow> database \<Rightarrow> string + api_key list" where
  "GetAllAPIKeys io d =
     (case io of
        Some e \<Rightarrow> Inl (''failed to query API keys: '' @ e)
      | None \<Rightarrow> Inr (map scanAPIKeyFromRows (sort_key (\<lambda>r. ak_CreatedAt (kr_key r)) (db_keys d))))"

text \<open>\<open>execExpectingOneRow\<close> for the statements on \<open>api_keys\<close>, given the new table.\<close>

definition execExpectingOneRow ::
  "string option \<Rightarrow> string \<Rightarrow> key_row list \<Rightarrow> database \<Rightarrow> database \<times> string option" where
  "execExpectingOneRow io i rows d =
     (case io of
        Some e \<Rightarrow> (d, Some (''failed to modify API key: '' @ e))
      | None \<Rightarrow>
          (d\<lparr>db_keys := rows\<rparr>,
           if rows_affected (\<lambda>r. kr_id r = i) (db_keys d) = 0
           then Some (''API key not found: '' @ i) else None))"

definition set_key :: "(api_key \<Rightarrow> api_key) \<Rightarrow> key_row \<Rightarrow> key_row" where
  "set_key f r = r\<lparr>kr_key := f (kr_key r)\<rparr>"

definition UpdateAPIKeyWeight ::
  "string option \<Rightarrow> time \<Rightarrow> string \<Rightarrow> int \<Rightarrow> database \<Rightarrow> database \<times> string option" where
  "UpdateAPIKeyWeight io now i weight d =
     execExpectingOneRow io i
       (update_where (\<lambda>r. kr_id r = i)
         (set_key (\<lambda>k. k\<lparr>ak_Weight := weight, ak_UpdatedAt := datetime now\<rparr>)) (db_keys d)) d"

definition UpdateAPIKeyHealth ::
  "string option \<Rightarrow> time \<Rightarrow> string \<Rightarrow> bool \<Rightarrow> int \<Rightarrow> string \<Rightarrow> database \<Rightarrow> database \<times> string option" where
  "UpdateAPIKeyHealth io now i isHealthy failureCount circuitState d =
     execExpectingOneRow io i
       (update_where (\<lambda>r. kr_id r = i)
         (\<lambda>r. (set_key (\<lambda>k. k\<lparr>ak_FailureCount := failureCount, ak_CircuitState := circuitState,
                  ak_UpdatedAt := datetime now\<rparr>) r)\<lparr>kr_is_healthy := boolToInt isHealthy\<rparr>)
         (db_keys d)) d"

definition UpdateAPIKeyLastUsed ::
  "string option \<Rightarrow> time \<Rightarrow> string \<Rightarrow> database \<Rightarrow> database \<times> string option" where
  "UpdateAPIKeyLastUsed io now i d =
     (case io of
        Some e \<Rightarrow> (d, Some (''failed to update API key last used: '' @ e))
      | None \<Rightarrow>
          (d\<lparr>db_keys := update_where (\<lambda>r. kr_id r = i)
               (set_key (\<lambda>k. k\<lparr>ak_LastUsedAt := Some (datetime now), ak_UpdatedAt := datetime now\<rparr>))
               (db_keys d)\<rparr>, None))"

text \<open>
  SQLite adds integers in 64 bits; a sum that does not fit is computed in double precision. (Such a
  number cannot be scanned into an \<^verbatim>\<open>int\<close> again, which is left out here: nothing in the program
  calls the operation that adds.)
\<close>

definition sql_add :: "int \<Rightarrow> int \<Rightarrow> int" where
  "sql_add a b =
     (if in_i64 (a + b) then a + b
      else (case f64_add (f64_of_int a) (f64_of_int b) of Fin x \<Rightarrow> rat_trunc x | _ \<Rightarrow> 0))"

definition UpdateAPIKeyConcurrent ::
  "string option \<Rightarrow> time \<Rightarrow> string \<Rightarrow> int \<Rightarrow> database \<Rightarrow> database \<times> string option" where
  "UpdateAPIKeyConcurrent io now i delta d =
     (case io of
        Some e \<Rightarrow> (d, Some (''failed to update API key concurrent count: '' @ e))
      | None \<Rightarrow>
          (d\<lparr>db_keys := update_where (\<lambda>r. kr_id r = i)
               (set_key (\<lambda>k. k\<lparr>ak_CurrentConcurrent := sql_add (ak_CurrentConcurrent k) delta,
                  ak_UpdatedAt := datetime now\<rparr>))
               (db_keys d)\<rparr>, None))"

definition DeleteAPIKey :: "string option \<Rightarrow> string \<Rightarrow> database \<Rightarrow> database \<times> string option" where
  "DeleteAPIKey io i d =
     execExpectingOneRow io i (filter (\<lambda>r. kr_id r \<noteq> i) (db_keys d)) d"

definition ResetAPIKeyCircuit ::
  "string option \<Rightarrow> time \<Rightarrow> string \<Rightarrow> database \<Rightarrow> database \<times> string option" where
  "ResetAPIKeyCircuit io now i d =
     execExpectingOneRow io i
       (update_where (\<lambda>r. kr_id r = i)
         (\<lambda>r. (set_key (\<lambda>k. k\<lparr>ak_FailureCount := 0, ak_CircuitState := db_CircuitStateClosed,
                  ak_UpdatedAt := datetime now\<rparr>) r)\<lparr>kr_is_healthy := 1\<rparr>)
         (db_keys d)) d"

section \<open>Requests\<close>

definition CreateRequest :: "string option \<Rightarrow> time \<Rightarrow> request \<Rightarrow> database \<Rightarrow> database \<times> string option" where
  "CreateRequest io now req d =
     (case io of
        Some e \<Rightarrow> (d, Some (''failed to create request: '' @ e))
      | None \<Rightarrow>
          if rq_ID req \<in> set (map rq_ID (db_requests d)) then
            (d, Some (''failed to create request: '' @ ''UNIQUE constraint failed: requests.id''))
          else if rq_IdempotencyKey req \<noteq> None \<and>
                  rq_IdempotencyKey req \<in> set (map rq_IdempotencyKey (db_requests d)) then
            (d, Some (''failed to create request: '' @
                      ''UNIQUE constraint failed: requests.idempotency_key''))
          else
            (d\<lparr>db_requests := db_requests d @
                 [req\<lparr>rq_AssignedKeyID := None, rq_LastError := None, rq_ResponseStatus := None,
                    rq_ResponseBody := None, rq_CreatedAt := datetime now,
                    rq_UpdatedAt := datetime now, rq_CompletedAt := None\<rparr>]\<rparr>, None))"

text \<open>
  Reading a row. A column that may be NULL is scanned into a \<open>sql.Null\<close> value, which tells NULL from
  the zero value, and becomes a pointer that is nil on NULL.
\<close>

record 'a sql_null =
  sn_Value :: 'a
  sn_Valid :: bool

definition scan_null :: "'a \<Rightarrow> 'a option \<Rightarrow> 'a sql_null" where
  "scan_null zero column =
     (case column of None \<Rightarrow> \<lparr>sn_Value = zero, sn_Valid = False\<rparr> | Some v \<Rightarrow> \<lparr>sn_Value = v, sn_Valid = True\<rparr>)"

definition applyNullableFields ::
  "request \<Rightarrow> string sql_null \<Rightarrow> string sql_null \<Rightarrow> string sql_null \<Rightarrow> string sql_null \<Rightarrow>
   string sql_null \<Rightarrow> string sql_null \<Rightarrow> int sql_null \<Rightarrow> time sql_null \<Rightarrow> request" where
  "applyNullableFields req idempotencyKey assignedKeyID lastError responseBody headers payload
     responseStatus completedAt =
     req\<lparr>rq_IdempotencyKey := (if sn_Valid idempotencyKey then Some (sn_Value idempotencyKey) else rq_IdempotencyKey req),
         rq_AssignedKeyID := (if sn_Valid assignedKeyID then Some (sn_Value assignedKeyID) else rq_AssignedKeyID req),
         rq_LastError := (if sn_Valid lastError then Some (sn_Value lastError) else rq_LastError req),
         rq_ResponseBody := (if sn_Valid responseBody then Some (sn_Value responseBody) else rq_ResponseBody req),
         rq_Headers := (if sn_Valid headers then Some (sn_Value headers) else rq_Headers req),
         rq_Payload := (if sn_Valid payload then Some (sn_Value payload) else rq_Payload req),
         rq_ResponseStatus := (if sn_Valid responseStatus then Some (sn_Value responseStatus) else rq_ResponseStatus req),
         rq_CompletedAt := (if sn_Valid completedAt then Some (sn_Value completedAt) else rq_CompletedAt req)\<rparr>"

text \<open>A stored row is a \<open>request\<close> with \<open>None\<close> for NULL; the new struct has nil pointers.\<close>

definition scanRequest :: "request \<Rightarrow> request" where
  "scanRequest row =
     applyNullableFields
       \<lparr>rq_ID = rq_ID row, rq_IdempotencyKey = None, rq_Source = rq_Source row, rq_Priority = rq_Priority row,
        rq_Method = rq_Method row, rq_DestinationURL = rq_DestinationURL row, rq_Headers = None,
        rq_Payload = None, rq_Status = rq_Status row, rq_AssignedKeyID = None,
        rq_Attempts = rq_Attempts row, rq_LastError = None, rq_ResponseStatus = None,
        rq_ResponseBody = None, rq_CreatedAt = rq_CreatedAt row, rq_UpdatedAt = rq_UpdatedAt row,
        rq_CompletedAt = None\<rparr>
       (scan_null '''' (rq_IdempotencyKey row)) (scan_null '''' (rq_AssignedKeyID row))
       (scan_null '''' (rq_LastError row)) (scan_null '''' (rq_ResponseBody row))
       (scan_null '''' (rq_Headers row)) (scan_null '''' (rq_Payload row))
       (scan_null 0 (rq_ResponseStatus row)) (scan_null zero_time (rq_CompletedAt row))"

definition scanRequestFromRows :: "request \<Rightarrow> request" where
  "scanRequestFromRows row = scanRequest row"

text \<open>Nothing is lost on the way; in particular an empty string does not become NULL.\<close>

lemma scan_null_pointer:
  "d = None \<Longrightarrow> (if sn_Valid (scan_null z c) then Some (sn_Value (scan_null z c)) else d) = c"
  by (simp add: scan_null_def split: option.split)

lemma scanRequest_eq [simp]: "scanRequest = (\<lambda>row. row)"
proof (rule ext)
  fix row :: request
  show "scanRequest row = row"
    unfolding scanRequest_def applyNullableFields_def by (simp add: scan_null_pointer split del: if_split)
qed

lemma scanRequestFromRows_eq [simp]: "scanRequestFromRows = (\<lambda>row. row)"
  by (simp add: fun_eq_iff scanRequestFromRows_def)

definition GetRequest :: "string option \<Rightarrow> string \<Rightarrow> database \<Rightarrow> string + request" where
  "GetRequest io i d =
     (case io of
        Some e \<Rightarrow> Inl (''failed to get request: '' @ e)
      | None \<Rightarrow>
          (case find (\<lambda>r. rq_ID r = i) (db_requests d) of
             None \<Rightarrow> Inl (''request not found: '' @ i)
           | Some r \<Rightarrow> Inr (scanRequest r)))"

definition GetRequestByIdempotencyKey ::
  "string option \<Rightarrow> string \<Rightarrow> database \<Rightarrow> string + request option" where
  "GetRequestByIdempotencyKey io idem d =
     (case io of
        Some e \<Rightarrow> Inl (''failed to get request by idempotency key: '' @ e)
      | None \<Rightarrow> Inr (map_option scanRequest (find (\<lambda>r. rq_IdempotencyKey r = Some idem) (db_requests d))))"

definition UpdateRequestStatus ::
  "string option \<Rightarrow> time \<Rightarrow> string \<Rightarrow> string \<Rightarrow> string \<Rightarrow> int \<Rightarrow> database \<Rightarrow> database \<times> string option" where
  "UpdateRequestStatus io now i status assignedKeyID attempts d =
     (case io of
        Some e \<Rightarrow> (d, Some (''failed to update request status: '' @ e))
      | None \<Rightarrow>
          (d\<lparr>db_requests := update_where (\<lambda>r. rq_ID r = i)
               (\<lambda>r. r\<lparr>rq_Status := status, rq_AssignedKeyID := Some assignedKeyID,
                      rq_Attempts := attempts, rq_UpdatedAt := datetime now\<rparr>)
               (db_requests d)\<rparr>, None))"

definition UpdateRequestResult ::
  "string option \<Rightarrow> time \<Rightarrow> string \<Rightarrow> string \<Rightarrow> int \<Rightarrow> string \<Rightarrow> string \<Rightarrow> time \<Rightarrow> database \<Rightarrow>
   database \<times> string option" where
  "UpdateRequestResult io now i status responseStatus responseBody lastError completedAt d =
     (case io of
        Some e \<Rightarrow> (d, Some (''failed to update request result: '' @ e))
      | None \<Rightarrow>
          (d\<lparr>db_requests := update_where (\<lambda>r. rq_ID r = i)
               (\<lambda>r. r\<lparr>rq_Status := status, rq_ResponseStatus := Some responseStatus,
                      rq_ResponseBody := Some responseBody, rq_LastError := Some lastError,
                      rq_CompletedAt := Some completedAt, rq_UpdatedAt := datetime now\<rparr>)
               (db_requests d)\<rparr>, None))"

definition GetPendingRequests :: "string option \<Rightarrow> int \<Rightarrow> database \<Rightarrow> string + request list" where
  "GetPendingRequests io limit d =
     (case io of
        Some e \<Rightarrow> Inl (''failed to query pending requests: '' @ e)
      | None \<Rightarrow>
          Inr (map scanRequestFromRows (limit_rows limit
            (sort_key rq_Priority (sort_key rq_CreatedAt
              (filter (\<lambda>r. rq_Status r \<in> set [RequestStatusPending, RequestStatusQueued])
                (db_requests d)))))))"

section \<open>Key events and the system configuration\<close>

definition CreateKeyEvent :: "string option \<Rightarrow> time \<Rightarrow> key_event \<Rightarrow> database \<Rightarrow> database \<times> string option" where
  "CreateKeyEvent io now ev d =
     (case io of
        Some e \<Rightarrow> (d, Some (''failed to create key event: '' @ e))
      | None \<Rightarrow>
          if ke_ID ev \<in> set (map ke_ID (db_events d))
          then (d, Some (''failed to create key event: '' @ ''UNIQUE constraint failed: key_events.id''))
          else (d\<lparr>db_events := db_events d @ [ev\<lparr>ke_CreatedAt := datetime now\<rparr>]\<rparr>, None))"

definition GetKeyEvents :: "string option \<Rightarrow> string \<Rightarrow> int \<Rightarrow> database \<Rightarrow> string + key_event list" where
  "GetKeyEvents io keyID limit d =
     (case io of
        Some e \<Rightarrow> Inl (''failed to query key events: '' @ e)
      | None \<Rightarrow>
          Inr (limit_rows limit
            (sort_key (\<lambda>e. - ke_CreatedAt e) (filter (\<lambda>e. ke_KeyID e = keyID) (db_events d)))))"

definition GetSystemConfig :: "string option \<Rightarrow> database \<Rightarrow> string + (string \<rightharpoonup> string)" where
  "GetSystemConfig io d =
     (case io of
        Some e \<Rightarrow> Inl (''failed to query system config: '' @ e)
      | None \<Rightarrow> Inr (foldl (\<lambda>m (k, v). m(k \<mapsto> v)) Map.empty (db_config d)))"

definition UpdateSystemConfig ::
  "string option \<Rightarrow> string \<Rightarrow> string \<Rightarrow> database \<Rightarrow> database \<times> string option" where
  "UpdateSystemConfig io key val d =
     (case io of
        Some e \<Rightarrow> (d, Some (''failed to update system config: '' @ e))
      | None \<Rightarrow>
          (d\<lparr>db_config :=
               (if key \<in> set (map fst (db_config d))
                then update_where (\<lambda>r. fst r = key) (\<lambda>r. (key, val)) (db_config d)
                else db_config d @ [(key, val)])\<rparr>, None))"

section \<open>Writes as data\<close>

text \<open>Every writing operation of the adapter, with its arguments, and a sequence of calls.\<close>

datatype db_write =
    CreateAPIKeyCall api_key
  | UpdateAPIKeyWeightCall string int
  | UpdateAPIKeyHealthCall string bool int string
  | UpdateAPIKeyLastUsedCall string
  | UpdateAPIKeyConcurrentCall string int
  | DeleteAPIKeyCall string
  | ResetAPIKeyCircuitCall string
  | CreateRequestCall request
  | UpdateRequestStatusCall string string string int
  | UpdateRequestResultCall string string int string string time
  | CreateKeyEventCall key_event
  | UpdateSystemConfigCall string string

fun exec_write :: "string option \<Rightarrow> time \<Rightarrow> db_write \<Rightarrow> database \<Rightarrow> database \<times> string option" where
  "exec_write io now (CreateAPIKeyCall k) d = CreateAPIKey io now k d"
| "exec_write io now (UpdateAPIKeyWeightCall i w) d = UpdateAPIKeyWeight io now i w d"
| "exec_write io now (UpdateAPIKeyHealthCall i h n s) d = UpdateAPIKeyHealth io now i h n s d"
| "exec_write io now (UpdateAPIKeyLastUsedCall i) d = UpdateAPIKeyLastUsed io now i d"
| "exec_write io now (UpdateAPIKeyConcurrentCall i n) d = UpdateAPIKeyConcurrent io now i n d"
| "exec_write io now (DeleteAPIKeyCall i) d = DeleteAPIKey io i d"
| "exec_write io now (ResetAPIKeyCircuitCall i) d = ResetAPIKeyCircuit io now i d"
| "exec_write io now (CreateRequestCall r) d = CreateRequest io now r d"
| "exec_write io now (UpdateRequestStatusCall i s k n) d = UpdateRequestStatus io now i s k n d"
| "exec_write io now (UpdateRequestResultCall i s c b e t) d = UpdateRequestResult io now i s c b e t d"
| "exec_write io now (CreateKeyEventCall e) d = CreateKeyEvent io now e d"
| "exec_write io now (UpdateSystemConfigCall k v) d = UpdateSystemConfig io k v d"

fun exec_writes :: "(string option \<times> time \<times> db_write) list \<Rightarrow> database \<Rightarrow> database" where
  "exec_writes [] d = d"
| "exec_writes ((io, now, w) # ws) d = exec_writes ws (fst (exec_write io now w d))"

section \<open>The constraints of the schema\<close>

definition idem_keys :: "request list \<Rightarrow> string option list" where
  "idem_keys rs = filter (\<lambda>k. k \<noteq> None) (map rq_IdempotencyKey rs)"

definition db_ok :: "database \<Rightarrow> bool" where
  "db_ok d \<longleftrightarrow> distinct (map kr_id (db_keys d)) \<and> distinct (map rq_ID (db_requests d)) \<and>
     distinct (idem_keys (db_requests d)) \<and> distinct (map ke_ID (db_events d)) \<and>
     distinct (map fst (db_config d))"

text \<open>An UPDATE that leaves a column alone leaves the list of its values alone.\<close>

lemma map_update_where: "(\<And>r. g (f r) = g r) \<Longrightarrow> map g (update_where p f rs) = map g rs"
  by (induction rs) (auto simp: update_where_def)

lemma kr_id_set_key [simp]: "(\<And>k. ak_ID (f k) = ak_ID k) \<Longrightarrow> kr_id (set_key f r) = kr_id r"
  by (simp add: kr_id_def set_key_def)

lemma kr_id_healthy [simp]: "kr_id (r\<lparr>kr_is_healthy := n\<rparr>) = kr_id r"
  by (simp add: kr_id_def)

lemma idem_keys_update:
  "(\<And>r. rq_IdempotencyKey (f r) = rq_IdempotencyKey r) \<Longrightarrow> idem_keys (update_where p f rs) = idem_keys rs"
  by (simp add: idem_keys_def map_update_where)

lemma distinct_map_filter': "distinct (map f xs) \<Longrightarrow> distinct (map f (filter p xs))"
  by (induction xs) auto

lemma idem_keys_append: "idem_keys (rs @ [r]) =
    idem_keys rs @ (if rq_IdempotencyKey r = None then [] else [rq_IdempotencyKey r])"
  by (simp add: idem_keys_def)

lemma map_fst_upsert: "map fst (update_where (\<lambda>r. fst r = k) (\<lambda>r. (k, v)) rs) = map fst rs"
  by (induction rs) (auto simp: update_where_def)

lemmas key_write_defs = CreateAPIKey_def UpdateAPIKeyWeight_def UpdateAPIKeyHealth_def
  UpdateAPIKeyLastUsed_def UpdateAPIKeyConcurrent_def DeleteAPIKey_def ResetAPIKeyCircuit_def
  execExpectingOneRow_def

lemmas other_write_defs = CreateRequest_def UpdateRequestStatus_def UpdateRequestResult_def
  CreateKeyEvent_def UpdateSystemConfig_def

lemma exec_write_ok:
  assumes "db_ok d"
  shows "db_ok (fst (exec_write io now w d))"
proof (cases io)
  case (Some e)
  with assms show ?thesis by (cases w) (simp_all add: key_write_defs other_write_defs)
next
  case None
  then show ?thesis
  proof (cases w)
    case (CreateAPIKeyCall k)
    with assms None show ?thesis by (auto simp: db_ok_def CreateAPIKey_def kr_id_def)
  next
    case (CreateRequestCall r)
    with assms None show ?thesis
      by (auto simp: db_ok_def CreateRequest_def idem_keys_append) (auto simp: idem_keys_def)
  qed (use assms None in \<open>simp_all add: db_ok_def key_write_defs other_write_defs map_update_where
      idem_keys_update distinct_map_filter' map_fst_upsert\<close>)
qed

lemma exec_writes_ok: "db_ok d \<Longrightarrow> db_ok (exec_writes ws d)"
  by (induction ws d rule: exec_writes.induct) (auto simp: exec_write_ok)

section \<open>Finding a row\<close>

lemma find_append: "find p (xs @ ys) = (case find p xs of None \<Rightarrow> find p ys | Some x \<Rightarrow> Some x)"
  by (induction xs) auto

lemma find_update_where:
  assumes "\<And>r. q (f r) = q r"
  shows "find q (update_where p f rs) = map_option (\<lambda>r. if p r then f r else r) (find q rs)"
  using assms by (induction rs) (auto simp: update_where_def)

lemma find_none_iff: "find p xs = None \<longleftrightarrow> (\<forall>x \<in> set xs. \<not> p x)"
  by (induction xs) auto

lemma find_key:
  assumes "distinct (map f rs)" and "r \<in> set rs" and "f r = k"
  shows "find (\<lambda>r. f r = k) rs = Some r"
  using assms by (induction rs) auto

section \<open>The rows of the requests table as a store\<close>

text \<open>
  What a worker relies on when it writes the progress and the result of a request: each write
  changes the row it names as asked, and no other. The facts about sequences of writes are
  proved from that.
\<close>

locale request_store =
  fixes row :: "'s \<Rightarrow> string \<Rightarrow> request option"
    and put_status :: "'s \<Rightarrow> string \<Rightarrow> string \<Rightarrow> string \<Rightarrow> int \<Rightarrow> time \<Rightarrow> 's"
    and put_result :: "'s \<Rightarrow> string \<Rightarrow> string \<Rightarrow> int \<Rightarrow> string \<Rightarrow> string \<Rightarrow> time \<Rightarrow> time \<Rightarrow> 's"
  assumes row_put_status: "row (put_status s i st k n now) j =
      (if i = j then map_option (\<lambda>r. r\<lparr>rq_Status := st, rq_AssignedKeyID := Some k,
         rq_Attempts := n, rq_UpdatedAt := datetime now\<rparr>) (row s j) else row s j)"
    and row_put_result: "row (put_result s i st c b e fin now) j =
      (if i = j then map_option (\<lambda>r. r\<lparr>rq_Status := st, rq_ResponseStatus := Some c,
         rq_ResponseBody := Some b, rq_LastError := Some e, rq_CompletedAt := Some fin,
         rq_UpdatedAt := datetime now\<rparr>) (row s j) else row s j)"
begin

text \<open>A result written after the start of an attempt: both are read back.\<close>

lemma attempt_then_result:
  assumes "row s i = Some r"
  obtains r' where "row (put_result (put_status s i st k n t1) i st2 c b e fin t2) i = Some r'"
    and "rq_Status r' = st2" and "rq_Attempts r' = n" and "rq_AssignedKeyID r' = Some k"
    and "rq_ResponseStatus r' = Some c" and "rq_ID r' = rq_ID r"
  using assms by (simp add: row_put_result row_put_status)

lemma other_rows_untouched:
  "i \<noteq> j \<Longrightarrow> row (put_result (put_status s i st k n t1) i st2 c b e fin t2) j = row s j"
  by (simp add: row_put_result row_put_status)

end

definition request_row :: "database \<Rightarrow> string \<Rightarrow> request option" where
  "request_row d i = find (\<lambda>r. rq_ID r = i) (db_requests d)"

lemma request_row_update:
  assumes "\<And>r. rq_ID (f r) = rq_ID r"
  shows "request_row (d\<lparr>db_requests := update_where (\<lambda>r. rq_ID r = i) f (db_requests d)\<rparr>) j =
    (if i = j then map_option f (request_row d j) else request_row d j)"
proof -
  have e: "request_row (d\<lparr>db_requests := update_where (\<lambda>r. rq_ID r = i) f (db_requests d)\<rparr>) j =
      map_option (\<lambda>r. if rq_ID r = i then f r else r) (request_row d j)"
    using assms by (simp add: request_row_def find_update_where)
  have "rq_ID r = j" if "request_row d j = Some r" for r
    using that by (auto simp: request_row_def find_Some_iff)
  then show ?thesis unfolding e by (cases "request_row d j") auto
qed

interpretation sqlite_requests: request_store request_row
    "\<lambda>d i st k n now. fst (UpdateRequestStatus None now i st k n d)"
    "\<lambda>d i st c b e fin now. fst (UpdateRequestResult None now i st c b e fin d)"
  by unfold_locales (simp_all add: UpdateRequestStatus_def UpdateRequestResult_def request_row_update)

section \<open>The order of pending requests\<close>

definition served_before :: "request \<Rightarrow> request \<Rightarrow> bool" where
  "served_before a b \<longleftrightarrow> rq_Priority a < rq_Priority b \<or>
     rq_Priority a = rq_Priority b \<and> rq_CreatedAt a \<le> rq_CreatedAt b"

lemma sorted_by_both:
  assumes "sorted (map rq_Priority rs)"
    and "\<And>p. sorted (map rq_CreatedAt (filter (\<lambda>r. rq_Priority r = p) rs))"
  shows "sorted_wrt served_before rs"
  using assms
proof (induction rs)
  case (Cons r rs)
  have "served_before r s" if s: "s \<in> set rs" for s
  proof (cases "rq_Priority r = rq_Priority s")
    case True
    then have "s \<in> set (filter (\<lambda>x. rq_Priority x = rq_Priority r) rs)" using s by simp
    then show ?thesis using Cons.prems(2) [of "rq_Priority r"] True by (auto simp: served_before_def)
  next
    case False
    then show ?thesis using Cons.prems(1) s by (force simp: served_before_def)
  qed
  moreover have "sorted (map rq_CreatedAt (filter (\<lambda>r. rq_Priority r = p) rs))" for p
    using Cons.prems(2) [of p] by (auto split: if_splits)
  ultimately show ?case using Cons.IH Cons.prems(1) by simp
qed simp

lemma sorted_two_keys: "sorted_wrt served_before (sort_key rq_Priority (sort_key rq_CreatedAt rs))"
proof (rule sorted_by_both)
  fix p
  have "filter (\<lambda>r. rq_Priority r = p) (sort_key rq_Priority (sort_key rq_CreatedAt rs)) =
      filter (\<lambda>r. rq_Priority r = p) (sort_key rq_CreatedAt rs)"
    by (rule sort_key_stable)
  then show "sorted (map rq_CreatedAt
      (filter (\<lambda>r. rq_Priority r = p) (sort_key rq_Priority (sort_key rq_CreatedAt rs))))"
    by (simp add: sorted_filter)
qed simp

section \<open>Properties\<close>

definition empty_db :: database where
  "empty_db = \<lparr>db_keys = [], db_requests = [], db_events = [], db_config = []\<rparr>"

definition example_request :: "string \<Rightarrow> int \<Rightarrow> request" where
  "example_request i p =
     \<lparr>rq_ID = i, rq_IdempotencyKey = Some (''idem-'' @ i), rq_Source = ''manual'', rq_Priority = p,
      rq_Method = ''POST'', rq_DestinationURL = ''http://x'', rq_Headers = None, rq_Payload = None,
      rq_Status = RequestStatusPending, rq_AssignedKeyID = None, rq_Attempts = 0,
      rq_LastError = None, rq_ResponseStatus = None, rq_ResponseBody = None,
      rq_CreatedAt = 0, rq_UpdatedAt = 0, rq_CompletedAt = None\<rparr>"

definition example_db :: database where
  "example_db = exec_writes [(None, 5 * Second, CreateRequestCall (example_request ''a'' 3)),
     (None, 6 * Second, CreateRequestCall (example_request ''b'' 1))] empty_db"

lemma empty_db_ok: "db_ok empty_db"
  by (simp add: db_ok_def empty_db_def idem_keys_def)

lemma example_db_ok: "db_ok example_db"
  unfolding example_db_def by (intro exec_writes_ok empty_db_ok)

text \<open>No sequence of writes, however they are interleaved and whichever of them the driver
  refuses, breaks the constraints of the schema: key, request and event identifiers, the
  idempotency keys that are set, and configuration keys stay unique.\<close>

theorem writes_keep_constraints:
  assumes "db_ok d"
  shows "db_ok (exec_writes ws d)"
  using assms by (rule exec_writes_ok)

theorem writes_keep_constraints_witness:
  "db_ok (exec_writes [(None, 0, CreateRequestCall (example_request ''a'' 1)),
     (Some ''locked'', 0, DeleteAPIKeyCall ''k''), (None, 0, CreateKeyEventCall undefined)] empty_db)"
  using empty_db_ok by (rule writes_keep_constraints)

section \<open>What writes do to one row\<close>

text \<open>
  The rows seen as maps by their identifiers, and what a write means for the row of one identifier:
  nothing, unless it names that identifier. \<open>caller_fields\<close> is what the submitter of a request
  sets, with the time of the creation.
\<close>

definition key_row :: "database \<Rightarrow> string \<Rightarrow> key_row option" where
  "key_row d i = find (\<lambda>r. kr_id r = i) (db_keys d)"

definition setting :: "database \<Rightarrow> string \<Rightarrow> string option" where
  "setting d k = map_of (db_config d) k"

definition caller_fields ::
  "request \<Rightarrow> string \<times> string option \<times> string \<times> int \<times> string \<times> string \<times> string option \<times> string option \<times> time" where
  "caller_fields r = (rq_ID r, rq_IdempotencyKey r, rq_Source r, rq_Priority r, rq_Method r,
     rq_DestinationURL r, rq_Headers r, rq_Payload r, rq_CreatedAt r)"

fun request_after :: "string \<Rightarrow> request \<Rightarrow> string option \<times> time \<times> db_write \<Rightarrow> request" where
  "request_after i r (None, now, UpdateRequestStatusCall j st k n) =
     (if j = i then r\<lparr>rq_Status := st, rq_AssignedKeyID := Some k, rq_Attempts := n,
        rq_UpdatedAt := datetime now\<rparr> else r)"
| "request_after i r (None, now, UpdateRequestResultCall j st c b e fin) =
     (if j = i then r\<lparr>rq_Status := st, rq_ResponseStatus := Some c, rq_ResponseBody := Some b,
        rq_LastError := Some e, rq_CompletedAt := Some fin, rq_UpdatedAt := datetime now\<rparr> else r)"
| "request_after i r _ = r"

definition touch_key :: "time \<Rightarrow> (api_key \<Rightarrow> api_key) \<Rightarrow> key_row \<Rightarrow> key_row" where
  "touch_key now f = set_key (\<lambda>k. (f k)\<lparr>ak_UpdatedAt := datetime now\<rparr>)"

fun key_after :: "string \<Rightarrow> key_row option \<Rightarrow> string option \<times> time \<times> db_write \<Rightarrow> key_row option" where
  "key_after i row (None, now, CreateAPIKeyCall k) =
     (if ak_ID k = i \<and> row = None
      then Some \<lparr>kr_key = k\<lparr>ak_LastUsedAt := None, ak_CreatedAt := datetime now, ak_UpdatedAt := datetime now\<rparr>,
             kr_is_healthy = boolToInt (ak_IsHealthy k)\<rparr>
      else row)"
| "key_after i row (None, now, UpdateAPIKeyWeightCall j w) =
     (if j = i then map_option (touch_key now (\<lambda>k. k\<lparr>ak_Weight := w\<rparr>)) row else row)"
| "key_after i row (None, now, UpdateAPIKeyHealthCall j h n st) =
     (if j = i then map_option (\<lambda>r. (touch_key now (\<lambda>k. k\<lparr>ak_FailureCount := n, ak_CircuitState := st\<rparr>) r)
        \<lparr>kr_is_healthy := boolToInt h\<rparr>) row else row)"
| "key_after i row (None, now, UpdateAPIKeyLastUsedCall j) =
     (if j = i then map_option (touch_key now (\<lambda>k. k\<lparr>ak_LastUsedAt := Some (datetime now)\<rparr>)) row else row)"
| "key_after i row (None, now, UpdateAPIKeyConcurrentCall j n) =
     (if j = i then map_option (touch_key now (\<lambda>k. k\<lparr>ak_CurrentConcurrent := sql_add (ak_CurrentConcurrent k) n\<rparr>)) row
      else row)"
| "key_after i row (None, now, DeleteAPIKeyCall j) = (if j = i then None else row)"
| "key_after i row (None, now, ResetAPIKeyCircuitCall j) =
     (if j = i then map_option (\<lambda>r. (touch_key now (\<lambda>k. k\<lparr>ak_FailureCount := 0, ak_CircuitState := ''closed''\<rparr>) r)
        \<lparr>kr_is_healthy := 1\<rparr>) row else row)"
| "key_after i row _ = row"

fun setting_after :: "string \<Rightarrow> string option \<Rightarrow> string option \<times> time \<times> db_write \<Rightarrow> string option" where
  "setting_after k v (None, now, UpdateSystemConfigCall j v') = (if j = k then Some v' else v)"
| "setting_after k v _ = v"

lemma caller_fields_after: "caller_fields (request_after i r w) = caller_fields r"
  by (induction i r w rule: request_after.induct) (simp_all add: caller_fields_def)

lemma caller_fields_history: "caller_fields (foldl (request_after i) r ws) = caller_fields r"
  by (induction ws arbitrary: r) (simp_all add: caller_fields_after)

lemma request_row_write:
  assumes "request_row d i = Some r"
  shows "request_row (fst (exec_write io now w d)) i = Some (request_after i r (io, now, w))"
proof (cases io)
  case (Some e)
  then show ?thesis using assms by (cases w) (simp_all add: key_write_defs other_write_defs)
next
  case None
  show ?thesis
  proof (cases w)
    case (CreateRequestCall q)
    then show ?thesis using assms None by (simp add: CreateRequest_def request_row_def find_append)
  qed (use assms None in \<open>simp_all add: key_write_defs CreateKeyEvent_def UpdateSystemConfig_def
      UpdateRequestStatus_def UpdateRequestResult_def request_row_update\<close>,
      simp_all add: request_row_def)
qed

lemma key_row_update:
  assumes "\<And>r. kr_id (f r) = kr_id r"
  shows "key_row (d\<lparr>db_keys := update_where (\<lambda>r. kr_id r = j) f (db_keys d)\<rparr>) i =
    (if j = i then map_option f (key_row d i) else key_row d i)"
proof -
  have "key_row (d\<lparr>db_keys := update_where (\<lambda>r. kr_id r = j) f (db_keys d)\<rparr>) i =
      map_option (\<lambda>r. if kr_id r = j then f r else r) (key_row d i)"
    using assms by (simp add: key_row_def find_update_where)
  moreover have "kr_id r = i" if "key_row d i = Some r" for r
    using that by (auto simp: key_row_def find_Some_iff)
  ultimately show ?thesis by (cases "key_row d i") auto
qed

lemma key_row_delete: "key_row (d\<lparr>db_keys := filter (\<lambda>r. kr_id r \<noteq> j) (db_keys d)\<rparr>) i =
    (if j = i then None else key_row d i)"
proof -
  have "find (\<lambda>r. kr_id r = i) (filter (\<lambda>r. kr_id r \<noteq> j) rs) =
      (if j = i then None else find (\<lambda>r. kr_id r = i) rs)" for rs
    by (induction rs) auto
  then show ?thesis by (simp add: key_row_def)
qed

lemma key_row_none: "key_row d i = None \<longleftrightarrow> i \<notin> set (map kr_id (db_keys d))"
  by (auto simp: key_row_def find_none_iff)

lemma key_row_other:
  "key_row (d\<lparr>db_requests := rs\<rparr>) i = key_row d i" "key_row (d\<lparr>db_events := es\<rparr>) i = key_row d i"
  "key_row (d\<lparr>db_config := cs\<rparr>) i = key_row d i"
  by (simp_all add: key_row_def)

lemma key_row_write: "key_row (fst (exec_write io now w d)) i = key_after i (key_row d i) (io, now, w)"
proof (cases io)
  case (Some e)
  then show ?thesis by (cases w) (simp_all add: key_write_defs other_write_defs)
next
  case None
  show ?thesis
  proof (cases w)
    case (CreateAPIKeyCall k)
    show ?thesis
    proof (cases "key_row d (ak_ID k)")
      case None
      have "key_row (d\<lparr>db_keys := db_keys d @ [r]\<rparr>) i =
          (if kr_id r = i \<and> key_row d i = None then Some r else key_row d i)" for r
        by (simp add: key_row_def find_append split: option.split)
      with None show ?thesis
        using key_row_none [of d "ak_ID k"]
        by (auto simp: CreateAPIKeyCall \<open>io = None\<close> CreateAPIKey_def) (auto simp: kr_id_def)
    next
      case (Some r)
      then have "ak_ID k \<in> set (map kr_id (db_keys d))" using key_row_none [of d "ak_ID k"] by simp
      then show ?thesis using Some by (auto simp: CreateAPIKeyCall \<open>io = None\<close> CreateAPIKey_def)
    qed
  next
    case (CreateRequestCall q)
    then show ?thesis using None by (simp add: CreateRequest_def key_row_other)
  qed (use None in \<open>simp_all add: key_write_defs UpdateRequestStatus_def UpdateRequestResult_def
      CreateKeyEvent_def UpdateSystemConfig_def key_row_update key_row_delete key_row_other
      db_CircuitStateClosed_def touch_key_def\<close>)
qed

lemma setting_write: "setting (fst (exec_write io now w d)) k = setting_after k (setting d k) (io, now, w)"
proof (cases io)
  case (Some e)
  then show ?thesis by (cases w) (simp_all add: key_write_defs other_write_defs)
next
  case None
  have upd: "map_of (update_where (\<lambda>r. fst r = j) (\<lambda>r. (j, v)) rs) k =
      (if j = k then map_option (\<lambda>_. v) (map_of rs k) else map_of rs k)" for j v and rs :: "(string \<times> string) list"
    by (induction rs) (auto simp: update_where_def)
  have new: "map_of (rs @ [(j, v)]) k = (if j = k then Some v else map_of rs k)"
    if "j \<notin> set (map fst rs)" for j v and rs :: "(string \<times> string) list"
    using that by (induction rs) auto
  show ?thesis
  proof (cases w)
    case (UpdateSystemConfigCall j v)
    then show ?thesis
      using None upd [of j v "db_config d"] new [of j "db_config d" v]
      by (cases "map_of (db_config d) j") (auto simp: UpdateSystemConfig_def setting_def map_of_eq_None_iff)
  qed (use None in \<open>simp_all add: key_write_defs UpdateRequestStatus_def UpdateRequestResult_def
      CreateKeyEvent_def CreateRequest_def setting_def\<close>)
qed

text \<open>C23: A write touches no row but the one it names, and that row as its arguments say: after any
  sequence of writes, of which the driver may refuse some, a stored request is still there, with
  the fields its submitter set, and its row is the old one changed by the writes of status and
  result that name it, in their order; the row of a key, or its absence, is the result of the
  writes that name the key; and a setting has the last value that was written to it.\<close>

theorem writes_touch_only_their_row:
  "(\<forall>i r. request_row d i = Some r \<longrightarrow>
      (\<exists>r'. request_row (exec_writes ws d) i = Some r' \<and> r' = foldl (request_after i) r ws \<and>
         caller_fields r' = caller_fields r)) \<and>
   (\<forall>i. key_row (exec_writes ws d) i = foldl (key_after i) (key_row d i) ws) \<and>
   (\<forall>k. setting (exec_writes ws d) k = foldl (setting_after k) (setting d k) ws)"
proof (intro conjI allI impI)
  fix i r assume "request_row d i = Some r"
  then have "request_row (exec_writes ws d) i = Some (foldl (request_after i) r ws)"
  proof (induction ws d arbitrary: r rule: exec_writes.induct)
    case (2 io now w ws d)
    from "2.IH" [OF request_row_write [OF "2.prems"]] show ?case by simp
  qed simp
  then show "\<exists>r'. request_row (exec_writes ws d) i = Some r' \<and> r' = foldl (request_after i) r ws \<and>
      caller_fields r' = caller_fields r"
    by (simp add: caller_fields_history)
next
  fix i show "key_row (exec_writes ws d) i = foldl (key_after i) (key_row d i) ws"
    by (induction ws d rule: exec_writes.induct) (simp_all add: key_row_write)
next
  fix k show "setting (exec_writes ws d) k = foldl (setting_after k) (setting d k) ws"
    by (induction ws d rule: exec_writes.induct) (simp_all add: setting_write)
qed

text \<open>A request is finished while another one is being started.\<close>

theorem writes_touch_only_their_row_witness:
  "\<exists>r. request_row (exec_writes [(None, 8, UpdateRequestStatusCall ''b'' ''processing'' ''k1'' 1),
      (None, 9, UpdateRequestResultCall ''a'' ''success'' 200 ''ok'' '''' 9),
      (Some ''locked'', 9, UpdateRequestResultCall ''b'' ''success'' 200 ''ok'' '''' 9)] example_db) ''b'' = Some r \<and>
     rq_Status r = ''processing'' \<and> rq_DestinationURL r = ''http://x'' \<and> rq_ResponseStatus r = None"
proof -
  have "Option.is_none (request_row example_db ''b'') = False"
      "rq_DestinationURL (the (request_row example_db ''b'')) = ''http://x''"
      "rq_ResponseStatus (the (request_row example_db ''b'')) = None" by code_simp+
  then obtain r where r: "request_row example_db ''b'' = Some r" "rq_DestinationURL r = ''http://x''"
      "rq_ResponseStatus r = None"
    by (auto simp: Option.is_none_def)
  from writes_touch_only_their_row [of example_db "[(None, 8, UpdateRequestStatusCall ''b'' ''processing'' ''k1'' 1),
      (None, 9, UpdateRequestResultCall ''a'' ''success'' 200 ''ok'' '''' 9),
      (Some ''locked'', 9, UpdateRequestResultCall ''b'' ''success'' 200 ''ok'' '''' 9)]", THEN conjunct1, rule_format, OF r(1)]
  show ?thesis using r(2,3) by auto
qed

text \<open>The row that a successful \<open>CreateRequest\<close> writes, and what makes it refuse.\<close>

definition stored_request :: "time \<Rightarrow> request \<Rightarrow> request" where
  "stored_request now req =
     req\<lparr>rq_AssignedKeyID := None, rq_LastError := None, rq_ResponseStatus := None,
       rq_ResponseBody := None, rq_CreatedAt := datetime now, rq_UpdatedAt := datetime now,
       rq_CompletedAt := None\<rparr>"

definition request_taken :: "request \<Rightarrow> database \<Rightarrow> bool" where
  "request_taken req d \<longleftrightarrow> rq_ID req \<in> set (map rq_ID (db_requests d)) \<or>
     rq_IdempotencyKey req \<noteq> None \<and> rq_IdempotencyKey req \<in> set (map rq_IdempotencyKey (db_requests d))"

lemma CreateRequest_cases:
  "CreateRequest None now req d = (d', err) \<Longrightarrow>
     (if request_taken req d then d' = d \<and> err \<noteq> None
      else err = None \<and> d' = d\<lparr>db_requests := db_requests d @ [stored_request now req]\<rparr>)"
  by (auto simp: CreateRequest_def request_taken_def stored_request_def split: if_splits)

text \<open>C24: \<open>CreateRequest\<close> refuses exactly the requests whose identifier or idempotency key is in
  the table already, and then changes nothing; otherwise the request is found both by its
  identifier and by its idempotency key, with the fields the caller set, no result, and the
  creation time in whole seconds. So an idempotency key names one request for good.\<close>

theorem create_request_deduplicates:
  assumes "CreateRequest None now req d = (d', err)"
  shows "(err \<noteq> None \<longleftrightarrow> request_taken req d) \<and> (err \<noteq> None \<longrightarrow> d' = d) \<and>
    (err = None \<longrightarrow> GetRequest None (rq_ID req) d' = Inr (stored_request now req) \<and>
       (\<forall>k. rq_IdempotencyKey req = Some k \<longrightarrow>
          GetRequestByIdempotencyKey None k d' = Inr (Some (stored_request now req))))"
proof (cases "request_taken req d")
  case True
  with CreateRequest_cases [OF assms] show ?thesis by auto
next
  case False
  have new: "find (\<lambda>r. rq_ID r = rq_ID req) (db_requests d) = None"
    using False by (auto simp: request_taken_def find_none_iff intro: rev_image_eqI)
  have "find (\<lambda>r. rq_IdempotencyKey r = Some k) (db_requests d) = None"
    if "rq_IdempotencyKey req = Some k" for k
    using False that by (auto simp: request_taken_def find_none_iff image_iff)
  with new False CreateRequest_cases [OF assms] show ?thesis
    by (simp add: GetRequest_def GetRequestByIdempotencyKey_def find_append stored_request_def)
qed

theorem create_request_deduplicates_witness:
  "GetRequest None ''a'' (fst (CreateRequest None 0 (example_request ''a'' 1) empty_db)) =
     Inr (stored_request 0 (example_request ''a'' 1))"
proof -
  let ?c = "CreateRequest None 0 (example_request ''a'' 1) empty_db"
  have "snd ?c = None" by code_simp
  with create_request_deduplicates [of 0 "example_request ''a'' 1" empty_db "fst ?c" "snd ?c"]
  show ?thesis by (simp add: example_request_def)
qed

text \<open>The progress and the result written for a request are what is read back, with the attempt
  count, the assigned key and the response of that request, and no other request is changed.\<close>

theorem result_roundtrip:
  assumes "request_row d i = Some r"
  shows "let d1 = fst (UpdateRequestStatus None t1 i st k n d);
             d2 = fst (UpdateRequestResult None t2 i st2 c b e fin d1)
    in (\<exists>r'. GetRequest None i d2 = Inr r' \<and> rq_Status r' = st2 \<and> rq_Attempts r' = n \<and>
          rq_AssignedKeyID r' = Some k \<and> rq_ResponseStatus r' = Some c) \<and>
       (\<forall>j. j \<noteq> i \<longrightarrow> GetRequest None j d2 = GetRequest None j d)"
proof -
  let ?d2 = "fst (UpdateRequestResult None t2 i st2 c b e fin (fst (UpdateRequestStatus None t1 i st k n d)))"
  have get: "GetRequest None j x =
      (case request_row x j of None \<Rightarrow> Inl (''request not found: '' @ j) | Some r \<Rightarrow> Inr r)" for j x
    by (simp add: GetRequest_def request_row_def split: option.split)
  obtain r' where "request_row ?d2 i = Some r'" "rq_Status r' = st2" "rq_Attempts r' = n"
      "rq_AssignedKeyID r' = Some k" "rq_ResponseStatus r' = Some c"
    by (rule sqlite_requests.attempt_then_result [OF assms])
  moreover have "j \<noteq> i \<Longrightarrow> request_row ?d2 j = request_row d j" for j
    by (rule sqlite_requests.other_rows_untouched) simp
  ultimately show ?thesis by (simp add: get)
qed

theorem result_roundtrip_witness:
  "\<exists>r. GetRequest None ''a''
     (fst (UpdateRequestResult None 9 ''a'' RequestStatusSuccess 200 ''ok'' '''' 9
       (fst (UpdateRequestStatus None 8 ''a'' RequestStatusProcessing ''k1'' 1 example_db)))) = Inr r \<and>
     rq_Status r = ''success'' \<and> rq_Attempts r = 1"
proof -
  have "\<not> Option.is_none (request_row example_db ''a'')" by code_simp
  then obtain r where "request_row example_db ''a'' = Some r" by (auto simp: Option.is_none_def)
  from result_roundtrip [OF this, of 8 RequestStatusProcessing "''k1''" 1 9 RequestStatusSuccess 200
      "''ok''" "''''" 9]
  show ?thesis by (auto simp: Let_def RequestStatusSuccess_def)
qed

text \<open>\<open>GetPendingRequests\<close> returns the unfinished requests that come first by priority and then
  by age, as many as the limit allows, and leaves out only requests that come later.\<close>

theorem pending_requests_in_order:
  "\<exists>rs rest. GetPendingRequests None limit d = Inr rs \<and>
     mset (rs @ rest) = mset (filter (\<lambda>r. rq_Status r = RequestStatusPending \<or>
        rq_Status r = RequestStatusQueued) (db_requests d)) \<and>
     sorted_wrt served_before (rs @ rest) \<and> (if limit < 0 then rest = [] else
       length rs = min (nat limit) (length (rs @ rest)))"
proof -
  let ?p = "\<lambda>r. rq_Status r = RequestStatusPending \<or> rq_Status r = RequestStatusQueued"
  define all where "all = sort_key rq_Priority (sort_key rq_CreatedAt (filter ?p (db_requests d)))"
  define rs where "rs = limit_rows limit all"
  define rest where "rest = (if limit < 0 then [] else drop (nat limit) all)"
  have split: "rs @ rest = all" by (simp add: rs_def rest_def limit_rows_def)
  have "mset all = mset (filter ?p (db_requests d))" "sorted_wrt served_before all"
    unfolding all_def by (simp_all add: sorted_two_keys)
  moreover have "GetPendingRequests None limit d = Inr rs"
    by (simp add: GetPendingRequests_def rs_def all_def)
  moreover have "if limit < 0 then rest = [] else length rs = min (nat limit) (length all)"
    by (simp add: rs_def rest_def limit_rows_def min.commute)
  ultimately show ?thesis unfolding split [symmetric] by blast
qed

text \<open>A second event with the identifier of a stored one is refused. The two functions that log
  key events leave the identifier empty, so of all events the program ever logs at most the first
  is stored.\<close>

theorem only_first_event_with_empty_id_is_stored:
  assumes "db_ok d" and "\<forall>(io, now, w) \<in> set ws. \<forall>e. w = CreateKeyEventCall e \<longrightarrow> ke_ID e = ''''"
    and "db_events d = []"
  shows "length (db_events (exec_writes ws d)) \<le> 1"
proof -
  have "\<forall>e \<in> set (db_events d). ke_ID e = ''''" using assms(3) by simp
  with assms(2) have "\<forall>e \<in> set (db_events (exec_writes ws d)). ke_ID e = ''''"
  proof (induction ws d rule: exec_writes.induct)
    case (2 io now w ws d)
    have "\<forall>e \<in> set (db_events (fst (exec_write io now w d))). ke_ID e = ''''"
      using "2.prems" by (cases w) (auto simp: key_write_defs other_write_defs split: option.splits)
    with "2.IH" "2.prems" show ?case by simp
  qed simp
  moreover have "distinct (map ke_ID (db_events (exec_writes ws d)))"
    using exec_writes_ok [OF assms(1), of ws] by (simp add: db_ok_def)
  ultimately show ?thesis
    by (cases "db_events (exec_writes ws d)" rule: remdups_adj.cases) auto
qed

definition example_event :: "string \<Rightarrow> key_event" where
  "example_event k = \<lparr>ke_ID = '''', ke_KeyID = k, ke_EventType = ''circuit_opened'',
     ke_Message = Some ''m'', ke_CreatedAt = 0\<rparr>"

theorem only_first_event_with_empty_id_is_stored_witness:
  "length (db_events (exec_writes [(None, 0, CreateKeyEventCall (example_event ''a'')),
     (None, 1, CreateKeyEventCall (example_event ''b''))] empty_db)) \<le> 1"
  using empty_db_ok
  by (rule only_first_event_with_empty_id_is_stored) (simp_all add: example_event_def empty_db_def)

end
