(* ===== verification/Key_Manager.thy ===== *)
theory Key_Manager
  imports Key_Strategy Hot_Config Database
begin

text \<open>
  The key pool manager (\<^verbatim>\<open>internal/keypool/manager.go\<close>). Its keys are pointers that workers go on
  using after a reload, so they live in a store, and \<open>m_keys\<close> lists references into it; \<open>m_next\<close>
  is the next reference that an allocation returns. The two strategies are entries of a map by
  name, as in the code.

  \<open>GetKey\<close> holds only the read lock of the manager, so two calls can interleave between their
  accesses to keys, and \<open>MarkSuccess\<close> and \<open>MarkFailed\<close> hold no lock of the manager at all. Here every
  call runs from start to end; the theories \<open>Key_Acquire\<close> and \<open>Key_Updates\<close> take them apart. The clock
  readings it takes are \<open>allow_clk i\<close> for the breaker of the \<open>i\<close>-th key and \<open>rate_clk j\<close> in the
  \<open>j\<close>-th round of its loop. Log output is left out.
\<close>

section \<open>State\<close>

record manager =
  m_store :: key_store
  m_next :: key_ref
  m_keys :: "key_ref list"
  m_strategies :: "string \<rightharpoonup> strategy"
  m_activeStmt :: string

record key_health =
  kh_ID :: string
  kh_Name :: string
  kh_CircuitState :: string
  kh_FailureCount :: int
  kh_CurrentConcurrent :: int
  kh_ConcurrentLimit :: int
  kh_Weight :: int

section \<open>GetKey\<close>

text \<open>\<open>removeKey\<close> compares pointers.\<close>

definition removeKey :: "key_ref list \<Rightarrow> key_ref \<Rightarrow> key_ref list" where
  "removeKey ks target = filter (\<lambda>k. k \<noteq> target) ks"

lemma removeKey_length: "length (removeKey ks k) \<le> length ks"
  by (simp add: removeKey_def)

text \<open>The first loop: the keys whose breaker, when there is one, allows a request.\<close>

fun allowed_keys :: "(nat \<Rightarrow> time) \<Rightarrow> nat \<Rightarrow> key_ref list \<Rightarrow> key_store \<Rightarrow> key_store \<times> key_ref list" where
  "allowed_keys clk i [] st = (st, [])"
| "allowed_keys clk i (k # ks) st =
     (case pk_circuitBreaker (st k) of
        None \<Rightarrow> (let (st', av) = allowed_keys clk (Suc i) ks st in (st', k # av))
      | Some cb \<Rightarrow>
          let (cb', allowed) = AllowRequest (clk i) cb;
              (st', av) = allowed_keys clk (Suc i) ks (st(k := (st k)\<lparr>pk_circuitBreaker := Some cb'\<rparr>))
          in (st', if allowed then k # av else av))"

text \<open>
  The second loop. Its bound \<open>len(available)\<close> is evaluated anew in every round, after the slice
  has been replaced by a shorter one.
\<close>

function acquire_loop ::
  "(nat \<Rightarrow> time) \<Rightarrow> nat \<Rightarrow> key_ref list \<Rightarrow> key_store \<Rightarrow> strategy \<Rightarrow>
   key_store \<times> strategy \<times> key_ref option" where
  "acquire_loop clk attempts available st s =
     (if length available \<le> attempts then (st, s, None)
      else case strategy_Select st s available of
             (s1, None) \<Rightarrow> (st, s1, None)
           | (s1, Some selected) \<Rightarrow>
               let (k1, acquired) = TryConcurrentAcquire (st selected) in
               if \<not> acquired then
                 (let rest = removeKey available selected; st1 = st(selected := k1)
                  in if rest = [] then (st1, s1, None)
                     else acquire_loop clk (Suc attempts) rest st1 s1)
               else
                 let (k2, ok_rate) = TryRateLimit (clk attempts) k1 in
                 if \<not> ok_rate then
                   (let rest = removeKey available selected;
                        st1 = st(selected := ConcurrentRelease k2)
                    in if rest = [] then (st1, s1, None)
                       else acquire_loop clk (Suc attempts) rest st1 s1)
                 else (st(selected := k2), s1, Some selected))"
  by pat_completeness auto

termination
  by (relation "measure (\<lambda>(clk, attempts, available, st, s). length available - attempts)")
    (auto intro!: diff_less_mono2 simp: not_le removeKey_length le_imp_less_Suc diff_less_Suc
      intro: le_less_trans [OF diff_le_mono [OF removeKey_length]])

declare acquire_loop.simps [simp del]

datatype get_result = GotKey key_ref | NoKey | NilStrategy

definition GetKey :: "(nat \<Rightarrow> time) \<Rightarrow> (nat \<Rightarrow> time) \<Rightarrow> manager \<Rightarrow> manager \<times> get_result" where
  "GetKey allow_clk rate_clk m =
     (let (st, available) = allowed_keys allow_clk 0 (m_keys m) (m_store m); m1 = m\<lparr>m_store := st\<rparr>
      in if available = [] then (m1, NoKey)
         else let name = (if m_strategies m (m_activeStmt m) = None then ''round_robin''
                          else m_activeStmt m)
              in case m_strategies m name of
                   None \<Rightarrow> (m1, NilStrategy)
                 | Some s \<Rightarrow>
                     let (st', s', res) = acquire_loop rate_clk 0 available st s
                     in (m\<lparr>m_store := st', m_strategies := (m_strategies m)(name \<mapsto> s')\<rparr>,
                         case res of None \<Rightarrow> NoKey | Some k \<Rightarrow> GotKey k))"

section \<open>Releasing and marking\<close>

definition modify_key :: "key_ref \<Rightarrow> (pool_key \<Rightarrow> pool_key) \<Rightarrow> manager \<Rightarrow> manager" where
  "modify_key k f m = m\<lparr>m_store := (m_store m)(k := f (m_store m k))\<rparr>"

definition ReleaseKey :: "key_ref \<Rightarrow> manager \<Rightarrow> manager" where
  "ReleaseKey k m = modify_key k ConcurrentRelease m"

definition EventCircuitOpened :: string where "EventCircuitOpened = ''circuit_opened''"
definition EventCircuitClosed :: string where "EventCircuitClosed = ''circuit_closed''"
definition EventKeyFailed :: string where "EventKeyFailed = ''key_failed''"

text \<open>The event's identifier is never set: it is the empty string.\<close>

definition m_logKeyEvent ::
  "string option \<Rightarrow> time \<Rightarrow> string \<Rightarrow> string \<Rightarrow> string \<Rightarrow> database \<Rightarrow> database" where
  "m_logKeyEvent io now keyID eventType message d =
     fst (CreateKeyEvent io now
       \<lparr>ke_ID = '''', ke_KeyID = keyID, ke_EventType = eventType, ke_Message = Some message,
        ke_CreatedAt = zero_time\<rparr> d)"

definition MarkSuccess ::
  "string option \<times> string option \<Rightarrow> time \<Rightarrow> key_ref \<Rightarrow> manager \<times> database \<Rightarrow> manager \<times> database" where
  "MarkSuccess io now k md =
     (let (m, d) = md; key = m_store m k;
          (m1, d1) =
            (case pk_circuitBreaker key of
               None \<Rightarrow> (m, d)
             | Some cb \<Rightarrow>
                 (modify_key k (\<lambda>x. x\<lparr>pk_circuitBreaker := Some (RecordSuccess cb)\<rparr>) m,
                  if cb_State cb \<noteq> CircuitStateClosed
                  then m_logKeyEvent (fst io) now (pk_ID key) EventCircuitClosed
                         ''circuit breaker closed after successful request'' d
                  else d))
      in (m1, fst (UpdateAPIKeyLastUsed (snd io) now (pk_ID key) d1)))"

definition MarkFailed ::
  "string option \<times> string option \<Rightarrow> time \<Rightarrow> key_ref \<Rightarrow> manager \<times> database \<Rightarrow> manager \<times> database" where
  "MarkFailed io now k md =
     (let (m, d) = md; key = m_store m k
      in case pk_circuitBreaker key of
           None \<Rightarrow> (m, d)
         | Some cb \<Rightarrow>
             let cb' = RecordFailure now cb;
                 newState = cb_State cb';
                 d1 = (if cb_State cb \<noteq> newState
                       then (if newState = CircuitStateOpen
                             then m_logKeyEvent (fst io) now (pk_ID key) EventCircuitOpened
                                    ''circuit breaker opened after repeated failures'' d
                             else m_logKeyEvent (fst io) now (pk_ID key) EventKeyFailed ''key failed'' d)
                       else d)
             in (modify_key k (\<lambda>x. x\<lparr>pk_circuitBreaker := Some cb'\<rparr>) m,
                 fst (UpdateAPIKeyHealth (snd io) now (pk_ID key) (newState = CircuitStateClosed)
                        (cb_FailureCount cb') newState d1)))"

section \<open>Status\<close>

definition key_status :: "pool_key \<Rightarrow> key_health" where
  "key_status key =
     \<lparr>kh_ID = pk_ID key, kh_Name = pk_Name key,
      kh_CircuitState = (case pk_circuitBreaker key of None \<Rightarrow> CircuitStateClosed | Some cb \<Rightarrow> cb_State cb),
      kh_FailureCount = (case pk_circuitBreaker key of None \<Rightarrow> 0 | Some cb \<Rightarrow> cb_FailureCount cb),
      kh_CurrentConcurrent = GetCurrentConcurrent key,
      kh_ConcurrentLimit = pk_ConcurrentLimit key,
      kh_Weight = pk_Weight key\<rparr>"

definition GetHealthStatus :: "manager \<Rightarrow> key_health list" where
  "GetHealthStatus m = map (\<lambda>k. key_status (m_store m k)) (m_keys m)"

definition PoolSize :: "manager \<Rightarrow> nat" where
  "PoolSize m = length (m_keys m)"

section \<open>Reloading\<close>

text \<open>The map of the pool's keys by identifier; a later key overwrites an earlier one.\<close>

definition existing_keys :: "key_store \<Rightarrow> key_ref list \<Rightarrow> string \<rightharpoonup> key_ref" where
  "existing_keys st ks = foldl (\<lambda>m k. m(pk_ID (st k) \<mapsto> k)) Map.empty ks"

definition refreshed :: "api_key \<Rightarrow> pool_key \<Rightarrow> pool_key" where
  "refreshed dbKey old =
     old\<lparr>pk_Name := ak_Name dbKey, pk_KeyEncrypted := ak_KeyEncrypted dbKey,
       pk_Weight := ak_Weight dbKey, pk_RateLimitPerMinute := ak_RateLimitPerMinute dbKey,
       pk_RateLimitPerDay := ak_RateLimitPerDay dbKey, pk_ConcurrentLimit := ak_ConcurrentLimit dbKey\<rparr>"

definition fresh_key :: "hot_config \<Rightarrow> api_key \<Rightarrow> pool_key" where
  "fresh_key cfg dbKey =
     \<lparr>pk_ID = ak_ID dbKey, pk_Name = ak_Name dbKey, pk_KeyEncrypted = ak_KeyEncrypted dbKey,
      pk_Weight = ak_Weight dbKey, pk_RateLimitPerMinute = ak_RateLimitPerMinute dbKey,
      pk_RateLimitPerDay = ak_RateLimitPerDay dbKey, pk_ConcurrentLimit = ak_ConcurrentLimit dbKey,
      pk_currentConcurrent = 0, pk_minuteCounter = 0, pk_dayCounter = 0,
      pk_minuteResetAt = zero_time, pk_dayResetAt = zero_time,
      pk_circuitBreaker = Some (NewCircuitBreaker (hc_CircuitBreakerThreshold cfg)
        (i64 (hc_CircuitBreakerOpenDuration cfg * Second)))\<rparr>"

fun reload_loop ::
  "hot_config \<Rightarrow> (string \<rightharpoonup> key_ref) \<Rightarrow> api_key list \<Rightarrow> key_store \<Rightarrow> key_ref \<Rightarrow>
   key_store \<times> key_ref \<times> key_ref list" where
  "reload_loop cfg ex [] st next_ref = (st, next_ref, [])"
| "reload_loop cfg ex (dbKey # dbKeys) st next_ref =
     (case ex (ak_ID dbKey) of
        Some old \<Rightarrow>
          let (st', n', ks) = reload_loop cfg ex dbKeys (st(old := refreshed dbKey (st old))) next_ref
          in (st', n', old # ks)
      | None \<Rightarrow>
          let (st', n', ks) =
                reload_loop cfg ex dbKeys (st(next_ref := fresh_key cfg dbKey)) (Suc next_ref)
          in (st', n', next_ref # ks))"

text \<open>What \<open>reloadKeys\<close> does under the write lock, with the rows and the configuration it has read.\<close>

definition put_keys :: "hot_config \<Rightarrow> api_key list \<Rightarrow> manager \<Rightarrow> manager" where
  "put_keys cfg dbKeys m =
     (let (st, n, ks) = reload_loop cfg (existing_keys (m_store m) (m_keys m)) dbKeys (m_store m) (m_next m)
      in m\<lparr>m_store := st, m_next := n, m_keys := ks\<rparr>)"

definition reloadKeys ::
  "string option \<Rightarrow> hot_config \<Rightarrow> database \<Rightarrow> manager \<Rightarrow> manager \<times> string option" where
  "reloadKeys io hot d m =
     (case GetAllAPIKeys io d of
        Inl e \<Rightarrow> (m, Some e)
      | Inr dbKeys \<Rightarrow> (put_keys (hc_Get hot) dbKeys m, None))"

definition updateStrategy_m :: "hot_config \<Rightarrow> manager \<Rightarrow> manager" where
  "updateStrategy_m hot m =
     (let cfg = hc_Get hot
      in if hc_Strategy cfg \<noteq> m_activeStmt m then
           (case m_strategies m (hc_Strategy cfg) of
              None \<Rightarrow> m
            | Some s \<Rightarrow> m\<lparr>m_activeStmt := hc_Strategy cfg,
                           m_strategies := (m_strategies m)(hc_Strategy cfg \<mapsto> strategy_Reset s)\<rparr>)
         else m)"

text \<open>One tick of \<open>StartReloadLoop\<close>: a failed reload is logged and the strategy still checked.\<close>

definition reload_tick :: "string option \<Rightarrow> hot_config \<Rightarrow> database \<Rightarrow> manager \<Rightarrow> manager" where
  "reload_tick io hot d m = updateStrategy_m hot (fst (reloadKeys io hot d m))"

definition NewManager :: "string option \<Rightarrow> hot_config \<Rightarrow> database \<Rightarrow> key_store \<Rightarrow> string + manager" where
  "NewManager io hot d st =
     (let m = \<lparr>m_store = st, m_next = 0, m_keys = [],
               m_strategies = [''round_robin'' \<mapsto> RoundRobin NewRoundRobinStrategy,
                               ''weighted_round_robin'' \<mapsto> WeightedRoundRobin NewWeightedRoundRobinStrategy],
               m_activeStmt = hc_Strategy (hc_Get hot)\<rparr>
      in case reloadKeys io hot d m of
           (_, Some e) \<Rightarrow> Inl e
         | (m', None) \<Rightarrow> Inr m')"

section \<open>One attempt to acquire a key\<close>

definition try_acquire :: "time \<Rightarrow> pool_key \<Rightarrow> pool_key \<times> bool" where
  "try_acquire t k =
     (let (k1, acquired) = TryConcurrentAcquire k
      in if \<not> acquired then (k1, False)
         else let (k2, ok_rate) = TryRateLimit t k1
              in if \<not> ok_rate then (ConcurrentRelease k2, False) else (k2, True))"

text \<open>What belongs to a key's configuration; everything but its runtime state.\<close>

definition settings :: "pool_key \<Rightarrow> string \<times> string \<times> string \<times> int \<times> int \<times> int \<times> int" where
  "settings k = (pk_ID k, pk_Name k, pk_KeyEncrypted k, pk_Weight k, pk_RateLimitPerMinute k,
     pk_RateLimitPerDay k, pk_ConcurrentLimit k)"

lemma settings_key_ops [simp]:
  "settings (fst (TryConcurrentAcquire k)) = settings k"
  "settings (fst (TryRateLimit t k)) = settings k"
  "settings (ConcurrentRelease k) = settings k"
  by (simp_all add: settings_def pool_key_defs Let_def)

lemma try_acquire_keeps:
  "settings (fst (try_acquire t k)) = settings k"
  "pk_circuitBreaker (fst (try_acquire t k)) = pk_circuitBreaker k"
  by (simp_all add: try_acquire_def split_beta Let_def)

lemma try_acquire_slot:
  assumes "pk_ok k"
  shows "pk_ok (fst (try_acquire t k))"
    and "pk_currentConcurrent (fst (try_acquire t k)) =
      pk_currentConcurrent k + (if snd (try_acquire t k) then 1 else 0)"
proof -
  let ?a = "TryConcurrentAcquire k"
  have a: "pk_ok (fst ?a)" using assms by (rule pk_ok_acquire)
  then have r: "pk_ok (fst (TryRateLimit t (fst ?a)))" by (rule pk_ok_rate)
  show "pk_ok (fst (try_acquire t k))"
    using a r pk_ok_release [OF r] by (simp add: try_acquire_def split_beta Let_def)
  show "pk_currentConcurrent (fst (try_acquire t k)) =
      pk_currentConcurrent k + (if snd (try_acquire t k) then 1 else 0)"
  proof (cases "snd ?a")
    case True
    have "0 \<le> pk_currentConcurrent k" using assms by (simp add: pk_ok_def)
    with True TryConcurrentAcquire_granted [OF assms True] show ?thesis
      using ConcurrentRelease_eq [OF r] by (simp add: try_acquire_def split_beta Let_def)
  next
    case False
    then show ?thesis
      using TryConcurrentAcquire_refused [OF False] by (simp add: try_acquire_def split_beta Let_def)
  qed
qed

lemma try_acquire_granted_iff:
  "snd (try_acquire t k) \<longleftrightarrow> pk_currentConcurrent k < pk_ConcurrentLimit k \<and>
     minute_used t k < pk_RateLimitPerMinute k \<and> day_used t k < pk_RateLimitPerDay k"
proof -
  have "minute_used t (fst (TryConcurrentAcquire k)) = minute_used t k"
      "day_used t (fst (TryConcurrentAcquire k)) = day_used t k"
      "pk_RateLimitPerMinute (fst (TryConcurrentAcquire k)) = pk_RateLimitPerMinute k"
      "pk_RateLimitPerDay (fst (TryConcurrentAcquire k)) = pk_RateLimitPerDay k"
    by (simp_all add: TryConcurrentAcquire_def minute_used_def day_used_def)
  then show ?thesis
    using TryRateLimit_granted_iff [of t "fst (TryConcurrentAcquire k)"]
      TryConcurrentAcquire_granted_iff [of k]
    by (auto simp: try_acquire_def split_beta Let_def)
qed

lemma acquire_loop_step:
  "acquire_loop clk a av st s =
     (if length av \<le> a then (st, s, None)
      else case strategy_Select st s av of
             (s1, None) \<Rightarrow> (st, s1, None)
           | (s1, Some k) \<Rightarrow>
               let st1 = st(k := fst (try_acquire (clk a) (st k)))
               in if snd (try_acquire (clk a) (st k)) then (st1, s1, Some k)
                  else if removeKey av k = [] then (st1, s1, None)
                  else acquire_loop clk (Suc a) (removeKey av k) st1 s1)"
  by (subst acquire_loop.simps)
    (auto simp: try_acquire_def split_beta Let_def split: option.splits)

text \<open>
  What a call does to the store when it hands out \<open>res\<close>: one slot of that key is taken and no
  other; settings and breakers stay.
\<close>

definition handed_out :: "key_store \<Rightarrow> key_store \<Rightarrow> key_ref option \<Rightarrow> bool" where
  "handed_out st st' res \<longleftrightarrow>
     (\<forall>r. settings (st' r) = settings (st r) \<and>
        (pk_ok (st r) \<longrightarrow> pk_ok (st' r) \<and> pk_currentConcurrent (st' r) =
           pk_currentConcurrent (st r) + (if res = Some r then 1 else 0)))"

lemma handed_out_refl: "handed_out st st None"
  by (simp add: handed_out_def)

lemma handed_out_trans: "handed_out st st1 None \<Longrightarrow> handed_out st1 st2 res \<Longrightarrow> handed_out st st2 res"
  by (simp add: handed_out_def)

lemma handed_out_try:
  "handed_out st (st(k := fst (try_acquire t (st k))))
     (if snd (try_acquire t (st k)) then Some k else None)"
  by (auto simp: handed_out_def try_acquire_keeps try_acquire_slot)

text \<open>The loop, with what its result satisfied when it was acquired.\<close>

definition acquirable :: "time \<Rightarrow> pool_key \<Rightarrow> bool" where
  "acquirable t k \<longleftrightarrow> pk_currentConcurrent k < pk_ConcurrentLimit k \<and>
     minute_used t k < pk_RateLimitPerMinute k \<and> day_used t k < pk_RateLimitPerDay k"

definition loop_ok :: "(nat \<Rightarrow> time) \<Rightarrow> key_ref list \<Rightarrow> key_store \<Rightarrow> key_store \<Rightarrow> key_ref option \<Rightarrow> bool" where
  "loop_ok clk av st st' res \<longleftrightarrow> handed_out st st' res \<and>
     (\<forall>r. pk_circuitBreaker (st' r) = pk_circuitBreaker (st r)) \<and>
     (\<forall>k. res = Some k \<longrightarrow> k \<in> set av \<and> (\<exists>j. acquirable (clk j) (st k)))"

lemma loop_ok_again:
  assumes "\<not> snd (try_acquire t (st k))"
    and "loop_ok clk (removeKey av k) (st(k := fst (try_acquire t (st k)))) st' res"
  shows "loop_ok clk av st st' res"
proof -
  let ?st1 = "st(k := fst (try_acquire t (st k)))"
  have "handed_out st ?st1 None" using handed_out_try [of st k t] assms(1) by simp
  moreover have "handed_out ?st1 st' res" using assms(2) unfolding loop_ok_def by blast
  ultimately have "handed_out st st' res" by (rule handed_out_trans)
  moreover have "pk_circuitBreaker (?st1 r) = pk_circuitBreaker (st r)" for r by (simp add: try_acquire_keeps)
  then have "pk_circuitBreaker (st' r) = pk_circuitBreaker (st r)" for r
    using assms(2) unfolding loop_ok_def by metis
  moreover have "j \<in> set av \<and> (\<exists>i. acquirable (clk i) (st j))" if "res = Some j" for j
  proof -
    have "j \<in> set (removeKey av k)" "\<exists>i. acquirable (clk i) (?st1 j)"
      using assms(2) that unfolding loop_ok_def by blast+
    then show ?thesis by (auto simp: removeKey_def)
  qed
  ultimately show ?thesis unfolding loop_ok_def by blast
qed

lemma acquire_loop_ok:
  "acquire_loop clk a av st s = (st', s', res) \<Longrightarrow> loop_ok clk av st st' res"
proof (induction "length av - a" arbitrary: a av st s rule: less_induct)
  case less
  show ?case
  proof (cases "length av \<le> a")
    case True
    with less.prems show ?thesis
      by (subst (asm) acquire_loop_step) (simp add: loop_ok_def handed_out_refl)
  next
    case False
    obtain s1 sel where sel: "strategy_Select st s av = (s1, sel)" by fastforce
    show ?thesis
    proof (cases sel)
      case None
      with False less.prems sel show ?thesis
        by (subst (asm) acquire_loop_step) (simp add: loop_ok_def handed_out_refl)
    next
      case (Some k)
      let ?t = "try_acquire (clk a) (st k)"
      let ?st1 = "st(k := fst ?t)"
      have k: "k \<in> set av" using strat.select_member sel Some by blast
      have out: "handed_out st ?st1 (if snd ?t then Some k else None)" by (rule handed_out_try)
      have cb: "pk_circuitBreaker (?st1 r) = pk_circuitBreaker (st r)" for r
        by (simp add: try_acquire_keeps)
      have "(if snd ?t then (?st1, s1, Some k)
          else if removeKey av k = [] then (?st1, s1, None)
          else acquire_loop clk (Suc a) (removeKey av k) ?st1 s1) = (st', s', res)"
        using less.prems False sel Some
        unfolding acquire_loop_step [of clk a av st s] by (simp add: Let_def)
      then consider (got) "snd ?t" "st' = ?st1" "res = Some k"
        | (stop) "\<not> snd ?t" "st' = ?st1" "res = None"
        | (go) "\<not> snd ?t" "acquire_loop clk (Suc a) (removeKey av k) ?st1 s1 = (st', s', res)"
        by (cases "snd ?t"; cases "removeKey av k = []") (simp_all del: fun_upd_apply)
      then show ?thesis
      proof cases
        case got
        with out cb k show ?thesis
          by (auto simp: loop_ok_def acquirable_def try_acquire_granted_iff simp del: fun_upd_apply)
      next
        case stop
        with out cb show ?thesis by (simp add: loop_ok_def del: fun_upd_apply)
      next
        case go
        have "length (removeKey av k) - Suc a < length av - a"
          using removeKey_length [of av k] False by linarith
        then have "loop_ok clk (removeKey av k) ?st1 st' res" using go(2) by (rule less.hyps)
        with go(1) show ?thesis by (rule loop_ok_again)
      qed
    qed
  qed
qed

section \<open>The whole of GetKey\<close>

text \<open>The first loop changes breakers only.\<close>

definition same_but_breaker :: "pool_key \<Rightarrow> pool_key \<Rightarrow> bool" where
  "same_but_breaker a b \<longleftrightarrow> b\<lparr>pk_circuitBreaker := None\<rparr> = a\<lparr>pk_circuitBreaker := None\<rparr>"

lemma same_but_breakerD:
  assumes "same_but_breaker a b"
  shows "settings b = settings a" and "pk_currentConcurrent b = pk_currentConcurrent a"
    and "pk_ok b = pk_ok a" and "acquirable t b = acquirable t a"
proof -
  have e: "f b = f a" if "\<And>x. f (x\<lparr>pk_circuitBreaker := None\<rparr>) = f x" for f :: "pool_key \<Rightarrow> 'x"
    using that assms unfolding same_but_breaker_def by metis
  show "settings b = settings a" by (rule e) (simp add: settings_def)
  show "pk_currentConcurrent b = pk_currentConcurrent a" by (rule e) simp
  show "pk_ok b = pk_ok a" by (rule e) (simp add: pk_ok_def)
  show "acquirable t b = acquirable t a"
    by (rule e) (simp add: acquirable_def minute_used_def day_used_def)
qed

definition breaker_allows :: "time \<Rightarrow> pool_key \<Rightarrow> bool" where
  "breaker_allows t k \<longleftrightarrow>
     (case pk_circuitBreaker k of None \<Rightarrow> True | Some cb \<Rightarrow> snd (AllowRequest t cb))"

lemma allowed_keys_step:
  obtains k' where "same_but_breaker (st k) k'"
    and "allowed_keys clk i (k # ks) st =
      (let (st', av) = allowed_keys clk (Suc i) ks (st(k := k'))
       in (st', if breaker_allows (clk i) (st k) then k # av else av))"
proof (cases "pk_circuitBreaker (st k)")
  case None
  have "st(k := st k) = st" by simp
  with None that [of "st k"] show thesis
    by (simp add: breaker_allows_def same_but_breaker_def Let_def split_beta)
next
  case (Some cb)
  with that [of "(st k)\<lparr>pk_circuitBreaker := Some (fst (AllowRequest (clk i) cb))\<rparr>"] show thesis
    by (simp add: breaker_allows_def same_but_breaker_def Let_def split_beta)
qed

lemma allowed_keys_ok:
  assumes "allowed_keys clk i ks st = (st', av)" and "distinct ks"
  shows "(\<forall>r. same_but_breaker (st r) (st' r)) \<and> (\<forall>r. r \<notin> set ks \<longrightarrow> st' r = st r) \<and> distinct av \<and>
    set av \<subseteq> set ks \<and> (\<forall>k \<in> set av. \<exists>j. breaker_allows (clk j) (st k)) \<and>
    (\<forall>k \<in> set ks - set av. \<exists>j. \<not> breaker_allows (clk j) (st k))"
  using assms
proof (induction ks arbitrary: i st av)
  case Nil
  then show ?case by (simp add: same_but_breaker_def)
next
  case (Cons k ks)
  obtain k' where k': "same_but_breaker (st k) k'"
      and step: "allowed_keys clk i (k # ks) st =
        (let (st', av) = allowed_keys clk (Suc i) ks (st(k := k'))
         in (st', if breaker_allows (clk i) (st k) then k # av else av))"
    by (rule allowed_keys_step)
  obtain av1 where run: "allowed_keys clk (Suc i) ks (st(k := k')) = (st', av1)"
      and av: "av = (if breaker_allows (clk i) (st k) then k # av1 else av1)"
    using Cons.prems(1) step by (cases "allowed_keys clk (Suc i) ks (st(k := k'))") auto
  have k: "k \<notin> set ks" "distinct ks" using Cons.prems(2) by simp_all
  note IH = Cons.IH [OF run k(2)]
  have same: "same_but_breaker (st r) (st' r)" for r
    using IH k' unfolding same_but_breaker_def by (cases "r = k") auto
  have st: "(st(k := k')) r = st r" if "r \<in> set ks" for r using that k(1) by auto
  have "\<forall>r \<in> set av1. \<exists>j. breaker_allows (clk j) (st r)"
      "\<forall>r \<in> set ks - set av1. \<exists>j. \<not> breaker_allows (clk j) (st r)"
    using IH st by (metis subsetD) (metis DiffD1 IH st)
  then show ?case using IH k(1) same av by auto
qed

definition m_ok :: "manager \<Rightarrow> bool" where
  "m_ok m \<longleftrightarrow> distinct (m_keys m) \<and> distinct (key_ids (m_store m) (m_keys m)) \<and>
     (\<forall>k \<in> set (m_keys m). k < m_next m \<and> pk_ok (m_store m k)) \<and>
     m_strategies m ''round_robin'' \<noteq> None \<and> m_strategies m ''weighted_round_robin'' \<noteq> None"

lemma GetKey_cases:
  assumes ok: "m_ok m" and get: "GetKey ac rc m = (m', res)"
  obtains st av where "allowed_keys ac 0 (m_keys m) (m_store m) = (st, av)"
    and "m_keys m' = m_keys m" and "m_next m' = m_next m"
    and "dom (m_strategies m) \<subseteq> dom (m_strategies m')"
    and "av = [] \<longrightarrow> res = NoKey \<and> m_store m' = st"
    and "av \<noteq> [] \<longrightarrow> (\<exists>s s' r. acquire_loop rc 0 av st s = (m_store m', s', r) \<and>
           res = (case r of None \<Rightarrow> NoKey | Some k \<Rightarrow> GotKey k) \<and>
           (m_strategies m (m_activeStmt m) = Some s \<or> m_strategies m (m_activeStmt m) = None))"
proof -
  obtain st av where al: "allowed_keys ac 0 (m_keys m) (m_store m) = (st, av)" by fastforce
  show thesis
  proof (cases "av = []")
    case True
    with get al that [OF al] show thesis by (auto simp: GetKey_def)
  next
    case False
    define name where
      "name = (if m_strategies m (m_activeStmt m) = None then ''round_robin'' else m_activeStmt m)"
    have "m_strategies m name \<noteq> None" using ok by (auto simp: name_def m_ok_def)
    then obtain s where s: "m_strategies m name = Some s" by blast
    obtain st' s' r where run: "acquire_loop rc 0 av st s = (st', s', r)" by (metis prod_cases3)
    have "m' = m\<lparr>m_store := st', m_strategies := (m_strategies m)(name \<mapsto> s')\<rparr>"
        "res = (case r of None \<Rightarrow> NoKey | Some k \<Rightarrow> GotKey k)"
      using get al False s run by (auto simp: GetKey_def name_def [symmetric] Let_def)
    moreover have "m_strategies m (m_activeStmt m) = Some s \<or> m_strategies m (m_activeStmt m) = None"
      using s by (auto simp: name_def split: if_splits)
    ultimately show thesis using that [OF al] run False by auto
  qed
qed

lemma m_ok_handed_out:
  assumes "m_ok m" and "handed_out (m_store m) (m_store m') res"
    and "m_keys m' = m_keys m" "m_next m' = m_next m" "dom (m_strategies m) \<subseteq> dom (m_strategies m')"
  shows "m_ok m'"
proof -
  have out: "settings (m_store m' r) = settings (m_store m r)"
      "pk_ok (m_store m r) \<Longrightarrow> pk_ok (m_store m' r)" for r
    using assms(2) unfolding handed_out_def by blast+
  then have ids: "key_ids (m_store m') (m_keys m) = key_ids (m_store m) (m_keys m)"
    by (simp add: settings_def)
  have "m_strategies m' ''round_robin'' \<noteq> None" "m_strategies m' ''weighted_round_robin'' \<noteq> None"
    using assms(1,5) by (auto simp: m_ok_def)
  then show ?thesis unfolding m_ok_def assms(3,4) ids using assms(1) out(2) by (simp add: m_ok_def)
qed

text \<open>What a call does to the store and what it hands out.\<close>

lemma GetKey_ok:
  assumes ok: "m_ok m" and get: "GetKey ac rc m = (m', res)"
  shows "handed_out (m_store m) (m_store m') (case res of GotKey k \<Rightarrow> Some k | _ \<Rightarrow> None) \<and>
    m_ok m' \<and> res \<noteq> NilStrategy \<and>
    (\<forall>k. res = GotKey k \<longrightarrow> k \<in> set (m_keys m) \<and> (\<exists>i. breaker_allows (ac i) (m_store m k)) \<and>
       (\<exists>j. acquirable (rc j) (m_store m k)))"
proof -
  obtain st av where al: "allowed_keys ac 0 (m_keys m) (m_store m) = (st, av)"
    and keys: "m_keys m' = m_keys m" "m_next m' = m_next m"
      "dom (m_strategies m) \<subseteq> dom (m_strategies m')"
    and none: "av = [] \<longrightarrow> res = NoKey \<and> m_store m' = st"
    and some: "av \<noteq> [] \<longrightarrow> (\<exists>s s' r. acquire_loop rc 0 av st s = (m_store m', s', r) \<and>
           res = (case r of None \<Rightarrow> NoKey | Some k \<Rightarrow> GotKey k) \<and>
           (m_strategies m (m_activeStmt m) = Some s \<or> m_strategies m (m_activeStmt m) = None))"
    by (rule GetKey_cases [OF ok get])
  have dist: "distinct (m_keys m)" using ok by (simp add: m_ok_def)
  note allowed = allowed_keys_ok [OF al dist]
  have same: "same_but_breaker (m_store m r) (st r)" for r using allowed by blast
  have first: "handed_out (m_store m) st None"
    by (simp add: handed_out_def same_but_breakerD(1-3) [OF same])
  have main: "handed_out (m_store m) (m_store m') (case res of GotKey k \<Rightarrow> Some k | _ \<Rightarrow> None) \<and>
      res \<noteq> NilStrategy \<and>
      (\<forall>k. res = GotKey k \<longrightarrow> k \<in> set (m_keys m) \<and> (\<exists>i. breaker_allows (ac i) (m_store m k)) \<and>
         (\<exists>j. acquirable (rc j) (m_store m k)))"
  proof (cases "av = []")
    case True
    with none first show ?thesis by simp
  next
    case False
    then obtain s s' r where run: "acquire_loop rc 0 av st s = (m_store m', s', r)"
        and res: "res = (case r of None \<Rightarrow> NoKey | Some k \<Rightarrow> GotKey k)" using some by blast
    have loop: "loop_ok rc av st (m_store m') r" using run by (rule acquire_loop_ok)
    have out: "handed_out (m_store m) (m_store m') r"
      using handed_out_trans [OF first] loop unfolding loop_ok_def by blast
    show ?thesis
    proof (cases r)
      case None
      with out res show ?thesis by simp
    next
      case (Some k)
      have "k \<in> set av" "\<exists>j. acquirable (rc j) (st k)" using loop Some unfolding loop_ok_def by blast+
      moreover have "\<exists>i. breaker_allows (ac i) (m_store m k)" "k \<in> set (m_keys m)"
        using allowed calculation(1) by blast+
      ultimately show ?thesis using out res Some by (simp add: same_but_breakerD(4) [OF same])
    qed
  qed
  moreover have "m_ok m'" using m_ok_handed_out [OF ok _ keys] main by blast
  ultimately show ?thesis by blast
qed

section \<open>Reloading keeps what runs\<close>

lemma existing_keys_foldl:
  assumes "distinct (key_ids st ks)"
  shows "foldl (\<lambda>m k. m(pk_ID (st k) \<mapsto> k)) m0 ks i =
    (case find (\<lambda>k. pk_ID (st k) = i) ks of Some k \<Rightarrow> Some k | None \<Rightarrow> m0 i)"
  using assms
proof (induction ks arbitrary: m0)
  case (Cons k ks)
  have "find (\<lambda>j. pk_ID (st j) = pk_ID (st k)) ks = None"
    using Cons.prems by (auto simp: find_none_iff intro: rev_image_eqI)
  with Cons show ?case by (auto split: option.splits)
qed simp

lemma existing_keys_iff:
  assumes "distinct (key_ids st ks)"
  shows "existing_keys st ks i = Some k \<longleftrightarrow> k \<in> set ks \<and> pk_ID (st k) = i"
proof -
  have e: "existing_keys st ks i = find (\<lambda>k. pk_ID (st k) = i) ks"
    using existing_keys_foldl [OF assms] by (simp add: existing_keys_def split: option.splits)
  show ?thesis
    unfolding e using find_key [of "\<lambda>k. pk_ID (st k)" ks k i] assms
    by (auto simp: find_Some_iff)
qed

text \<open>The key that the loop puts in the place of a database row.\<close>

definition reloaded :: "hot_config \<Rightarrow> (string \<rightharpoonup> key_ref) \<Rightarrow> key_store \<Rightarrow> key_ref \<Rightarrow> key_store \<Rightarrow> key_ref \<Rightarrow>
    api_key \<Rightarrow> key_ref \<Rightarrow> bool" where
  "reloaded cfg ex st n st' n' a k \<longleftrightarrow>
     (case ex (ak_ID a) of
        Some old \<Rightarrow> k = old \<and> st' k = refreshed a (st old)
      | None \<Rightarrow> n \<le> k \<and> k < n' \<and> st' k = fresh_key cfg a)"

lemma reload_loop_spec:
  assumes "reload_loop cfg ex as st n = (st', n', ks)" and "distinct (map ak_ID as)"
    and "\<forall>i k. ex i = Some k \<longrightarrow> k < n" and "\<And>i j k. ex i = Some k \<Longrightarrow> ex j = Some k \<Longrightarrow> i = j"
  shows "n \<le> n' \<and> list_all2 (reloaded cfg ex st n st' n') as ks \<and>
    (\<forall>r < n. (\<forall>a \<in> set as. ex (ak_ID a) \<noteq> Some r) \<longrightarrow> st' r = st r)"
  using assms(1-3)
proof (induction as arbitrary: st n ks)
  case Nil
  then show ?case by simp
next
  case (Cons a as)
  have dist: "distinct (map ak_ID as)" "\<forall>b \<in> set as. ak_ID b \<noteq> ak_ID a"
    using Cons.prems(2) by (auto intro: rev_image_eqI)
  show ?case
  proof (cases "ex (ak_ID a)")
    case None
    let ?st = "st(n := fresh_key cfg a)"
    obtain ks1 where run: "reload_loop cfg ex as ?st (Suc n) = (st', n', ks1)" "ks = n # ks1"
      using Cons.prems(1) None by (auto simp: split_beta Let_def prod_eq_iff)
    have "\<forall>i k. ex i = Some k \<longrightarrow> k < Suc n" using Cons.prems(3) less_SucI by blast
    note IH = Cons.IH [OF run(1) dist(1) this]
    have "\<forall>b \<in> set as. ex (ak_ID b) \<noteq> Some n" using Cons.prems(3) by blast
    then have "st' n = ?st n" using IH by blast
    moreover have "reloaded cfg ex st n st' n' b k" if "reloaded cfg ex ?st (Suc n) st' n' b k" for b k
      using that Cons.prems(3) by (fastforce simp: reloaded_def split: option.splits)
    then have "list_all2 (reloaded cfg ex st n st' n') as ks1" using IH list_all2_mono by blast
    moreover have "st' n = ?st n \<Longrightarrow> reloaded cfg ex st n st' n' a n"
      using None IH by (simp add: reloaded_def)
    ultimately show ?thesis using IH None run(2) by simp
  next
    case (Some old)
    let ?st = "st(old := refreshed a (st old))"
    obtain ks1 where run: "reload_loop cfg ex as ?st n = (st', n', ks1)" "ks = old # ks1"
      using Cons.prems(1) Some by (auto simp: split_beta Let_def prod_eq_iff)
    note IH = Cons.IH [OF run(1) dist(1) Cons.prems(3)]
    have other: "ex (ak_ID b) \<noteq> Some old" if "b \<in> set as" for b
      using dist(2) assms(4) Some that by blast
    then have "st' old = ?st old" using IH Cons.prems(3) Some by blast
    moreover have mono: "reloaded cfg ex st n st' n' b k"
      if "reloaded cfg ex ?st n st' n' b k" "b \<in> set as" for b k
      using that(1) other [OF that(2)] by (auto simp: reloaded_def split: option.splits)
    have "list_all2 (reloaded cfg ex ?st n st' n') as ks1" using IH by blast
    then have "list_all2 (reloaded cfg ex st n st' n') as ks1"
      by (rule list.rel_mono_strong) (erule mono)
    moreover have "st' old = ?st old \<Longrightarrow> reloaded cfg ex st n st' n' a old"
      using Some by (simp add: reloaded_def)
    ultimately show ?thesis using IH Some run(2) by simp
  qed
qed

lemma GetAllAPIKeys_distinct:
  assumes "db_ok d" and "GetAllAPIKeys None d = Inr as"
  shows "distinct (map ak_ID as)"
proof -
  let ?rows = "sort_key (\<lambda>r. ak_CreatedAt (kr_key r)) (db_keys d)"
  have "map ak_ID as = map kr_id ?rows"
    using assms(2) by (auto simp: GetAllAPIKeys_def scanAPIKey_def kr_id_def)
  moreover have "mset (map kr_id ?rows) = mset (map kr_id (db_keys d))" by simp
  ultimately show ?thesis using assms(1) unfolding db_ok_def by (metis mset_eq_imp_distinct_iff)
qed

text \<open>SQLite integers have 64 bits.\<close>

definition key_limits_ok :: "database \<Rightarrow> bool" where
  "key_limits_ok d \<longleftrightarrow> (\<forall>r \<in> set (db_keys d). in_i64 (ak_ConcurrentLimit (kr_key r)) \<and>
     in_i64 (ak_RateLimitPerMinute (kr_key r)) \<and> in_i64 (ak_RateLimitPerDay (kr_key r)))"

definition limits_ok :: "api_key \<Rightarrow> bool" where
  "limits_ok a \<longleftrightarrow> in_i64 (ak_ConcurrentLimit a) \<and> in_i64 (ak_RateLimitPerMinute a) \<and>
     in_i64 (ak_RateLimitPerDay a)"

lemma GetAllAPIKeys_limits:
  "key_limits_ok d \<Longrightarrow> GetAllAPIKeys None d = Inr as \<Longrightarrow> a \<in> set as \<Longrightarrow> limits_ok a"
  by (auto simp: GetAllAPIKeys_def key_limits_ok_def limits_ok_def scanAPIKey_def)

lemma pk_ok_refreshed: "pk_ok k \<Longrightarrow> limits_ok a \<Longrightarrow> pk_ok (refreshed a k)"
  by (simp add: pk_ok_def limits_ok_def refreshed_def)

lemma pk_ok_fresh: "limits_ok a \<Longrightarrow> pk_ok (fresh_key cfg a)"
  by (simp add: pk_ok_def limits_ok_def fresh_key_def in_i64_def)

lemma reloaded_keys [simp]:
  "pk_ID (fresh_key cfg a) = ak_ID a" "pk_currentConcurrent (fresh_key cfg a) = 0"
  "pk_ID (refreshed a k) = pk_ID k" "pk_currentConcurrent (refreshed a k) = pk_currentConcurrent k"
  by (simp_all add: fresh_key_def refreshed_def)

lemma put_keys_fields [simp]:
  "m_strategies (put_keys cfg as m) = m_strategies m" "m_activeStmt (put_keys cfg as m) = m_activeStmt m"
  by (simp_all add: put_keys_def Let_def split_beta)

text \<open>The new pool, row by row, and the references it allocated.\<close>

lemma put_keys_spec:
  assumes ok: "m_ok m" and rows: "distinct (map ak_ID as)"
  shows "list_all2 (reloaded cfg (existing_keys (m_store m) (m_keys m)) (m_store m) (m_next m)
           (m_store (put_keys cfg as m)) (m_next (put_keys cfg as m))) as (m_keys (put_keys cfg as m))"
    and "m_next m \<le> m_next (put_keys cfg as m)"
    and "\<forall>r < m_next m. (\<forall>a \<in> set as. existing_keys (m_store m) (m_keys m) (ak_ID a) \<noteq> Some r) \<longrightarrow>
           m_store (put_keys cfg as m) r = m_store m r"
proof -
  let ?ex = "existing_keys (m_store m) (m_keys m)" and ?m = "put_keys cfg as m"
  have run: "reload_loop cfg ?ex as (m_store m) (m_next m) = (m_store ?m, m_next ?m, m_keys ?m)"
    by (simp add: put_keys_def Let_def split_beta)
  have dist: "distinct (key_ids (m_store m) (m_keys m))" using ok by (simp add: m_ok_def)
  have "\<forall>i k. ?ex i = Some k \<longrightarrow> k < m_next m"
    using ok by (simp add: existing_keys_iff [OF dist] m_ok_def)
  moreover have "\<And>i j k. ?ex i = Some k \<Longrightarrow> ?ex j = Some k \<Longrightarrow> i = j"
    by (simp add: existing_keys_iff [OF dist])
  ultimately have "m_next m \<le> m_next ?m \<and>
      list_all2 (reloaded cfg ?ex (m_store m) (m_next m) (m_store ?m) (m_next ?m)) as (m_keys ?m) \<and>
      (\<forall>r < m_next m. (\<forall>a \<in> set as. ?ex (ak_ID a) \<noteq> Some r) \<longrightarrow> m_store ?m r = m_store m r)"
    by (intro reload_loop_spec [OF run rows]) blast+
  then show "list_all2 (reloaded cfg ?ex (m_store m) (m_next m) (m_store ?m) (m_next ?m)) as (m_keys ?m)"
    "m_next m \<le> m_next ?m"
    "\<forall>r < m_next m. (\<forall>a \<in> set as. ?ex (ak_ID a) \<noteq> Some r) \<longrightarrow> m_store ?m r = m_store m r"
    by blast+
qed

text \<open>What a reload did to one allocated key, and where the keys of the new pool come from.\<close>

definition reload_effect :: "hot_config \<Rightarrow> api_key list \<Rightarrow> manager \<Rightarrow> manager \<Rightarrow> bool" where
  "reload_effect hot as m m' \<longleftrightarrow>
     (\<forall>k < m_next m. m_store m' k = m_store m k \<or>
        k \<in> set (m_keys m) \<inter> set (m_keys m') \<and>
        (\<exists>a \<in> set as. ak_ID a = pk_ID (m_store m k) \<and> m_store m' k = refreshed a (m_store m k))) \<and>
     (\<forall>k \<in> set (m_keys m') - set (m_keys m). m_next m \<le> k \<and> k < m_next m' \<and>
        (\<exists>a \<in> set as. m_store m' k = fresh_key hot a)) \<and>
     map (\<lambda>k. pk_ID (m_store m' k)) (m_keys m') = map ak_ID as"

lemma reloaded_ID:
  assumes "m_ok m" and "reloaded hot (existing_keys (m_store m) (m_keys m)) (m_store m) n st' n' a k"
  shows "pk_ID (st' k) = ak_ID a"
proof -
  have dist: "distinct (key_ids (m_store m) (m_keys m))" using assms(1) by (simp add: m_ok_def)
  show ?thesis
    using assms(2) by (auto simp: reloaded_def existing_keys_iff [OF dist] split: option.splits)
qed

lemma put_keys_effect:
  assumes ok: "m_ok m" and rows: "distinct (map ak_ID as)"
  shows "reload_effect cfg as m (put_keys cfg as m)"
proof -
  let ?ex = "existing_keys (m_store m) (m_keys m)" and ?m = "put_keys cfg as m"
  note spec = put_keys_spec [OF ok rows, of cfg]
  have dist: "distinct (key_ids (m_store m) (m_keys m))" using ok by (simp add: m_ok_def)
  have 1: "m_store ?m k = m_store m k \<or> k \<in> set (m_keys m) \<inter> set (m_keys ?m) \<and>
      (\<exists>a \<in> set as. ak_ID a = pk_ID (m_store m k) \<and> m_store ?m k = refreshed a (m_store m k))"
    if k: "k < m_next m" for k
  proof (cases "\<exists>a \<in> set as. ?ex (ak_ID a) = Some k")
    case True
    then obtain a where a: "a \<in> set as" "?ex (ak_ID a) = Some k" by blast
    then obtain j where "j \<in> set (m_keys ?m)" "reloaded cfg ?ex (m_store m) (m_next m) (m_store ?m) (m_next ?m) a j"
      using spec(1) by (metis in_set_conv_nth list_all2_conv_all_nth)
    then have "k \<in> set (m_keys ?m)" "m_store ?m k = refreshed a (m_store m k)"
      using a(2) by (auto simp: reloaded_def)
    moreover have "k \<in> set (m_keys m)" "ak_ID a = pk_ID (m_store m k)"
      using a(2) by (simp_all add: existing_keys_iff [OF dist])
    ultimately show ?thesis using a(1) by blast
  qed (use spec(3) k in blast)
  have 2: "m_next m \<le> k \<and> k < m_next ?m \<and> (\<exists>a \<in> set as. m_store ?m k = fresh_key cfg a)"
    if k: "k \<in> set (m_keys ?m) - set (m_keys m)" for k
  proof -
    obtain a where "a \<in> set as" "reloaded cfg ?ex (m_store m) (m_next m) (m_store ?m) (m_next ?m) a k"
      using spec(1) k by (metis DiffD1 in_set_conv_nth list_all2_conv_all_nth)
    with k show ?thesis by (auto simp: reloaded_def existing_keys_iff [OF dist] split: option.splits)
  qed
  have "map (\<lambda>k. pk_ID (m_store ?m k)) (m_keys ?m) = map ak_ID as"
    using spec(1) reloaded_ID [OF ok] by (intro nth_equalityI) (auto simp: list_all2_conv_all_nth)
  with 1 2 show ?thesis unfolding reload_effect_def by blast
qed

lemma reloadKeys_put:
  assumes "reloadKeys io hot d m = (m', None)" and "db_ok d"
  obtains as where "GetAllAPIKeys None d = Inr as" and "distinct (map ak_ID as)" and "m' = put_keys hot as m"
proof -
  obtain as where as: "GetAllAPIKeys io d = Inr as" "m' = put_keys hot as m"
    using assms(1) by (auto simp: reloadKeys_def split: sum.splits)
  then have "GetAllAPIKeys None d = Inr as" by (cases io) (auto simp: GetAllAPIKeys_def)
  with that as(2) GetAllAPIKeys_distinct [OF assms(2)] show thesis by blast
qed

section \<open>Runs of the pool\<close>

text \<open>
  The calls that workers, the reload goroutine and the start make on the manager, in any order.
  \<open>held\<close> is the multiset of keys that \<open>GetKey\<close> returned and no one has released yet; a worker
  releases only what it holds. A breaker can be marked by anyone who has a pointer.
\<close>

inductive pool_step :: "manager \<times> key_ref multiset \<Rightarrow> manager \<times> key_ref multiset \<Rightarrow> bool" where
  get_key: "GetKey ac rc m = (m', GotKey k) \<Longrightarrow> pool_step (m, held) (m', add_mset k held)"
| get_nothing: "GetKey ac rc m = (m', NoKey) \<Longrightarrow> pool_step (m, held) (m', held)"
| release: "k \<in># held \<Longrightarrow> pool_step (m, held) (ReleaseKey k m, held - {#k#})"
| mark_success: "pool_step (m, held) (fst (MarkSuccess io now k (m, d)), held)"
| mark_failed: "pool_step (m, held) (fst (MarkFailed io now k (m, d)), held)"
| reload: "db_ok d \<Longrightarrow> key_limits_ok d \<Longrightarrow> pool_step (m, held) (reload_tick io hot d m, held)"

inductive_cases pool_stepE: "pool_step (m, held) (m', held')"

definition pool_inv :: "manager \<times> key_ref multiset \<Rightarrow> bool" where
  "pool_inv mh \<longleftrightarrow> (case mh of (m, held) \<Rightarrow> m_ok m \<and> (\<forall>r \<in># held. r < m_next m) \<and>
     (\<forall>r. r \<in> set (m_keys m) \<or> r \<in># held \<longrightarrow>
        pk_ok (m_store m r) \<and> pk_currentConcurrent (m_store m r) = int (count held r)))"

lemma pool_inv_iff: "pool_inv (m, held) \<longleftrightarrow> m_ok m \<and> (\<forall>r \<in># held. r < m_next m) \<and>
     (\<forall>r. r \<in> set (m_keys m) \<or> r \<in># held \<longrightarrow>
        pk_ok (m_store m r) \<and> pk_currentConcurrent (m_store m r) = int (count held r))"
  by (simp add: pool_inv_def)

text \<open>A change of the store that keeps identifiers and well-formed keys.\<close>

lemma m_ok_store:
  assumes "m_ok m" and "\<forall>k \<in> set (m_keys m). pk_ID (st k) = pk_ID (m_store m k) \<and> pk_ok (st k)"
  shows "m_ok (m\<lparr>m_store := st\<rparr>)"
proof -
  have "key_ids st (m_keys m) = key_ids (m_store m) (m_keys m)" using assms(2) by (intro map_cong) simp_all
  then have "distinct (key_ids st (m_keys m))" using assms(1) unfolding m_ok_def by metis
  with assms show ?thesis by (simp add: m_ok_def)
qed

lemma pool_inv_breaker:
  assumes inv: "pool_inv (m, held)" and "same_but_breaker (m_store m k) b"
  shows "pool_inv (m\<lparr>m_store := (m_store m)(k := b)\<rparr>, held)"
proof -
  note same = same_but_breakerD [OF assms(2)]
  have "pk_ID b = pk_ID (m_store m k)" using same(1) by (simp add: settings_def)
  moreover have "m_ok m" "\<forall>r \<in> set (m_keys m). pk_ok (m_store m r)"
    using inv by (auto simp: pool_inv_def)
  ultimately have "m_ok (m\<lparr>m_store := (m_store m)(k := b)\<rparr>)"
    using same(3) by (intro m_ok_store) auto
  then show ?thesis using inv same(2,3) by (simp add: pool_inv_def)
qed

text \<open>A change of one key together with what is held of it.\<close>

lemma pool_inv_modify:
  assumes inv: "pool_inv (m, held)" and k: "k \<in> set (m_keys m) \<or> k \<in># held"
    and f: "pk_ID (f (m_store m k)) = pk_ID (m_store m k)" "pk_ok (f (m_store m k))"
      "pk_currentConcurrent (f (m_store m k)) = int (count held' k)"
    and others: "\<And>r. r \<noteq> k \<Longrightarrow> count held' r = count held r"
  shows "pool_inv (modify_key k f m, held')"
proof -
  have m: "m_ok m" "\<forall>r \<in> set (m_keys m). pk_ok (m_store m r)" using inv by (auto simp: pool_inv_iff)
  then have "m_ok (modify_key k f m)"
    unfolding modify_key_def using f(1,2) by (intro m_ok_store) simp_all
  moreover have held: "r = k \<or> r \<in># held" if "r \<in># held'" for r
    using others [of r] that by (metis count_eq_zero_iff)
  then have "\<forall>r \<in># held'. r < m_next m" using inv k m(1) by (auto simp: pool_inv_iff m_ok_def)
  moreover have "pk_ok (m_store m r) \<and> pk_currentConcurrent (m_store m r) = int (count held' r)"
    if "r \<noteq> k" "r \<in> set (m_keys m) \<or> r \<in># held'" for r
    using inv that held [of r] others [OF that(1)] unfolding pool_inv_iff by metis
  ultimately show ?thesis using f(2,3) by (simp add: pool_inv_iff modify_key_def)
qed

lemma same_but_breaker_upd [simp]: "same_but_breaker x (x\<lparr>pk_circuitBreaker := cb\<rparr>)" "same_but_breaker x x"
  by (simp_all add: same_but_breaker_def)

lemma mark_manager:
  obtains b where "same_but_breaker (m_store m k) b"
    and "fst (MarkSuccess io now k (m, d)) = m\<lparr>m_store := (m_store m)(k := b)\<rparr>"
proof (cases "pk_circuitBreaker (m_store m k)")
  case None
  with that [of "m_store m k"] show thesis by (simp add: MarkSuccess_def Let_def)
next
  case (Some cb)
  with that [of "(m_store m k)\<lparr>pk_circuitBreaker := Some (RecordSuccess cb)\<rparr>"] show thesis
    by (simp add: MarkSuccess_def modify_key_def Let_def)
qed

lemma mark_failed_manager:
  obtains b where "same_but_breaker (m_store m k) b"
    and "fst (MarkFailed io now k (m, d)) = m\<lparr>m_store := (m_store m)(k := b)\<rparr>"
proof (cases "pk_circuitBreaker (m_store m k)")
  case None
  with that [of "m_store m k"] show thesis by (simp add: MarkFailed_def Let_def)
next
  case (Some cb)
  with that [of "(m_store m k)\<lparr>pk_circuitBreaker := Some (RecordFailure now cb)\<rparr>"] show thesis
    by (simp add: MarkFailed_def modify_key_def Let_def)
qed

lemma pool_inv_get:
  assumes inv: "pool_inv (m, held)" and get: "GetKey ac rc m = (m', res)"
    and held: "held' = (case res of GotKey k \<Rightarrow> add_mset k held | _ \<Rightarrow> held)"
  shows "pool_inv (m', held')"
proof -
  have ok: "m_ok m" using inv by (simp add: pool_inv_def)
  have keys: "m_keys m' = m_keys m" "m_next m' = m_next m"
    using GetKey_cases [OF ok get] by metis+
  note got = GetKey_ok [OF ok get]
  have res: "r \<in> set (m_keys m) \<or> r \<in># held" if "r \<in> set (m_keys m) \<or> r \<in># held'" for r
    using got held that by (auto split: get_result.splits)
  have less: "r < m_next m" if "r \<in> set (m_keys m) \<or> r \<in># held" for r
    using inv that by (auto simp: pool_inv_def m_ok_def)
  have slots: "pk_ok (m_store m' r) \<and> pk_currentConcurrent (m_store m' r) = int (count held' r)"
    if r: "r \<in> set (m_keys m) \<or> r \<in># held" for r
  proof -
    have "pk_ok (m_store m r)" "pk_currentConcurrent (m_store m r) = int (count held r)"
      using inv r by (auto simp: pool_inv_def)
    then show ?thesis using got held unfolding handed_out_def by (auto split: get_result.splits)
  qed
  have "m_ok m'" using got by blast
  moreover have "\<forall>r \<in># held'. r < m_next m'" unfolding keys(2) using res less by blast
  ultimately show ?thesis using slots res unfolding pool_inv_iff keys(1) by blast
qed

lemma pool_inv_release:
  assumes inv: "pool_inv (m, held)" and k: "k \<in># held"
  shows "pool_inv (ReleaseKey k m, held - {#k#})"
  unfolding ReleaseKey_def
proof (rule pool_inv_modify [OF inv disjI2 [OF k]])
  have ok: "pk_ok (m_store m k)" "pk_currentConcurrent (m_store m k) = int (count held k)"
    using inv k by (simp_all add: pool_inv_def)
  then show "pk_ok (ConcurrentRelease (m_store m k))" by (intro pk_ok_release)
  have "0 < count held k" using k by simp
  then show "pk_currentConcurrent (ConcurrentRelease (m_store m k)) = int (count (held - {#k#}) k)"
    using ok by (simp add: ConcurrentRelease_eq)
qed simp_all

lemma reload_effect_old:
  assumes "reload_effect hot as m m'" and "k < m_next m"
  shows "m_store m' k = m_store m k \<or> (\<exists>a \<in> set as. m_store m' k = refreshed a (m_store m k))"
proof -
  have "m_store m' k = m_store m k \<or> k \<in> set (m_keys m) \<inter> set (m_keys m') \<and>
      (\<exists>a \<in> set as. ak_ID a = pk_ID (m_store m k) \<and> m_store m' k = refreshed a (m_store m k))"
    using assms by (simp only: reload_effect_def)
  then show ?thesis by metis
qed

lemma reload_effect_new:
  assumes "reload_effect hot as m m'" and "k \<in> set (m_keys m')" and "k \<notin> set (m_keys m)"
  shows "m_next m \<le> k \<and> k < m_next m' \<and> (\<exists>a \<in> set as. m_store m' k = fresh_key hot a)"
  using assms unfolding reload_effect_def by (metis DiffI)

lemma put_keys_slots:
  assumes inv: "pool_inv (m, held)" and rows: "distinct (map ak_ID as)" "\<And>a. a \<in> set as \<Longrightarrow> limits_ok a"
    and less: "r < m_next m" and mem: "r \<in> set (m_keys m) \<or> r \<in># held"
  shows "pk_ok (m_store (put_keys cfg as m) r) \<and>
    pk_currentConcurrent (m_store (put_keys cfg as m) r) = int (count held r)"
proof -
  have k: "pk_ok (m_store m r)" "pk_currentConcurrent (m_store m r) = int (count held r)"
    using inv mem unfolding pool_inv_iff by blast+
  have "m_ok m" using inv by (simp add: pool_inv_def)
  then consider "m_store (put_keys cfg as m) r = m_store m r"
    | a where "a \<in> set as" "m_store (put_keys cfg as m) r = refreshed a (m_store m r)"
    using reload_effect_old [OF put_keys_effect less] rows(1) by blast
  then show ?thesis
    using k pk_ok_refreshed [OF k(1) rows(2)] by cases simp_all
qed

lemma pool_inv_put_keys:
  assumes inv: "pool_inv (m, held)" and rows: "distinct (map ak_ID as)" "\<And>a. a \<in> set as \<Longrightarrow> limits_ok a"
  shows "pool_inv (put_keys cfg as m, held)"
proof -
  let ?m = "put_keys cfg as m"
  have ok: "m_ok m" using inv by (simp add: pool_inv_def)
  note eff = put_keys_effect [OF ok rows(1), of cfg] and spec = put_keys_spec [OF ok rows(1), of cfg]
  note old = put_keys_slots [OF inv rows]
  have held_less: "r \<in># held \<Longrightarrow> r < m_next m" for r using inv by (simp add: pool_inv_def)
  have new: "r < m_next ?m \<and> pk_ok (m_store ?m r) \<and> pk_currentConcurrent (m_store ?m r) = int (count held r)"
    if r: "r \<in> set (m_keys ?m)" for r
  proof (cases "r \<in> set (m_keys m)")
    case True
    then have "r < m_next m" using ok by (simp add: m_ok_def)
    with old [of r] True spec(2) show ?thesis by simp
  next
    case False
    then obtain a where a: "m_next m \<le> r" "r < m_next ?m" "a \<in> set as" "m_store ?m r = fresh_key cfg a"
      using reload_effect_new [OF eff r False] by blast
    then have "r \<notin># held" using held_less by fastforce
    then have "count held r = 0" by (simp add: count_eq_zero_iff)
    with a pk_ok_fresh [OF rows(2) [OF a(3)]] show ?thesis by simp
  qed
  have ids: "key_ids (m_store ?m) (m_keys ?m) = map ak_ID as" using eff by (simp add: reload_effect_def)
  then have "distinct (key_ids (m_store ?m) (m_keys ?m))" using rows(1) by simp
  then have "m_ok ?m" using ok new unfolding m_ok_def by (auto simp: distinct_map)
  moreover have "\<forall>r \<in># held. r < m_next ?m" using held_less spec(2) by fastforce
  ultimately show ?thesis using old new held_less unfolding pool_inv_iff by blast
qed

lemma pool_inv_reload:
  assumes "pool_inv (m, held)" and "db_ok d" "key_limits_ok d" and "reloadKeys io hot d m = (m', None)"
  shows "pool_inv (m', held)"
  using reloadKeys_put [OF assms(4,2)] pool_inv_put_keys [OF assms(1)] GetAllAPIKeys_limits [OF assms(3)]
  by metis

lemma updateStrategy_m_fields [simp]:
  "m_store (updateStrategy_m hot m) = m_store m" "m_keys (updateStrategy_m hot m) = m_keys m"
  "m_next (updateStrategy_m hot m) = m_next m"
  by (simp_all add: updateStrategy_m_def Let_def split: option.splits)

lemma pool_inv_tick:
  assumes inv: "pool_inv (m, held)" and d: "db_ok d" "key_limits_ok d"
  shows "pool_inv (reload_tick io hot d m, held)"
proof -
  obtain m1 e where rel: "reloadKeys io hot d m = (m1, e)" by fastforce
  have "pool_inv (m1, held)"
  proof (cases e)
    case None
    with rel pool_inv_reload [OF inv d] show ?thesis by simp
  next
    case (Some s)
    with rel have "m1 = m" by (auto simp: reloadKeys_def split_beta Let_def split: sum.splits)
    with inv show ?thesis by simp
  qed
  moreover have "dom (m_strategies m1) \<subseteq> dom (m_strategies (updateStrategy_m hot m1))"
    by (auto simp: updateStrategy_m_def Let_def split: option.splits)
  ultimately show ?thesis
    unfolding reload_tick_def rel fst_conv by (auto simp: pool_inv_iff m_ok_def)
qed

lemma pool_step_inv: "pool_step mh mh' \<Longrightarrow> pool_inv mh \<Longrightarrow> pool_inv mh'"
proof (induction rule: pool_step.induct)
  case (get_key ac rc m m' k held)
  then show ?case using pool_inv_get [of m held ac rc m' "GotKey k"] by simp
next
  case (get_nothing ac rc m m' held)
  then show ?case using pool_inv_get [of m held ac rc m' NoKey] by simp
next
  case (release k held m)
  then show ?case using pool_inv_release by blast
next
  case (mark_success m held io now k d)
  obtain b where "same_but_breaker (m_store m k) b"
      "fst (MarkSuccess io now k (m, d)) = m\<lparr>m_store := (m_store m)(k := b)\<rparr>" by (rule mark_manager)
  with mark_success show ?case using pool_inv_breaker by simp
next
  case (mark_failed m held io now k d)
  obtain b where "same_but_breaker (m_store m k) b"
      "fst (MarkFailed io now k (m, d)) = m\<lparr>m_store := (m_store m)(k := b)\<rparr>" by (rule mark_failed_manager)
  with mark_failed show ?case using pool_inv_breaker by simp
next
  case (reload d m held io hot)
  then show ?case using pool_inv_tick by blast
qed

lemma NewManager_inv:
  assumes "NewManager io hot d st = Inr m" and "db_ok d" and "key_limits_ok d"
  shows "pool_inv (m, {#})"
proof -
  let ?m0 = "\<lparr>m_store = st, m_next = 0, m_keys = [],
     m_strategies = [''round_robin'' \<mapsto> RoundRobin NewRoundRobinStrategy,
       ''weighted_round_robin'' \<mapsto> WeightedRoundRobin NewWeightedRoundRobinStrategy],
     m_activeStmt = hc_Strategy (hc_Get hot)\<rparr>"
  have "reloadKeys io hot d ?m0 = (m, None)"
    using assms(1) by (auto simp: NewManager_def Let_def split: prod.splits option.splits)
  moreover have "pool_inv (?m0, {#})" by (simp add: pool_inv_def m_ok_def)
  ultimately show ?thesis using pool_inv_reload assms(2,3) by blast
qed

lemma NewManager_strategies:
  "NewManager io hot d st = Inr m \<Longrightarrow>
     m_strategies m ''round_robin'' = Some (RoundRobin NewRoundRobinStrategy) \<and>
     m_activeStmt m = hc_Strategy hot"
  by (auto simp: NewManager_def reloadKeys_def Let_def split: sum.splits)

section \<open>Properties\<close>

definition example_row :: "string \<Rightarrow> int \<Rightarrow> api_key" where
  "example_row i conc =
     \<lparr>ak_ID = i, ak_Name = i, ak_KeyEncrypted = ''00'', ak_Weight = 1, ak_IsHealthy = True,
      ak_FailureCount = 0, ak_CircuitState = ''closed'', ak_LastUsedAt = None,
      ak_RateLimitPerMinute = 60, ak_RateLimitPerDay = 1000, ak_ConcurrentLimit = conc,
      ak_CurrentConcurrent = 0, ak_CreatedAt = 0, ak_UpdatedAt = 0\<rparr>"

text \<open>Two keys; the first has no free slot, the second has five.\<close>

definition example_pool_db :: database where
  "example_pool_db = exec_writes [(None, 1 * Second, CreateAPIKeyCall (example_row ''k1'' 0)),
     (None, 2 * Second, CreateAPIKeyCall (example_row ''k2'' 5))] empty_db"

definition example_manager :: manager where
  "example_manager =
     (case NewManager None example_hot example_pool_db (\<lambda>_. fresh_key example_hot (example_row [] 0))
      of Inr m \<Rightarrow> m | Inl _ \<Rightarrow> undefined)"

lemma example_pool_db_ok: "db_ok example_pool_db" "key_limits_ok example_pool_db"
proof -
  show "db_ok example_pool_db" unfolding example_pool_db_def by (intro exec_writes_ok empty_db_ok)
  show "key_limits_ok example_pool_db" by code_simp
qed

lemma example_manager_new:
  "NewManager None example_hot example_pool_db (\<lambda>_. fresh_key example_hot (example_row [] 0)) =
     Inr example_manager"
proof -
  let ?n = "NewManager None example_hot example_pool_db (\<lambda>_. fresh_key example_hot (example_row [] 0))"
  have "isl ?n = False" by code_simp
  then show ?thesis by (cases ?n) (simp_all add: example_manager_def)
qed

lemma example_manager_inv: "pool_inv (example_manager, {#})"
  by (rule NewManager_inv [OF example_manager_new example_pool_db_ok])

text \<open>No concurrency slot is ever leaked or lost: from a manager built from the database, through
  any sequence of \<open>GetKey\<close>, \<open>ReleaseKey\<close>, breaker marks and reloads (which may remove, add and
  reconfigure keys while workers hold them), the concurrency counter of every key in the pool or
  in some worker's hand is exactly the number of times it is held, and the pool stays well
  formed.\<close>

theorem no_slot_is_leaked:
  assumes "NewManager io hot d st = Inr m0" and "db_ok d" and "key_limits_ok d"
    and "pool_step\<^sup>*\<^sup>* (m0, {#}) (m, held)"
  shows "m_ok m \<and> (\<forall>r. r \<in> set (m_keys m) \<or> r \<in># held \<longrightarrow>
    pk_currentConcurrent (m_store m r) = int (count held r))"
proof -
  have "pool_inv (m, held)"
    using assms(4) NewManager_inv [OF assms(1-3)]
    by (induction rule: rtranclp_induct) (auto intro: pool_step_inv)
  then show ?thesis by (simp add: pool_inv_def)
qed

theorem no_slot_is_leaked_witness:
  "\<exists>m. pool_step\<^sup>*\<^sup>* (example_manager, {#}) (m, {#1#}) \<and> pk_currentConcurrent (m_store m 1) = 1"
proof -
  define m1 where "m1 = fst (GetKey (\<lambda>_. 0) (\<lambda>_. 0) example_manager)"
  define m2 where "m2 = fst (GetKey (\<lambda>_. 0) (\<lambda>_. 0) m1)"
  have "snd (GetKey (\<lambda>_. 0) (\<lambda>_. 0) example_manager) = NoKey" by code_simp
  then have "GetKey (\<lambda>_. 0) (\<lambda>_. 0) example_manager = (m1, NoKey)" by (simp add: m1_def prod_eq_iff)
  then have "pool_step (example_manager, {#}) (m1, {#})" by (rule get_nothing)
  moreover have "snd (GetKey (\<lambda>_. 0) (\<lambda>_. 0) m1) = GotKey 1" unfolding m1_def by code_simp
  then have "GetKey (\<lambda>_. 0) (\<lambda>_. 0) m1 = (m2, GotKey 1)" by (simp add: m2_def prod_eq_iff)
  then have "pool_step (m1, {#}) (m2, {#1#})" by (rule get_key)
  ultimately have run: "pool_step\<^sup>*\<^sup>* (example_manager, {#}) (m2, {#1#})"
    by (rule converse_rtranclp_into_rtranclp [OF _ r_into_rtranclp])
  with no_slot_is_leaked [OF example_manager_new example_pool_db_ok run] show ?thesis by auto
qed

text \<open>C18: \<open>GetKey\<close> hands out only keys of the pool whose breaker allowed a request and that had a
  free slot and room in both rate windows at a reading taken during the call; it takes one slot
  of that key, none of any other, and changes no setting; and it never dereferences a missing
  strategy.\<close>

theorem get_key_hands_out_available:
  assumes "m_ok m" and "GetKey ac rc m = (m', res)"
  shows "res \<noteq> NilStrategy \<and> m_ok m' \<and>
    (\<forall>k. res = GotKey k \<longrightarrow> k \<in> set (m_keys m) \<and> (\<exists>i. breaker_allows (ac i) (m_store m k)) \<and>
       (\<exists>j. acquirable (rc j) (m_store m k))) \<and>
    (\<forall>r \<in> set (m_keys m). settings (m_store m' r) = settings (m_store m r) \<and>
       pk_currentConcurrent (m_store m' r) =
         pk_currentConcurrent (m_store m r) + (if res = GotKey r then 1 else 0))"
proof -
  have "pk_ok (m_store m r)" if "r \<in> set (m_keys m)" for r using assms(1) that by (simp add: m_ok_def)
  with GetKey_ok [OF assms] show ?thesis
    unfolding handed_out_def by (auto split: get_result.splits)
qed

definition example_manager2 :: manager where
  "example_manager2 = example_manager\<lparr>m_keys := [1]\<rparr>"

lemma example_manager2_ok: "m_ok example_manager2"
proof -
  have "m_keys example_manager = [0, 1]" by code_simp
  then show ?thesis
    using example_manager_inv by (simp add: example_manager2_def pool_inv_def m_ok_def)
qed

theorem get_key_hands_out_available_witness:
  "\<exists>m'. GetKey (\<lambda>_. 100) (\<lambda>_. 100) example_manager2 = (m', GotKey 1) \<and>
     pk_currentConcurrent (m_store m' 1) = pk_currentConcurrent (m_store example_manager2 1) + 1"
proof -
  let ?g = "GetKey (\<lambda>_. 100) (\<lambda>_. 100) example_manager2"
  have "snd ?g = GotKey 1" "m_keys example_manager2 = [1]" by code_simp+
  with get_key_hands_out_available [OF example_manager2_ok, of "\<lambda>_. 100" "\<lambda>_. 100" "fst ?g" "snd ?g"]
  show ?thesis by (intro exI [of _ "fst ?g"]) (simp add: prod_eq_iff)
qed

text \<open>What a key accumulates while it is used, and what a row says of it.\<close>

definition runtime_state ::
  "pool_key \<Rightarrow> int \<times> int \<times> int \<times> time \<times> time \<times> circuit_breaker option" where
  "runtime_state k = (pk_currentConcurrent k, pk_minuteCounter k, pk_dayCounter k, pk_minuteResetAt k,
     pk_dayResetAt k, pk_circuitBreaker k)"

definition row_settings :: "api_key \<Rightarrow> string \<times> string \<times> string \<times> int \<times> int \<times> int \<times> int" where
  "row_settings a = (ak_ID a, ak_Name a, ak_KeyEncrypted a, ak_Weight a, ak_RateLimitPerMinute a,
     ak_RateLimitPerDay a, ak_ConcurrentLimit a)"

lemma refreshed_parts:
  "pk_ID k = ak_ID a \<Longrightarrow> settings (refreshed a k) = row_settings a"
  "runtime_state (refreshed a k) = runtime_state k"
  by (simp_all add: settings_def row_settings_def runtime_state_def refreshed_def)

lemma fresh_parts:
  "settings (fresh_key hot a) = row_settings a"
  "runtime_state (fresh_key hot a) = (0, 0, 0, zero_time, zero_time,
     Some (NewCircuitBreaker (hc_CircuitBreakerThreshold hot) (i64 (hc_CircuitBreakerOpenDuration hot * Second))))"
  by (simp_all add: settings_def row_settings_def runtime_state_def fresh_key_def)

text \<open>C26: a reload brings the pool to the rows of the database, one key per row and in their order,
  with the row's settings, and without disturbing what runs. A row whose identifier a key of the
  pool has gets that very key, with its slots, its rate windows and its breaker as they were; a row
  with another identifier gets a new key at a new reference, with no slot taken, empty windows and
  a new breaker with the threshold and the duration of the configuration. Every key that is left
  out stays as it was behind its pointer, so that a worker can still release it.\<close>

theorem reload_preserves_runtime_state:
  assumes "m_ok m" and "db_ok d" and "reloadKeys io hot d m = (m', None)"
  shows "\<exists>rows. GetAllAPIKeys None d = Inr rows \<and> length (m_keys m') = length rows \<and>
    (\<forall>j < length rows. settings (m_store m' (m_keys m' ! j)) = row_settings (rows ! j) \<and>
       (if \<exists>old \<in> set (m_keys m). pk_ID (m_store m old) = ak_ID (rows ! j)
        then m_keys m' ! j \<in> set (m_keys m) \<and> pk_ID (m_store m (m_keys m' ! j)) = ak_ID (rows ! j) \<and>
          runtime_state (m_store m' (m_keys m' ! j)) = runtime_state (m_store m (m_keys m' ! j))
        else m_next m \<le> m_keys m' ! j \<and> runtime_state (m_store m' (m_keys m' ! j)) =
          (0, 0, 0, zero_time, zero_time, Some (NewCircuitBreaker (hc_CircuitBreakerThreshold hot)
             (i64 (hc_CircuitBreakerOpenDuration hot * Second)))))) \<and>
    (\<forall>k < m_next m. k \<notin> set (m_keys m') \<longrightarrow> m_store m' k = m_store m k)"
proof -
  obtain as where as: "GetAllAPIKeys None d = Inr as" "distinct (map ak_ID as)" and m': "m' = put_keys hot as m"
    by (rule reloadKeys_put [OF assms(3,2)])
  have dist: "distinct (key_ids (m_store m) (m_keys m))" using assms(1) by (simp add: m_ok_def)
  note ex = existing_keys_iff [OF dist]
  have rows: "list_all2 (reloaded hot (existing_keys (m_store m) (m_keys m)) (m_store m) (m_next m)
      (m_store m') (m_next m')) as (m_keys m')"
    unfolding m' by (rule put_keys_spec(1) [OF assms(1) as(2)])
  have row: "settings (m_store m' k) = row_settings a \<and>
      (if \<exists>old \<in> set (m_keys m). pk_ID (m_store m old) = ak_ID a
       then k \<in> set (m_keys m) \<and> pk_ID (m_store m k) = ak_ID a \<and> runtime_state (m_store m' k) = runtime_state (m_store m k)
       else m_next m \<le> k \<and> runtime_state (m_store m' k) = (0, 0, 0, zero_time, zero_time,
         Some (NewCircuitBreaker (hc_CircuitBreakerThreshold hot) (i64 (hc_CircuitBreakerOpenDuration hot * Second)))))"
    if "reloaded hot (existing_keys (m_store m) (m_keys m)) (m_store m) (m_next m) (m_store m') (m_next m') a k" for a k
  proof (cases "existing_keys (m_store m) (m_keys m) (ak_ID a)")
    case None
    then have "\<not> (\<exists>old \<in> set (m_keys m). pk_ID (m_store m old) = ak_ID a)" using ex by (metis option.distinct(1))
    with that None show ?thesis by (simp add: reloaded_def fresh_parts)
  next
    case (Some old)
    then have "old \<in> set (m_keys m)" "pk_ID (m_store m old) = ak_ID a" using ex by simp_all
    with that Some show ?thesis by (auto simp: reloaded_def refreshed_parts)
  qed
  have "m_store m' k = m_store m k" if k: "k < m_next m" "k \<notin> set (m_keys m')" for k
    using put_keys_effect [OF assms(1) as(2), of hot] k unfolding m' reload_effect_def by blast
  moreover have "length (m_keys m') = length as" using rows by (simp add: list_all2_lengthD)
  moreover have "reloaded hot (existing_keys (m_store m) (m_keys m)) (m_store m) (m_next m) (m_store m') (m_next m')
      (as ! j) (m_keys m' ! j)" if "j < length as" for j
    using rows that by (rule list_all2_nthD)
  then have "\<forall>j < length as. settings (m_store m' (m_keys m' ! j)) = row_settings (as ! j) \<and>
       (if \<exists>old \<in> set (m_keys m). pk_ID (m_store m old) = ak_ID (as ! j)
        then m_keys m' ! j \<in> set (m_keys m) \<and> pk_ID (m_store m (m_keys m' ! j)) = ak_ID (as ! j) \<and>
          runtime_state (m_store m' (m_keys m' ! j)) = runtime_state (m_store m (m_keys m' ! j))
        else m_next m \<le> m_keys m' ! j \<and> runtime_state (m_store m' (m_keys m' ! j)) =
          (0, 0, 0, zero_time, zero_time, Some (NewCircuitBreaker (hc_CircuitBreakerThreshold hot)
             (i64 (hc_CircuitBreakerOpenDuration hot * Second)))))"
    by (intro allI impI row)
  ultimately show ?thesis using as(1) by (intro exI [of _ as] conjI allI impI) simp_all
qed

theorem reload_preserves_runtime_state_witness:
  "\<exists>m'. reloadKeys None example_hot example_pool_db (modify_key 0 (\<lambda>x. x\<lparr>pk_dayCounter := 7\<rparr>) example_manager) = (m', None) \<and>
     length (m_keys m') = 2 \<and> pk_dayCounter (m_store m' (m_keys m' ! 0)) = 7"
proof -
  let ?m = "modify_key 0 (\<lambda>x. x\<lparr>pk_dayCounter := 7\<rparr>) example_manager"
  have "m_ok example_manager" using example_manager_inv by (simp add: pool_inv_def)
  moreover from this have "0 \<in> set (m_keys example_manager) \<Longrightarrow> pk_ok (m_store example_manager 0)" by (simp add: m_ok_def)
  ultimately have ok: "m_ok ?m"
    unfolding modify_key_def by (intro m_ok_store) (auto simp: pk_ok_def m_ok_def in_i64_def)
  have "Option.is_none (snd (reloadKeys None example_hot example_pool_db ?m))" by code_simp
  then obtain m' where r: "reloadKeys None example_hot example_pool_db ?m = (m', None)"
    by (metis Option.is_none_def prod.collapse)
  have facts: "map ak_ID (projr (GetAllAPIKeys None example_pool_db)) = [''k1'', ''k2'']"
      "m_keys ?m = [0, 1]" "pk_ID (m_store ?m 0) = ''k1''" "pk_ID (m_store ?m 1) = ''k2''"
      "pk_dayCounter (m_store ?m 0) = 7" by code_simp+
  obtain rows where rows: "GetAllAPIKeys None example_pool_db = Inr rows" "length (m_keys m') = length rows"
      and row: "\<forall>j < length rows. settings (m_store m' (m_keys m' ! j)) = row_settings (rows ! j) \<and>
       (if \<exists>old \<in> set (m_keys ?m). pk_ID (m_store ?m old) = ak_ID (rows ! j)
        then m_keys m' ! j \<in> set (m_keys ?m) \<and> pk_ID (m_store ?m (m_keys m' ! j)) = ak_ID (rows ! j) \<and>
          runtime_state (m_store m' (m_keys m' ! j)) = runtime_state (m_store ?m (m_keys m' ! j))
        else m_next ?m \<le> m_keys m' ! j \<and> runtime_state (m_store m' (m_keys m' ! j)) =
          (0, 0, 0, zero_time, zero_time, Some (NewCircuitBreaker (hc_CircuitBreakerThreshold example_hot)
             (i64 (hc_CircuitBreakerOpenDuration example_hot * Second)))))"
    using reload_preserves_runtime_state [OF ok example_pool_db_ok(1) r] by blast
  have ids: "map ak_ID rows = [''k1'', ''k2'']" using facts(1) rows(1) by simp
  then have len: "length rows = 2" by (metis length_map length_Cons list.size(3) numeral_2_eq_2)
  have first: "ak_ID (rows ! 0) = ''k1''" using ids len by (metis nth_Cons_0 nth_map pos2)
  have "\<exists>old \<in> set (m_keys ?m). pk_ID (m_store ?m old) = ak_ID (rows ! 0)"
    unfolding facts(2) first using facts(3) by auto
  moreover have "0 < length rows" using len by simp
  ultimately have at: "m_keys m' ! 0 \<in> set (m_keys ?m)" "pk_ID (m_store ?m (m_keys m' ! 0)) = ''k1''"
      "runtime_state (m_store m' (m_keys m' ! 0)) = runtime_state (m_store ?m (m_keys m' ! 0))"
    using row unfolding first [symmetric] by presburger+
  have "m_keys m' ! 0 \<noteq> 1" using at(2) facts(4) by auto
  with at(1) have "m_keys m' ! 0 = 0" unfolding facts(2) by auto
  with at(3) facts(5) have "pk_dayCounter (m_store m' (m_keys m' ! 0)) = 7" by (simp add: runtime_state_def)
  with r rows(2) len show ?thesis by auto
qed

section \<open>A key out of service\<close>

text \<open>
  What others may do to the pool from time \<open>t0\<close> on and before \<open>t1\<close>, without a success of \<open>k\<close>: take
  and release keys, mark failures of any key and successes of other keys, reload keys and strategy.
\<close>

inductive without_success :: "key_ref \<Rightarrow> time \<Rightarrow> time \<Rightarrow> manager \<Rightarrow> manager \<Rightarrow> bool" for k t0 t1 where
  another_get: "\<forall>i. ac i < t1 \<Longrightarrow> without_success k t0 t1 m (fst (GetKey ac rc m))"
| another_release: "without_success k t0 t1 m (ReleaseKey j m)"
| other_success: "j \<noteq> k \<Longrightarrow> without_success k t0 t1 m (fst (MarkSuccess io now j (m, d)))"
| another_failure: "t0 \<le> now \<Longrightarrow> without_success k t0 t1 m (fst (MarkFailed io now j (m, d)))"
| another_reload: "db_ok d \<Longrightarrow> key_limits_ok d \<Longrightarrow> without_success k t0 t1 m (reload_tick io hot d m)"

text \<open>Every well-formed pool is one in which someone holds the slots that are taken.\<close>

lemma m_ok_held:
  assumes "m_ok m"
  obtains held where "pool_inv (m, held)"
proof -
  have "\<exists>held. \<forall>r. count held r = (if r \<in> set ks then nat (pk_currentConcurrent (m_store m r)) else 0)"
    if "distinct ks" for ks
    using that
  proof (induction ks)
    case (Cons k ks)
    then obtain held where held: "\<forall>r. count held r = (if r \<in> set ks then nat (pk_currentConcurrent (m_store m r)) else 0)"
      by auto
    let ?held = "held + replicate_mset (nat (pk_currentConcurrent (m_store m k))) k"
    have "\<forall>r. count ?held r = (if r \<in> set (k # ks) then nat (pk_currentConcurrent (m_store m r)) else 0)"
      using held Cons.prems by auto
    then show ?case by blast
  qed (auto intro: exI [of _ "{#}"])
  moreover have "distinct (m_keys m)" using assms by (simp add: m_ok_def)
  ultimately obtain held where
    held: "\<And>r. count held r = (if r \<in> set (m_keys m) then nat (pk_currentConcurrent (m_store m r)) else 0)" by blast
  have "r \<in> set (m_keys m)" if "r \<in># held" for r
    using that held [of r] by (auto simp flip: count_greater_zero_iff split: if_splits)
  with assms held have "pool_inv (m, held)" by (auto simp: pool_inv_iff m_ok_def pk_ok_def)
  with that show thesis .
qed

text \<open>The breaker is open since \<open>t0\<close> or later and refuses before \<open>t1\<close>.\<close>

definition refusing :: "key_ref \<Rightarrow> time \<Rightarrow> time \<Rightarrow> manager \<Rightarrow> bool" where
  "refusing k t0 t1 m \<longleftrightarrow> m_ok m \<and> k < m_next m \<and>
     (\<exists>cb. pk_circuitBreaker (m_store m k) = Some cb \<and> cb_state cb = CircuitStateOpen \<and>
        t0 \<le> cb_lastFailedAt cb \<and> 0 < cb_openDuration cb \<and> cb_openDuration cb < 2 ^ 63 \<and>
        t1 \<le> t0 + cb_openDuration cb)"

lemma refused_before:
  assumes "cb_state cb = CircuitStateOpen" "t0 \<le> cb_lastFailedAt cb" "0 < cb_openDuration cb"
    "cb_openDuration cb < 2 ^ 63" "t1 \<le> t0 + cb_openDuration cb" "t < t1"
  shows "AllowRequest t cb = (cb, False)"
proof -
  have "\<not> cb_openDuration cb \<le> time_sub t (cb_lastFailedAt cb)"
    using assms time_sub_ge_iff [of "cb_openDuration cb" t "cb_lastFailedAt cb"] by (simp add: not_le algebra_simps)
  with assms(1) show ?thesis by (simp add: AllowRequest_def)
qed

lemma allowed_keys_refused:
  assumes "allowed_keys ac i ks st = (st', av)" and "pk_circuitBreaker (st k) = Some cb"
    and "\<forall>j. AllowRequest (ac j) cb = (cb, False)"
  shows "pk_circuitBreaker (st' k) = Some cb"
  using assms(1,2)
proof (induction ks arbitrary: i st av)
  case (Cons x ks)
  show ?case
  proof (cases "pk_circuitBreaker (st x)")
    case None
    with Cons show ?thesis by (auto simp: split_beta Let_def prod_eq_iff)
  next
    case (Some cbx)
    let ?st = "st(x := (st x)\<lparr>pk_circuitBreaker := Some (fst (AllowRequest (ac i) cbx))\<rparr>)"
    have "pk_circuitBreaker (?st k) = Some cb" using Some Cons.prems(2) assms(3) by (cases "x = k") auto
    moreover have "allowed_keys ac (Suc i) ks ?st = (st', snd (allowed_keys ac (Suc i) ks ?st))"
      using Cons.prems(1) Some by (auto simp: split_beta Let_def prod_eq_iff)
    ultimately show ?thesis using Cons.IH by blast
  qed
qed simp

lemma GetKey_refused:
  assumes "refusing k t0 t1 m" and "\<forall>i. ac i < t1"
  shows "snd (GetKey ac rc m) \<noteq> GotKey k" and "refusing k t0 t1 (fst (GetKey ac rc m))"
proof -
  obtain m' res where get: "GetKey ac rc m = (m', res)" by fastforce
  have ok: "m_ok m" using assms(1) by (simp add: refusing_def)
  obtain cb where cb: "pk_circuitBreaker (m_store m k) = Some cb" "cb_state cb = CircuitStateOpen"
      "t0 \<le> cb_lastFailedAt cb" "0 < cb_openDuration cb" "cb_openDuration cb < 2 ^ 63" "t1 \<le> t0 + cb_openDuration cb"
    using assms(1) by (auto simp: refusing_def)
  have no: "AllowRequest (ac i) cb = (cb, False)" for i using refused_before [OF cb(2-6)] assms(2) by blast
  have res: "res = GotKey k \<Longrightarrow> \<exists>i. breaker_allows (ac i) (m_store m k)" and ok': "m_ok m'"
    using GetKey_ok [OF ok get] by blast+
  then show "snd (GetKey ac rc m) \<noteq> GotKey k" using no cb(1) by (auto simp: get breaker_allows_def)
  obtain st av where al: "allowed_keys ac 0 (m_keys m) (m_store m) = (st, av)" and keys: "m_next m' = m_next m"
      and none: "av = [] \<longrightarrow> m_store m' = st"
      and some: "av \<noteq> [] \<longrightarrow> (\<exists>s s' r. acquire_loop rc 0 av st s = (m_store m', s', r))"
    by (rule GetKey_cases [OF ok get]) blast
  have "pk_circuitBreaker (st k) = Some cb" by (rule allowed_keys_refused [OF al cb(1)]) (simp add: no)
  then have "pk_circuitBreaker (m_store m' k) = Some cb"
    using none some acquire_loop_ok unfolding loop_ok_def by (cases "av = []") metis+
  with assms(1) ok' keys cb show "refusing k t0 t1 (fst (GetKey ac rc m))" by (simp add: refusing_def get)
qed

lemma reload_refused:
  assumes ref: "refusing k t0 t1 m" and d: "db_ok d" "key_limits_ok d"
  shows "refusing k t0 t1 (reload_tick io hot d m)"
proof -
  have ok: "m_ok m" and k: "k < m_next m" using ref by (simp_all add: refusing_def)
  obtain held where "pool_inv (m, held)" by (rule m_ok_held [OF ok])
  from pool_inv_tick [OF this d] have ok': "m_ok (reload_tick io hot d m)" by (auto simp: pool_inv_iff)
  obtain m1 e where rel: "reloadKeys io hot d m = (m1, e)" by fastforce
  have "m_next m \<le> m_next m1 \<and> pk_circuitBreaker (m_store m1 k) = pk_circuitBreaker (m_store m k)"
  proof (cases e)
    case None
    then obtain as where as: "distinct (map ak_ID as)" "m1 = put_keys hot as m"
      using reloadKeys_put [OF _ d(1)] rel by metis
    have "m_next m \<le> m_next m1" unfolding as(2) by (rule put_keys_spec(2) [OF ok as(1)])
    moreover have "m_store m1 k = m_store m k \<or> (\<exists>a \<in> set as. m_store m1 k = refreshed a (m_store m k))"
      unfolding as(2) by (rule reload_effect_old [OF put_keys_effect [OF ok as(1)] k])
    ultimately show ?thesis by (auto simp: refreshed_def)
  next
    case (Some err)
    with rel have "m1 = m" by (auto simp: reloadKeys_def split: sum.splits)
    then show ?thesis by simp
  qed
  with ref ok' k show ?thesis by (auto simp: refusing_def reload_tick_def rel)
qed

lemma without_success_refused: "without_success k t0 t1 m m' \<Longrightarrow> refusing k t0 t1 m \<Longrightarrow> refusing k t0 t1 m'"
proof (induction rule: without_success.induct)
  case (another_get ac m rc)
  then show ?case using GetKey_refused(2) by blast
next
  case (another_release m j)
  then have "m_ok (ReleaseKey j m)"
    unfolding ReleaseKey_def modify_key_def refusing_def by (intro m_ok_store) (auto simp: m_ok_def pk_ok_release)
  moreover have "pk_circuitBreaker (m_store (ReleaseKey j m) k) = pk_circuitBreaker (m_store m k)"
    by (simp add: ReleaseKey_def modify_key_def ConcurrentRelease_def)
  moreover have "m_next (ReleaseKey j m) = m_next m" by (simp add: ReleaseKey_def modify_key_def)
  ultimately show ?case using another_release by (simp add: refusing_def)
next
  case (other_success j m io now d)
  obtain b where b: "same_but_breaker (m_store m j) b"
      "fst (MarkSuccess io now j (m, d)) = m\<lparr>m_store := (m_store m)(j := b)\<rparr>" by (rule mark_manager)
  then have "m_ok (fst (MarkSuccess io now j (m, d)))"
    using other_success(2) same_but_breakerD(1,3) [OF b(1)] unfolding b(2)
    by (intro m_ok_store) (auto simp: refusing_def m_ok_def settings_def)
  with other_success b(2) show ?case by (simp add: refusing_def)
next
  case (another_failure now m io j d)
  obtain b where b: "same_but_breaker (m_store m j) b"
      "fst (MarkFailed io now j (m, d)) = m\<lparr>m_store := (m_store m)(j := b)\<rparr>" by (rule mark_failed_manager)
  then have ok: "m_ok (fst (MarkFailed io now j (m, d)))"
    using another_failure(2) same_but_breakerD(1,3) [OF b(1)] unfolding b(2)
    by (intro m_ok_store) (auto simp: refusing_def m_ok_def settings_def)
  obtain cb where cb: "pk_circuitBreaker (m_store m k) = Some cb" "cb_state cb = CircuitStateOpen"
      "0 < cb_openDuration cb" "cb_openDuration cb < 2 ^ 63" "t1 \<le> t0 + cb_openDuration cb" "t0 \<le> cb_lastFailedAt cb"
    using another_failure(2) by (auto simp: refusing_def)
  have "pk_circuitBreaker (m_store (fst (MarkFailed io now j (m, d))) k) =
      Some (if j = k then RecordFailure now cb else cb)"
    using cb(1) by (cases "j = k"; cases "pk_circuitBreaker (m_store m j)") (auto simp: MarkFailed_def modify_key_def Let_def)
  moreover have "cb_state (RecordFailure now cb) = CircuitStateOpen" "cb_lastFailedAt (RecordFailure now cb) = now"
      "cb_openDuration (RecordFailure now cb) = cb_openDuration cb"
    using cb(2) by (simp_all add: RecordFailure_def Let_def)
  moreover have "m_next (fst (MarkFailed io now j (m, d))) = m_next m" by (simp add: b(2))
  ultimately show ?case using ok another_failure cb by (auto simp: refusing_def)
next
  case (another_reload d m io hot)
  then show ?case using reload_refused by blast
qed

text \<open>C19: a key that fails too often is taken out of service. Once a failure brings its consecutive
  failures to the threshold, \<open>GetKey\<close> does not return it for the open duration after that failure,
  however many calls of \<open>GetKey\<close>, releases, further failures, successes of other keys and reloads
  come in between. Only a success of that very key, of a call that was under way, ends this early.\<close>

theorem failing_key_is_taken_out:
  assumes "m_ok m" and "k < m_next m" and "pk_circuitBreaker (m_store m k) = Some cb"
    and "cb_failureThreshold cb \<le> cb_failureCount cb + 1" "in_i64 (cb_failureCount cb + 1)"
    and "0 < cb_openDuration cb" "cb_openDuration cb < 2 ^ 63"
    and "(without_success k t (t + cb_openDuration cb))\<^sup>*\<^sup>* (fst (MarkFailed io t k (m, d))) m'"
    and "\<forall>i. ac i < t + cb_openDuration cb"
  shows "snd (GetKey ac rc m') \<noteq> GotKey k"
proof -
  let ?m = "modify_key k (\<lambda>x. x\<lparr>pk_circuitBreaker := Some (RecordFailure t cb)\<rparr>) m"
  have m1: "fst (MarkFailed io t k (m, d)) = ?m" by (simp add: MarkFailed_def assms(3) Let_def)
  have "m_ok ?m"
    using assms(1) same_but_breakerD [OF same_but_breaker_upd(1) [of "m_store m k" "Some (RecordFailure t cb)"]]
    unfolding modify_key_def by (intro m_ok_store) (auto simp: m_ok_def settings_def)
  moreover have "cb_state (RecordFailure t cb) = CircuitStateOpen" "cb_lastFailedAt (RecordFailure t cb) = t"
      "cb_openDuration (RecordFailure t cb) = cb_openDuration cb"
    using assms(4,5) by (simp_all add: RecordFailure_def Let_def i64_id)
  ultimately have start: "refusing k t (t + cb_openDuration cb) ?m"
    using assms(2,6,7) by (simp add: refusing_def modify_key_def)
  have "refusing k t (t + cb_openDuration cb) m'"
    using assms(8) unfolding m1
    by (induction rule: rtranclp_induct) (auto intro: start without_success_refused)
  from GetKey_refused(1) [OF this assms(9)] show ?thesis .
qed

definition example_failing :: manager where
  "example_failing = modify_key 1
     (\<lambda>x. x\<lparr>pk_circuitBreaker := Some (RecordFailure 2 (RecordFailure 1 (NewCircuitBreaker 3 1000)))\<rparr>)
     example_manager2"

text \<open>After the third failure a reload and another failure of the key come in between.\<close>

theorem failing_key_is_taken_out_witness:
  "snd (GetKey (\<lambda>_. 900) (\<lambda>_. 900) (fst (MarkFailed (None, None) 5 1
     (reload_tick None example_hot example_pool_db (fst (MarkFailed (None, None) 3 1 (example_failing, empty_db))), empty_db)))) \<noteq>
     GotKey 1"
proof -
  let ?m1 = "fst (MarkFailed (None, None) 3 1 (example_failing, empty_db))"
  let ?m2 = "reload_tick None example_hot example_pool_db ?m1"
  have ok: "m_ok example_failing"
    using example_manager2_ok same_but_breakerD [OF same_but_breaker_upd(1) [of "m_store example_manager2 1"
      "Some (RecordFailure 2 (RecordFailure 1 (NewCircuitBreaker 3 1000)))"]]
    unfolding example_failing_def modify_key_def by (intro m_ok_store) (auto simp: m_ok_def settings_def)
  have cb: "pk_circuitBreaker (m_store example_failing 1) =
      Some (RecordFailure 2 (RecordFailure 1 (NewCircuitBreaker 3 1000)))"
    by (simp add: example_failing_def modify_key_def)
  have known: "1 < m_next example_failing" by code_simp
  have "without_success 1 3 1003 ?m1 ?m2"
      and "without_success 1 3 1003 ?m2 (fst (MarkFailed (None, None) 5 1 (?m2, empty_db)))"
    using example_pool_db_ok by (auto intro!: another_reload another_failure)
  then have calls: "(without_success 1 3 1003)\<^sup>*\<^sup>* ?m1 (fst (MarkFailed (None, None) 5 1 (?m2, empty_db)))"
    by (meson converse_rtranclp_into_rtranclp rtranclp.rtrancl_refl)
  show ?thesis
    by (rule failing_key_is_taken_out [OF ok known cb, where t = 3 and d = empty_db])
      (use calls in \<open>simp_all add: i64_def in_i64_def RecordFailure_def NewCircuitBreaker_def Let_def\<close>)
qed

section \<open>How many keys a search tries\<close>

text \<open>The keys that round robin selects when every one of them is removed in turn.\<close>

fun rr_picks :: "64 word \<Rightarrow> key_ref list \<Rightarrow> nat \<Rightarrow> key_ref list" where
  "rr_picks c ks 0 = []"
| "rr_picks c ks (Suc n) =
     (if ks = [] then []
      else let k = ks ! unat (c mod of_nat (length ks)) in k # rr_picks (c + 1) (removeKey ks k) n)"

lemma removeKey_remove1: "distinct ks \<Longrightarrow> removeKey ks k = remove1 k ks"
  by (induction ks) (auto simp: removeKey_def filter_id_conv)

lemma rr_pick_member:
  fixes ks :: "key_ref list" and c :: "64 word"
  shows "ks \<noteq> [] \<Longrightarrow> ks ! unat (c mod of_nat (length ks)) \<in> set ks"
proof -
  assume ne: "ks \<noteq> []"
  have "strategy_Select st (RoundRobin \<lparr>rr_counter = c\<rparr>) ks =
      (RoundRobin \<lparr>rr_counter = c + 1\<rparr>, Some (ks ! unat (c mod of_nat (length ks))))" for st :: key_store
    using ne by (simp add: rr_Select_def Let_def)
  then show ?thesis by (rule strat.select_member)
qed

lemma rr_picks_subset: "set (rr_picks c ks n) \<subseteq> set ks"
proof (induction c ks n rule: rr_picks.induct)
  case (2 c ks n)
  then show ?case using rr_pick_member [of ks c] by (auto simp: Let_def removeKey_def)
qed simp

lemma rr_picks_length: "distinct ks \<Longrightarrow> n \<le> length ks \<Longrightarrow> length (rr_picks c ks n) = n"
proof (induction c ks n rule: rr_picks.induct)
  case (2 c ks n)
  then have ne: "ks \<noteq> []" by auto
  let ?k = "ks ! unat (c mod of_nat (length ks))"
  have "removeKey ks ?k = remove1 ?k ks" using 2(2) by (rule removeKey_remove1)
  then have "length (removeKey ks ?k) = length ks - 1" using rr_pick_member [OF ne] by (simp add: length_remove1)
  with 2 ne show ?case by (simp add: Let_def removeKey_def)
qed simp

lemma acquire_loop_picks:
  assumes "distinct av" and "acquire_loop (\<lambda>_. t) a av st (RoundRobin r) = (st', s', res)"
  shows "res = find (\<lambda>k. acquirable t (st k)) (rr_picks (rr_counter r) av ((length av - a + 1) div 2))"
  using assms
proof (induction "length av - a" arbitrary: a av st r rule: less_induct)
  case less
  show ?case
  proof (cases "length av \<le> a")
    case True
    with less.prems(2) show ?thesis by (simp add: acquire_loop_step [of "\<lambda>_. t" a])
  next
    case False
    let ?k = "av ! unat (rr_counter r mod of_nat (length av))"
    let ?rest = "removeKey av ?k" and ?st = "st(?k := fst (try_acquire t (st ?k)))"
    let ?r = "r\<lparr>rr_counter := rr_counter r + 1\<rparr>"
    have ne: "av \<noteq> []" using False by auto
    then have mem: "?k \<in> set av" by (rule rr_pick_member)
    have granted: "snd (try_acquire t (st ?k)) \<longleftrightarrow> acquirable t (st ?k)"
      by (simp add: try_acquire_granted_iff acquirable_def)
    have "?rest = remove1 ?k av"
      using less.prems(1) by (rule removeKey_remove1)
    then have len: "length ?rest = length av - 1" using mem by (simp add: length_remove1)
    have n: "(length av - a + 1) div 2 = Suc ((length ?rest - Suc a + 1) div 2)"
      using False len by (cases "length av - a = 1") auto
    have run: "(if acquirable t (st ?k) then (?st, RoundRobin ?r, Some ?k)
        else if ?rest = [] then (?st, RoundRobin ?r, None)
        else acquire_loop (\<lambda>_. t) (Suc a) ?rest ?st (RoundRobin ?r)) = (st', s', res)"
      using less.prems(2) False ne
      by (simp add: acquire_loop_step [of "\<lambda>_. t" a] rr_Select_def Let_def granted cong: if_cong)
    have picks: "rr_picks (rr_counter r) av ((length av - a + 1) div 2) =
        ?k # rr_picks (rr_counter r + 1) ?rest ((length ?rest - Suc a + 1) div 2)"
      unfolding n using ne by (simp add: Let_def)
    show ?thesis
    proof (cases "acquirable t (st ?k)")
      case True
      with run show ?thesis unfolding picks by simp
    next
      case refused: False
      have "k \<noteq> ?k" if "k \<in> set (rr_picks c ?rest m)" for k c m
        using that rr_picks_subset [of c ?rest m] by (auto simp: removeKey_def)
      then have same: "find (\<lambda>k. acquirable t (?st k)) (rr_picks c ?rest m) =
          find (\<lambda>k. acquirable t (st k)) (rr_picks c ?rest m)" for c m
        by (intro find_cong refl) auto
      show ?thesis
      proof (cases "?rest = []")
        case True
        with run refused have "res = None" by simp
        moreover have "rr_picks c [] m = []" for c m by (cases m) simp_all
        ultimately show ?thesis unfolding picks using refused True by simp
      next
        case False
        have "length ?rest - Suc a < length av - a" using len \<open>\<not> length av \<le> a\<close> by linarith
        moreover have "distinct ?rest" using less.prems(1) by (simp add: removeKey_def)
        moreover have "acquire_loop (\<lambda>_. t) (Suc a) ?rest ?st (RoundRobin ?r) = (st', s', res)"
          using run refused False by simp
        ultimately have "res = find (\<lambda>k. acquirable t (?st k))
            (rr_picks (rr_counter ?r) ?rest ((length ?rest - Suc a + 1) div 2))"
          by (rule less.hyps)
        then show ?thesis unfolding picks using refused same by simp
      qed
    qed
  qed
qed

lemma allowed_keys_filter:
  assumes "distinct ks"
  shows "snd (allowed_keys (\<lambda>_. t) i ks st) = filter (\<lambda>k. breaker_allows t (st k)) ks"
  using assms
proof (induction ks arbitrary: i st)
  case (Cons k ks)
  obtain k' where "allowed_keys (\<lambda>_. t) i (k # ks) st =
      (let (st', av) = allowed_keys (\<lambda>_. t) (Suc i) ks (st(k := k'))
       in (st', if breaker_allows t (st k) then k # av else av))"
    by (rule allowed_keys_step)
  moreover have "filter (\<lambda>j. breaker_allows t ((st(k := k')) j)) ks = filter (\<lambda>j. breaker_allows t (st j)) ks"
    using Cons.prems by (intro filter_cong) auto
  ultimately show ?case using Cons by (simp add: split_beta Let_def)
qed simp

text \<open>C39: With round robin \<open>GetKey\<close> tries at most half of the available keys, rounded up, because the
  bound of its loop is the length of the slice that it shortens. At one clock reading it returns the
  first of these that has a free slot and room in its rate windows, and when none of them has, it
  reports that no key is available, whatever the other half could give.\<close>

theorem get_key_gives_up_early:
  assumes "m_ok m" and "m_strategies m (m_activeStmt m) = Some (RoundRobin r)"
  shows "let av = filter (\<lambda>k. breaker_allows t (m_store m k)) (m_keys m);
           tried = rr_picks (rr_counter r) av ((length av + 1) div 2)
    in length tried = (length av + 1) div 2 \<and> set tried \<subseteq> set av \<and>
       snd (GetKey (\<lambda>_. t) (\<lambda>_. t) m) =
         (case find (\<lambda>k. acquirable t (m_store m k)) tried of None \<Rightarrow> NoKey | Some k \<Rightarrow> GotKey k)"
proof -
  let ?av = "filter (\<lambda>k. breaker_allows t (m_store m k)) (m_keys m)"
  let ?tried = "rr_picks (rr_counter r) ?av ((length ?av + 1) div 2)"
  have dist: "distinct (m_keys m)" using assms(1) by (simp add: m_ok_def)
  then have "distinct ?av" by simp
  then have len: "length ?tried = (length ?av + 1) div 2" by (rule rr_picks_length) linarith
  obtain m' res where get: "GetKey (\<lambda>_. t) (\<lambda>_. t) m = (m', res)" by fastforce
  obtain st av where al: "allowed_keys (\<lambda>_. t) 0 (m_keys m) (m_store m) = (st, av)"
      and none: "av = [] \<longrightarrow> res = NoKey \<and> m_store m' = st"
      and some: "av \<noteq> [] \<longrightarrow> (\<exists>s s' r. acquire_loop (\<lambda>_. t) 0 av st s = (m_store m', s', r) \<and>
           res = (case r of None \<Rightarrow> NoKey | Some k \<Rightarrow> GotKey k) \<and>
           (m_strategies m (m_activeStmt m) = Some s \<or> m_strategies m (m_activeStmt m) = None))"
    by (rule GetKey_cases [OF assms(1) get])
  have av: "av = ?av" using allowed_keys_filter [OF dist, of t 0 "m_store m"] al by simp
  have same: "acquirable t (st k) = acquirable t (m_store m k)" for k
    using allowed_keys_ok [OF al dist] same_but_breakerD(4) by blast
  have "res = (case find (\<lambda>k. acquirable t (m_store m k)) ?tried of None \<Rightarrow> NoKey | Some k \<Rightarrow> GotKey k)"
  proof (cases "av = []")
    case True
    with none av show ?thesis by simp
  next
    case False
    then obtain s' x where run: "acquire_loop (\<lambda>_. t) 0 av st (RoundRobin r) = (m_store m', s', x)"
        and res: "res = (case x of None \<Rightarrow> NoKey | Some k \<Rightarrow> GotKey k)"
      using some assms(2) by auto
    have "distinct av" using av dist by simp
    from acquire_loop_picks [OF this run] show ?thesis unfolding res av same by simp
  qed
  with len rr_picks_subset show ?thesis by (simp add: get Let_def)
qed

text \<open>Two keys of which the first has no slot at all: it is the only one that is tried.\<close>

theorem get_key_gives_up_early_witness:
  "snd (GetKey (\<lambda>_. 100) (\<lambda>_. 100) example_manager) = NoKey \<and> 1 \<in> set (m_keys example_manager) \<and>
   breaker_allows 100 (m_store example_manager 1) \<and> acquirable 100 (m_store example_manager 1)"
proof -
  have ok: "m_ok example_manager" using example_manager_inv by (simp add: pool_inv_def)
  have rr: "m_strategies example_manager (m_activeStmt example_manager) = Some (RoundRobin NewRoundRobinStrategy)"
    using NewManager_strategies [OF example_manager_new] by (simp add: example_hot_def)
  have keys: "m_keys example_manager = [0, 1]"
    and allow: "breaker_allows 100 (m_store example_manager 0)" "breaker_allows 100 (m_store example_manager 1)"
    and acq: "\<not> acquirable 100 (m_store example_manager 0)" "acquirable 100 (m_store example_manager 1)"
    and picks: "rr_picks (rr_counter NewRoundRobinStrategy) [0, 1] 1 = [0]"
    by code_simp+
  from get_key_gives_up_early [OF ok rr, of 100]
  show ?thesis using keys allow acq picks by (simp add: Let_def)
qed

text \<open>With round robin, \<open>GetKey\<close> does return a key whenever some breaker allows requests and
  every key has a free slot and room in its rate windows.\<close>

theorem get_key_succeeds_under_low_load:
  assumes ok: "m_ok m" and rr: "m_strategies m (m_activeStmt m) = Some (RoundRobin r)"
    and k0: "k0 \<in> set (m_keys m)" "\<forall>i. breaker_allows (ac i) (m_store m k0)"
    and free: "\<forall>k \<in> set (m_keys m). acquirable (rc 0) (m_store m k)"
  shows "\<exists>k. snd (GetKey ac rc m) = GotKey k"
proof -
  obtain m' res where get: "GetKey ac rc m = (m', res)" by fastforce
  obtain st av where al: "allowed_keys ac 0 (m_keys m) (m_store m) = (st, av)"
    and some: "av \<noteq> [] \<longrightarrow> (\<exists>s s' r. acquire_loop rc 0 av st s = (m_store m', s', r) \<and>
           res = (case r of None \<Rightarrow> NoKey | Some k \<Rightarrow> GotKey k) \<and>
           (m_strategies m (m_activeStmt m) = Some s \<or> m_strategies m (m_activeStmt m) = None))"
    by (rule GetKey_cases [OF ok get])
  have "distinct (m_keys m)" using ok by (simp add: m_ok_def)
  note allowed = allowed_keys_ok [OF al this]
  have av: "av \<noteq> []" using allowed k0 by auto
  with some rr obtain s' x where run: "acquire_loop rc 0 av st (RoundRobin r) = (m_store m', s', x)"
      and res: "res = (case x of None \<Rightarrow> NoKey | Some k \<Rightarrow> GotKey k)" by auto
  obtain s1 k where sel: "strategy_Select st (RoundRobin r) av = (s1, Some k)"
    using av by (simp add: rr_Select_def Let_def)
  then have "k \<in> set av" by (rule strat.select_member)
  then have "acquirable (rc 0) (st k)"
    using allowed free same_but_breakerD(4) [of "m_store m k" "st k"] by auto
  then have "snd (try_acquire (rc 0) (st k))" by (simp add: try_acquire_granted_iff acquirable_def)
  then have "x = Some k"
    using run av sel unfolding acquire_loop_step [of rc 0 av st "RoundRobin r"] by (simp add: Let_def)
  with res get show ?thesis by simp
qed

theorem get_key_succeeds_under_low_load_witness:
  "\<exists>k. snd (GetKey (\<lambda>_. 100) (\<lambda>_. 100) example_manager2) = GotKey k"
proof -
  have "m_strategies example_manager2 (m_activeStmt example_manager2) =
      Some (RoundRobin NewRoundRobinStrategy)"
    using NewManager_strategies [OF example_manager_new]
    by (simp add: example_manager2_def example_hot_def)
  moreover have "m_keys example_manager2 = [1]" by (simp add: example_manager2_def)
  moreover have "breaker_allows 100 (m_store example_manager2 1)"
      "acquirable 100 (m_store example_manager2 1)" by code_simp+
  ultimately show ?thesis
    using get_key_succeeds_under_low_load [OF example_manager2_ok, of NewRoundRobinStrategy 1
      "\<lambda>_. 100" "\<lambda>_. 100"] by simp
qed

end
