(* ===== verification/Key_Acquire.thy ===== *)
theory Key_Acquire
  imports Key_Manager
begin

text \<open>
  \<open>GetKey\<close> of \<^verbatim>\<open>internal/keypool/manager.go\<close> at the granularity of its accesses to shared data. A
  call holds the manager's read lock from start to end, which keeps reloads out, but other calls,
  releases and marks run beside it. Each access (\<open>AllowRequest\<close>, \<open>Select\<close>, \<open>TryConcurrentAcquire\<close>,
  \<open>TryRateLimit\<close>, \<open>ConcurrentRelease\<close>) holds a mutex of its own and is one step; between two of
  them a caller is at one of the points of the type \<open>getter\<close>, with the local variables it has there.
  Undisturbed, the steps are the function \<open>GetKey\<close>; under any interleaving they keep the account of
  the slots.
\<close>

section \<open>The points of a call and its steps\<close>

text \<open>
  \<open>Filtering rest available\<close> is the first loop, \<open>Selecting strategy attempts available\<close> the head of
  the second; then come the two attempts on the selected key and the release after a refusal.
\<close>

datatype getter =
    Filtering "key_ref list" "key_ref list"
  | Selecting string nat "key_ref list"
  | Acquiring string nat "key_ref list" key_ref
  | Limiting string nat "key_ref list" key_ref
  | GivingBack string nat "key_ref list" key_ref
  | Returning get_result

definition get_start :: "manager \<Rightarrow> getter" where
  "get_start m = Filtering (m_keys m) []"

definition strategy_name :: "manager \<Rightarrow> string" where
  "strategy_name m = (if m_strategies m (m_activeStmt m) = None then ''round_robin'' else m_activeStmt m)"

definition next_round :: "string \<Rightarrow> nat \<Rightarrow> key_ref list \<Rightarrow> key_ref \<Rightarrow> getter" where
  "next_round name attempts available selected =
     (let rest = removeKey available selected
      in if rest = [] then Returning NoKey else Selecting name (Suc attempts) rest)"

fun get_step :: "time \<Rightarrow> getter \<Rightarrow> manager \<Rightarrow> getter \<times> manager" where
  "get_step t (Filtering [] av) m =
     (if av = [] then Returning NoKey else Selecting (strategy_name m) 0 av, m)"
| "get_step t (Filtering (k # ks) av) m =
     (case pk_circuitBreaker (m_store m k) of
        None \<Rightarrow> (Filtering ks (av @ [k]), m)
      | Some cb \<Rightarrow>
          let (cb', allowed) = AllowRequest t cb
          in (Filtering ks (if allowed then av @ [k] else av),
              modify_key k (\<lambda>x. x\<lparr>pk_circuitBreaker := Some cb'\<rparr>) m))"
| "get_step t (Selecting name a av) m =
     (if length av \<le> a then (Returning NoKey, m)
      else case m_strategies m name of
             None \<Rightarrow> (Returning NilStrategy, m)
           | Some s \<Rightarrow>
               let (s1, sel) = strategy_Select (m_store m) s av
               in (case sel of None \<Rightarrow> Returning NoKey | Some k \<Rightarrow> Acquiring name a av k,
                   m\<lparr>m_strategies := (m_strategies m)(name \<mapsto> s1)\<rparr>))"
| "get_step t (Acquiring name a av k) m =
     (if snd (TryConcurrentAcquire (m_store m k)) then Limiting name a av k else next_round name a av k,
      modify_key k (\<lambda>x. fst (TryConcurrentAcquire x)) m)"
| "get_step t (Limiting name a av k) m =
     (if snd (TryRateLimit t (m_store m k)) then Returning (GotKey k) else GivingBack name a av k,
      modify_key k (\<lambda>x. fst (TryRateLimit t x)) m)"
| "get_step t (GivingBack name a av k) m = (next_round name a av k, modify_key k ConcurrentRelease m)"
| "get_step t (Returning r) m = (Returning r, m)"

section \<open>An undisturbed call is GetKey\<close>

text \<open>What is left of a call at each point, as the sequential code runs it.\<close>

definition finish_loop ::
  "(nat \<Rightarrow> time) \<Rightarrow> string \<Rightarrow> nat \<Rightarrow> key_ref list \<Rightarrow> manager \<Rightarrow> manager \<times> get_result" where
  "finish_loop rc name a av m =
     (if length av \<le> a then (m, NoKey)
      else case m_strategies m name of
             None \<Rightarrow> (m, NilStrategy)
           | Some s \<Rightarrow>
               let (st', s', res) = acquire_loop rc a av (m_store m) s
               in (m\<lparr>m_store := st', m_strategies := (m_strategies m)(name \<mapsto> s')\<rparr>,
                   case res of None \<Rightarrow> NoKey | Some k \<Rightarrow> GotKey k))"

definition finish_next ::
  "(nat \<Rightarrow> time) \<Rightarrow> string \<Rightarrow> nat \<Rightarrow> key_ref list \<Rightarrow> key_ref \<Rightarrow> manager \<Rightarrow> manager \<times> get_result" where
  "finish_next rc name a av k m =
     (if removeKey av k = [] then (m, NoKey) else finish_loop rc name (Suc a) (removeKey av k) m)"

definition finish_limit ::
  "(nat \<Rightarrow> time) \<Rightarrow> string \<Rightarrow> nat \<Rightarrow> key_ref list \<Rightarrow> key_ref \<Rightarrow> manager \<Rightarrow> manager \<times> get_result" where
  "finish_limit rc name a av k m =
     (let m1 = modify_key k (\<lambda>x. fst (TryRateLimit (rc a) x)) m
      in if snd (TryRateLimit (rc a) (m_store m k)) then (m1, GotKey k)
         else finish_next rc name a av k (modify_key k ConcurrentRelease m1))"

fun finish :: "(nat \<Rightarrow> time) \<Rightarrow> (nat \<Rightarrow> time) \<Rightarrow> getter \<Rightarrow> manager \<Rightarrow> manager \<times> get_result" where
  "finish ac rc (Filtering ks av) m =
     (let (st, av') = allowed_keys ac 0 ks (m_store m); m1 = m\<lparr>m_store := st\<rparr>
      in if av @ av' = [] then (m1, NoKey) else finish_loop rc (strategy_name m) 0 (av @ av') m1)"
| "finish ac rc (Selecting name a av) m = finish_loop rc name a av m"
| "finish ac rc (Acquiring name a av k) m =
     (let m1 = modify_key k (\<lambda>x. fst (TryConcurrentAcquire x)) m
      in if snd (TryConcurrentAcquire (m_store m k)) then finish_limit rc name a av k m1
         else finish_next rc name a av k m1)"
| "finish ac rc (Limiting name a av k) m = finish_limit rc name a av k m"
| "finish ac rc (GivingBack name a av k) m = finish_next rc name a av k (modify_key k ConcurrentRelease m)"
| "finish ac rc (Returning r) m = (m, r)"

lemma finish_start: "finish ac rc (get_start m) m = GetKey ac rc m"
  by (auto simp: get_start_def GetKey_def finish_loop_def strategy_name_def Let_def split: option.split prod.split)

text \<open>The reading a step takes from the clocks of the sequential call.\<close>

fun reading :: "(nat \<Rightarrow> time) \<Rightarrow> (nat \<Rightarrow> time) \<Rightarrow> getter \<Rightarrow> time" where
  "reading ac rc (Filtering ks av) = ac 0"
| "reading ac rc (Limiting name a av k) = rc a"
| "reading ac rc g = rc 0"

fun later :: "(nat \<Rightarrow> time) \<Rightarrow> getter \<Rightarrow> nat \<Rightarrow> time" where
  "later ac (Filtering (k # ks) av) = (\<lambda>i. ac (Suc i))"
| "later ac g = ac"

lemma allowed_keys_later: "allowed_keys ac (Suc i) ks st = allowed_keys (\<lambda>i. ac (Suc i)) i ks st"
  by (induction ks arbitrary: i st) (simp_all add: Let_def split_beta split: option.split)

lemma finish_next_round: "finish ac rc (next_round name a av k) m = finish_next rc name a av k m"
  by (simp add: next_round_def finish_next_def Let_def)

lemma acquire_loop_stop: "length av \<le> a \<Longrightarrow> acquire_loop rc a av st s = (st, s, None)"
  by (simp add: acquire_loop.simps)

lemma store_then_strategies:
  "m\<lparr>m_strategies := f, m_store := st\<rparr> = m\<lparr>m_store := st, m_strategies := f\<rparr>"
  by simp

lemma finish_loop_Some:
  assumes "m_strategies m name = Some s"
  shows "finish_loop rc name a av m =
    (let (st', s', res) = acquire_loop rc a av (m_store m) s
     in (m\<lparr>m_store := st', m_strategies := (m_strategies m)(name \<mapsto> s')\<rparr>,
         case res of None \<Rightarrow> NoKey | Some k \<Rightarrow> GotKey k))"
  using assms by (auto simp: finish_loop_def acquire_loop_stop map_upd_triv)

lemma finish_select:
  assumes "\<not> length av \<le> a" and "m_strategies m name = Some s" and "strategy_Select (m_store m) s av = (s1, Some k)"
  shows "finish_loop rc name a av m =
    finish ac rc (Acquiring name a av k) (m\<lparr>m_strategies := (m_strategies m)(name \<mapsto> s1)\<rparr>)"
  using assms
  by (simp add: finish_loop_Some acquire_loop.simps [of rc a av "m_store m" s] finish_limit_def finish_next_def
      modify_key_def store_then_strategies Let_def split_beta)

lemma finish_no_select:
  assumes "\<not> length av \<le> a" and "m_strategies m name = Some s" and "strategy_Select (m_store m) s av = (s1, None)"
  shows "finish_loop rc name a av m = (m\<lparr>m_strategies := (m_strategies m)(name \<mapsto> s1)\<rparr>, NoKey)"
  using assms by (simp add: finish_loop_Some acquire_loop.simps [of rc a av "m_store m" s])

lemma finish_step:
  "finish ac rc g m = (let (g', m') = get_step (reading ac rc g) g m in finish (later ac g) rc g' m')"
proof (cases "(reading ac rc g, g, m)" rule: get_step.cases)
  case (2 t k ks av m')
  then show ?thesis
    by (auto simp: allowed_keys_later modify_key_def strategy_name_def Let_def split_beta split: option.split)
next
  case (3 t name a av m')
  consider "length av \<le> a" | "\<not> length av \<le> a" "m_strategies m name = None"
    | s s1 where "\<not> length av \<le> a" "m_strategies m name = Some s" "strategy_Select (m_store m) s av = (s1, None)"
    | s s1 k where "\<not> length av \<le> a" "m_strategies m name = Some s" "strategy_Select (m_store m) s av = (s1, Some k)"
    by (cases "m_strategies m name") (auto, metis prod.exhaust option.exhaust)
  then show ?thesis
  proof cases
    case (3 s s1)
    with \<open>(reading ac rc g, g, m) = _\<close> finish_no_select [OF 3] show ?thesis by simp
  next
    case (4 s s1 k)
    with \<open>(reading ac rc g, g, m) = _\<close> finish_select [OF 4] show ?thesis by simp
  qed (use 3 in \<open>simp_all add: finish_loop_def\<close>)
qed (auto simp: finish_next_round finish_limit_def Let_def strategy_name_def modify_key_def)

text \<open>One step of the caller itself, at any time.\<close>

inductive get_move :: "getter \<times> manager \<Rightarrow> getter \<times> manager \<Rightarrow> bool" where
  "\<forall>r. g \<noteq> Returning r \<Longrightarrow> get_move (g, m) (get_step t g m)"

abbreviation get_path :: "getter \<times> manager \<Rightarrow> getter \<times> manager \<Rightarrow> bool" where
  "get_path \<equiv> get_move\<^sup>*\<^sup>*"

text \<open>
  Every step brings the caller closer to its end, whatever the manager looks like by then: keys
  left to filter, rounds left, accesses left in the round.
\<close>

fun left :: "getter \<Rightarrow> nat" where
  "left (Filtering ks av) = 5 * length ks + 4 * length av + 6"
| "left (Selecting name a av) = (if length av \<le> a then 1 else 4 * (length av - a) + 5)"
| "left (Acquiring name a av k) = 4 * (length av - a) + 4"
| "left (Limiting name a av k) = 4 * (length av - a) + 3"
| "left (GivingBack name a av k) = 4 * (length av - a) + 2"
| "left (Returning r) = 0"

lemma left_next_round: "left (next_round name a av k) < 4 * (length av - a) + 2"
proof -
  have "3 + 4 * (n - Suc a) < 4 * (length av - a)" if "n \<le> length av" "\<not> n \<le> Suc a" for n
    using that by arith
  with removeKey_length [of av k] show ?thesis by (simp add: next_round_def Let_def)
qed

lemma left_step: "\<forall>r. g \<noteq> Returning r \<Longrightarrow> left (fst (get_step t g m)) < left g"
  using left_next_round
  by (cases "(t, g, m)" rule: get_step.cases)
    (auto simp: Let_def split_beta less_Suc_eq split: option.split intro: less_trans)

lemma finish_reaches:
  "get_path (g, m) (Returning (snd (finish ac rc g m)), fst (finish ac rc g m))"
proof (induction g arbitrary: ac m rule: measure_induct_rule [of left])
  case (less g)
  show ?case
  proof (cases "\<exists>r. g = Returning r")
    case False
    let ?s = "get_step (reading ac rc g) g m"
    have "get_move (g, m) ?s" using False by (auto intro: get_move.intros)
    moreover have "left (fst ?s) < left g" using False by (intro left_step) blast
    then have "get_path (fst ?s, snd ?s) (Returning (snd (finish ac rc g m)), fst (finish ac rc g m))"
      using less.IH [of "fst ?s" "snd ?s" "later ac g"] by (simp add: finish_step [of ac rc g m] split_beta Let_def)
    ultimately show ?thesis by simp
  qed auto
qed

text \<open>Conversely the steps of any undisturbed call are those of \<open>GetKey\<close> for some clocks.\<close>

lemma acquire_loop_cong:
  "(\<And>i. a \<le> i \<Longrightarrow> rc i = rc' i) \<Longrightarrow> acquire_loop rc a av st s = acquire_loop rc' a av st s"
proof (induction "length av - a" arbitrary: a av st s rule: less_induct)
  case less
  have again: "acquire_loop rc (Suc a) (removeKey av k) st' s' = acquire_loop rc' (Suc a) (removeKey av k) st' s'"
    if "\<not> length av \<le> a" for k st' s'
  proof -
    have "length (removeKey av k) - Suc a < length av - a" using removeKey_length [of av k] that by linarith
    then show ?thesis by (rule less.hyps) (use less.prems in simp)
  qed
  show ?case
    using again less.prems [of a]
    unfolding acquire_loop_step [of rc a av st s] acquire_loop_step [of rc' a av st s]
    by (simp add: Let_def split: option.split prod.split)
qed

lemma finish_loop_cong: "(\<And>i. a \<le> i \<Longrightarrow> rc i = rc' i) \<Longrightarrow> finish_loop rc name a av m = finish_loop rc' name a av m"
proof -
  assume "\<And>i. a \<le> i \<Longrightarrow> rc i = rc' i"
  then have "acquire_loop rc a av st s = acquire_loop rc' a av st s" for st s by (rule acquire_loop_cong)
  then show ?thesis by (simp only: finish_loop_def)
qed

lemma finish_next_later: "finish_next (rc(a := t)) name a av k m = finish_next rc name a av k m"
  using finish_loop_cong [of "Suc a" "rc(a := t)" rc] by (simp add: finish_next_def)

lemma finish_any_step:
  assumes "\<forall>r. g \<noteq> Returning r"
  shows "\<exists>ac' rc'. finish ac' rc' g m = (let (g', m') = get_step t g m in finish ac rc g' m')"
proof (cases "(t, g, m)" rule: get_step.cases)
  case (2 t' k ks av m')
  then show ?thesis
    using finish_step [of "case_nat t ac" rc g m]
    by (intro exI [of _ "case_nat t ac"] exI [of _ rc]) simp
next
  case (5 t' name a av k m')
  then show ?thesis
    by (intro exI [of _ ac] exI [of _ "rc(a := t)"])
      (simp add: finish_limit_def finish_next_later finish_next_round Let_def modify_key_def)
qed (use assms finish_step [of ac rc g m] in \<open>(intro exI [of _ ac] exI [of _ rc], simp)+\<close>)

lemma path_finishes:
  "get_path gm gm' \<Longrightarrow> gm' = (Returning r, m') \<Longrightarrow> \<exists>ac rc. finish ac rc (fst gm) (snd gm) = (m', r)"
proof (induction rule: converse_rtranclp_induct)
  case base
  then show ?case by simp
next
  case (step y z)
  then obtain ac rc where z: "finish ac rc (fst z) (snd z) = (m', r)" by blast
  from step(1) obtain g m t where y: "y = (g, m)" "z = get_step t g m" "\<forall>r. g \<noteq> Returning r"
    by (cases rule: get_move.cases)
  obtain ac' rc' where "finish ac' rc' g m = (let (g', m') = get_step t g m in finish ac rc g' m')"
    using finish_any_step [OF y(3)] by blast
  with y z show ?case by (auto simp: split_beta)
qed

section \<open>Slots under interleaving\<close>

text \<open>The slot a caller holds at each point, and what it relies on while it has the read lock.\<close>

fun getter_slot :: "getter \<Rightarrow> key_ref multiset" where
  "getter_slot (Limiting name a av k) = {#k#}"
| "getter_slot (GivingBack name a av k) = {#k#}"
| "getter_slot (Returning (GotKey k)) = {#k#}"
| "getter_slot g = {#}"

fun getter_ok :: "manager \<Rightarrow> getter \<Rightarrow> bool" where
  "getter_ok m (Filtering ks av) \<longleftrightarrow> set ks \<subseteq> set (m_keys m) \<and> set av \<subseteq> set (m_keys m)"
| "getter_ok m (Selecting name a av) \<longleftrightarrow> m_strategies m name \<noteq> None \<and> set av \<subseteq> set (m_keys m)"
| "getter_ok m (Acquiring name a av k) \<longleftrightarrow>
     m_strategies m name \<noteq> None \<and> set av \<subseteq> set (m_keys m) \<and> k \<in> set (m_keys m)"
| "getter_ok m (Limiting name a av k) \<longleftrightarrow>
     m_strategies m name \<noteq> None \<and> set av \<subseteq> set (m_keys m) \<and> k \<in> set (m_keys m)"
| "getter_ok m (GivingBack name a av k) \<longleftrightarrow>
     m_strategies m name \<noteq> None \<and> set av \<subseteq> set (m_keys m) \<and> k \<in> set (m_keys m)"
| "getter_ok m (Returning r) \<longleftrightarrow> r \<noteq> NilStrategy"

definition same_pool :: "manager \<Rightarrow> manager \<Rightarrow> bool" where
  "same_pool m m' \<longleftrightarrow> m_keys m' = m_keys m \<and> m_next m' = m_next m \<and>
     dom (m_strategies m) \<subseteq> dom (m_strategies m')"

lemma getter_ok_same: "same_pool m m' \<Longrightarrow> getter_ok m g \<Longrightarrow> getter_ok m' g"
  by (cases "(m, g)" rule: getter_ok.cases) (auto simp: same_pool_def)

lemma getter_ok_start: "getter_ok m (get_start m)" "getter_slot (get_start m) = {#}"
  by (simp_all add: get_start_def)

lemma next_round_ok:
  assumes "getter_ok m (GivingBack name a av k)"
  shows "getter_ok m (next_round name a av k)" and "getter_slot (next_round name a av k) = {#}"
  using assms by (auto simp: next_round_def removeKey_def Let_def)

lemma same_pool_modify [simp]: "same_pool m (modify_key k f m)"
  by (simp add: same_pool_def modify_key_def)

lemma pool_inv_acquire:
  assumes "pool_inv (m, held)" and "k \<in> set (m_keys m)"
  shows "pool_inv (modify_key k (\<lambda>x. fst (TryConcurrentAcquire x)) m,
    if snd (TryConcurrentAcquire (m_store m k)) then add_mset k held else held)"
proof (rule pool_inv_modify [OF assms(1)])
  have k: "pk_ok (m_store m k)" "pk_currentConcurrent (m_store m k) = int (count held k)"
    using assms by (simp_all add: pool_inv_iff)
  show "pk_ok (fst (TryConcurrentAcquire (m_store m k)))" using k(1) by (rule pk_ok_acquire)
  show "pk_currentConcurrent (fst (TryConcurrentAcquire (m_store m k))) =
      int (count (if snd (TryConcurrentAcquire (m_store m k)) then add_mset k held else held) k)"
    using k TryConcurrentAcquire_granted [OF k(1)] TryConcurrentAcquire_refused [of "m_store m k"] by simp
qed (use assms(2) in auto)

lemma pool_inv_rate:
  assumes "pool_inv (m, held)" and "k \<in> set (m_keys m)"
  shows "pool_inv (modify_key k (\<lambda>x. fst (TryRateLimit t x)) m, held)"
proof (rule pool_inv_modify [OF assms(1)])
  have "pk_ok (m_store m k)" "pk_currentConcurrent (m_store m k) = int (count held k)"
    using assms by (simp_all add: pool_inv_iff)
  then show "pk_ok (fst (TryRateLimit t (m_store m k)))"
      "pk_currentConcurrent (fst (TryRateLimit t (m_store m k))) = int (count held k)"
    by (simp_all add: pk_ok_rate)
qed (use assms(2) in auto)

definition get_step_ok :: "key_ref multiset \<Rightarrow> getter \<Rightarrow> manager \<Rightarrow> getter \<times> manager \<Rightarrow> bool" where
  "get_step_ok held g m gm \<longleftrightarrow> (case gm of (g', m') \<Rightarrow>
     pool_inv (m', held - getter_slot g + getter_slot g') \<and> getter_ok m' g' \<and> same_pool m m')"

lemma pool_inv_selected:
  "pool_inv (m, held) \<Longrightarrow> pool_inv (m\<lparr>m_strategies := (m_strategies m)(name \<mapsto> s)\<rparr>, held)"
  by (auto simp: pool_inv_iff m_ok_def)

lemma get_step_inv:
  assumes inv: "pool_inv (m, held)" and ok: "getter_ok m g" and slot: "getter_slot g \<subseteq># held"
  shows "get_step_ok held g m (get_step t g m)"
proof (cases "(t, g, m)" rule: get_step.cases)
  case (1 t av m')
  have "strategy_name m \<in> dom (m_strategies m)"
    using inv by (auto simp: strategy_name_def pool_inv_iff m_ok_def)
  with 1 inv ok show ?thesis by (auto simp: get_step_ok_def same_pool_def)
next
  case (2 t k ks av m')
  show ?thesis
  proof (cases "pk_circuitBreaker (m_store m k)")
    case None
    with 2 inv ok show ?thesis by (simp add: get_step_ok_def same_pool_def)
  next
    case (Some cb)
    let ?f = "\<lambda>x. x\<lparr>pk_circuitBreaker := Some (fst (AllowRequest t cb))\<rparr>"
    have "pool_inv (modify_key k ?f m, held)" unfolding modify_key_def by (rule pool_inv_breaker [OF inv]) simp
    moreover have "getter_ok (modify_key k ?f m) (Filtering ks (if snd (AllowRequest t cb) then av @ [k] else av))"
      by (rule getter_ok_same [OF same_pool_modify]) (use 2 ok in simp)
    ultimately show ?thesis using 2 Some by (simp add: get_step_ok_def Let_def split_beta)
  qed
next
  case (3 t name a av m')
  then obtain s where s: "m_strategies m name = Some s" using ok by auto
  obtain s1 sel where sel: "strategy_Select (m_store m) s av = (s1, sel)" by fastforce
  have "k \<in> set (m_keys m)" if "sel = Some k" for k
    using strat.select_member [of "m_store m" s av s1 k] sel that ok 3 by auto
  then show ?thesis
    using 3 s sel inv ok pool_inv_selected [OF inv, of name s1]
    by (auto simp: get_step_ok_def same_pool_def split: option.split)
next
  case (4 t name a av k m')
  then have k: "k \<in> set (m_keys m)" and g: "getter_ok m (GivingBack name a av k)" using ok by simp_all
  note again = next_round_ok [OF getter_ok_same [OF same_pool_modify g]]
  from 4 ok pool_inv_acquire [OF inv k] again show ?thesis
    using getter_ok_same [OF same_pool_modify, of m "Limiting name a av k"] by (simp add: get_step_ok_def split: if_splits)
next
  case (5 t name a av k m')
  then have k: "k \<in> set (m_keys m)" "k \<in># held" using ok slot by simp_all
  with 5 ok pool_inv_rate [OF inv k(1), of t] getter_ok_same [OF same_pool_modify, of m "GivingBack name a av k"]
  show ?thesis by (simp add: get_step_ok_def)
next
  case (6 t name a av k m')
  then have k: "k \<in># held" using slot by simp
  note again = next_round_ok [OF getter_ok_same [OF same_pool_modify]]
  from 6 ok pool_inv_release [OF inv k] again [of m name a av k] show ?thesis
    by (simp add: get_step_ok_def ReleaseKey_def)
next
  case (7 t r m')
  with inv ok slot show ?thesis by (simp add: get_step_ok_def same_pool_def subset_mset.diff_add)
qed

section \<open>Properties\<close>

text \<open>The steps of a caller when anything may happen to the manager between them.\<close>

fun disturbed :: "(time \<times> manager) list \<Rightarrow> getter \<Rightarrow> getter" where
  "disturbed [] g = g"
| "disturbed ((t, m) # ms) g = disturbed ms (fst (get_step t g m))"

lemma disturbed_returning: "disturbed ms (Returning r) = Returning r"
  by (induction ms) auto

text \<open>C8: the steps of an undisturbed call are exactly the function \<open>GetKey\<close>: from the start of a call, its
  own steps can reach the return of a result and a state of the manager if and only if \<open>GetKey\<close>
  gives them for some clock readings.\<close>

theorem get_steps_are_GetKey:
  "(\<exists>ac rc. GetKey ac rc m = (m', r)) \<longleftrightarrow> get_path (get_start m, m) (Returning r, m')"
proof
  assume "\<exists>ac rc. GetKey ac rc m = (m', r)"
  then obtain ac rc where "GetKey ac rc m = (m', r)" by blast
  with finish_reaches [of "get_start m" m ac rc] show "get_path (get_start m, m) (Returning r, m')"
    by (simp add: finish_start)
next
  assume "get_path (get_start m, m) (Returning r, m')"
  from path_finishes [OF this refl] show "\<exists>ac rc. GetKey ac rc m = (m', r)" by (simp add: finish_start)
qed

text \<open>C9: \<open>GetKey\<close> returns after a bounded number of its own accesses, five for each key of the pool and six
  more, whatever other callers, releases and marks do to the keys between them.\<close>

theorem get_key_is_wait_free:
  assumes "5 * PoolSize m + 6 \<le> length ms"
  shows "\<exists>r. disturbed ms (get_start m) = Returning r"
proof -
  have "\<exists>r. disturbed ms g = Returning r" if "left g \<le> length ms" for g
    using that
  proof (induction ms arbitrary: g)
    case Nil
    then show ?case by (cases g) (auto split: if_splits)
  next
    case (Cons tm ms)
    obtain t m where tm: "tm = (t, m)" by (cases tm)
    show ?case
    proof (cases "\<exists>r. g = Returning r")
      case True
      then show ?thesis using disturbed_returning by blast
    next
      case False
      then have "left (fst (get_step t g m)) \<le> length ms" using left_step [of g t m] Cons.prems by simp
      with Cons.IH show ?thesis by (simp add: tm)
    qed
  qed
  with assms show ?thesis by (simp add: get_start_def PoolSize_def)
qed

text \<open>Two keys, the first without a free slot; another caller takes the last slot of the second.\<close>

theorem get_key_is_wait_free_witness:
  "\<exists>r. disturbed (replicate 9 (0, example_manager) @ replicate 7 (0, modify_key 1 (\<lambda>k. k\<lparr>pk_ConcurrentLimit := 0\<rparr>) example_manager))
     (get_start example_manager) = Returning r"
proof (rule get_key_is_wait_free)
  have "PoolSize example_manager = 2" by code_simp
  then show "5 * PoolSize example_manager + 6 \<le> length (replicate 9 (0 :: int, example_manager) @
      replicate 7 (0, modify_key 1 (\<lambda>k. k\<lparr>pk_ConcurrentLimit := 0\<rparr>) example_manager))" by simp
qed

end
