(* ===== verification/Key_Updates.thy ===== *)
theory Key_Updates
  imports Key_Acquire
begin

text \<open>
  The marks and the reload of \<^verbatim>\<open>internal/keypool/manager.go\<close> at the granularity of their accesses.
  \<open>MarkSuccess\<close> and \<open>MarkFailed\<close> hold no lock of the manager: each call on the breaker and each
  write to the database is a step of its own, and other workers may mark the same key in between.
  The reload goroutine reads the rows, reads the configuration, and takes the write lock twice, once
  for the keys and once for the strategy.
\<close>

section \<open>Marking a key\<close>

text \<open>The points of the two methods, with their local variables.\<close>

datatype marking =
    SuccessStart
  | SuccessRecord string
  | SuccessEvent
  | SuccessUsed
  | FailStart
  | FailRecord string
  | FailState string
  | FailEvent string
  | FailCount string
  | FailHealth string int
  | Marked

definition on_breaker :: "key_ref \<Rightarrow> (circuit_breaker \<Rightarrow> circuit_breaker) \<Rightarrow> manager \<Rightarrow> manager" where
  "on_breaker k f = modify_key k (\<lambda>x. x\<lparr>pk_circuitBreaker := map_option f (pk_circuitBreaker x)\<rparr>)"

fun mark_step ::
  "string option \<times> string option \<Rightarrow> time \<Rightarrow> key_ref \<Rightarrow> marking \<times> manager \<times> database \<Rightarrow> marking \<times> manager \<times> database"
where
  "mark_step io now k (SuccessStart, m, d) =
     (case pk_circuitBreaker (m_store m k) of
        None \<Rightarrow> (SuccessUsed, m, d) | Some cb \<Rightarrow> (SuccessRecord (cb_State cb), m, d))"
| "mark_step io now k (SuccessRecord previousState, m, d) =
     (if previousState \<noteq> CircuitStateClosed then SuccessEvent else SuccessUsed, on_breaker k RecordSuccess m, d)"
| "mark_step io now k (SuccessEvent, m, d) =
     (SuccessUsed, m, m_logKeyEvent (fst io) now (pk_ID (m_store m k)) EventCircuitClosed
        ''circuit breaker closed after successful request'' d)"
| "mark_step io now k (SuccessUsed, m, d) =
     (Marked, m, fst (UpdateAPIKeyLastUsed (snd io) now (pk_ID (m_store m k)) d))"
| "mark_step io now k (FailStart, m, d) =
     (case pk_circuitBreaker (m_store m k) of
        None \<Rightarrow> (Marked, m, d) | Some cb \<Rightarrow> (FailRecord (cb_State cb), m, d))"
| "mark_step io now k (FailRecord previousState, m, d) =
     (FailState previousState, on_breaker k (RecordFailure now) m, d)"
| "mark_step io now k (FailState previousState, m, d) =
     (case pk_circuitBreaker (m_store m k) of
        None \<Rightarrow> (Marked, m, d)
      | Some cb \<Rightarrow> (if previousState \<noteq> cb_State cb then FailEvent (cb_State cb) else FailCount (cb_State cb), m, d))"
| "mark_step io now k (FailEvent newState, m, d) =
     (FailCount newState, m,
      if newState = CircuitStateOpen
      then m_logKeyEvent (fst io) now (pk_ID (m_store m k)) EventCircuitOpened
             ''circuit breaker opened after repeated failures'' d
      else m_logKeyEvent (fst io) now (pk_ID (m_store m k)) EventKeyFailed ''key failed'' d)"
| "mark_step io now k (FailCount newState, m, d) =
     (case pk_circuitBreaker (m_store m k) of
        None \<Rightarrow> (Marked, m, d) | Some cb \<Rightarrow> (FailHealth newState (cb_FailureCount cb), m, d))"
| "mark_step io now k (FailHealth newState failures, m, d) =
     (Marked, m, fst (UpdateAPIKeyHealth (snd io) now (pk_ID (m_store m k)) (newState = CircuitStateClosed)
        failures newState d))"
| "mark_step io now k (Marked, m, d) = (Marked, m, d)"

text \<open>Six steps are enough; undisturbed they are the two methods.\<close>

definition mark_rest ::
  "string option \<times> string option \<Rightarrow> time \<Rightarrow> key_ref \<Rightarrow> marking \<times> manager \<times> database \<Rightarrow> marking \<times> manager \<times> database"
where
  "mark_rest io now k = mark_step io now k ^^ 6"

fun marks_left :: "marking \<Rightarrow> nat" where
  "marks_left SuccessStart = 4" | "marks_left (SuccessRecord p) = 3" | "marks_left SuccessEvent = 2"
| "marks_left SuccessUsed = 1" | "marks_left FailStart = 6" | "marks_left (FailRecord p) = 5"
| "marks_left (FailState p) = 4" | "marks_left (FailEvent n) = 3" | "marks_left (FailCount n) = 2"
| "marks_left (FailHealth n c) = 1" | "marks_left Marked = 0"

lemma marks_left_step: "mk \<noteq> Marked \<Longrightarrow> marks_left (fst (mark_step io now k (mk, m, d))) < marks_left mk"
  by (cases "(io, now, k, mk, m, d)" rule: mark_step.cases) (auto split: option.split)

lemma mark_steps_end: "marks_left mk \<le> n \<Longrightarrow> fst ((mark_step io now k ^^ n) (mk, m, d)) = Marked"
proof (induction n arbitrary: mk m d)
  case 0
  then show ?case by (cases mk) auto
next
  case (Suc n)
  obtain mk' m' d' where s: "mark_step io now k (mk, m, d) = (mk', m', d')" by (metis prod_cases3)
  have "marks_left mk' \<le> n"
  proof (cases "mk = Marked")
    case True
    with s show ?thesis by simp
  next
    case False
    with marks_left_step [of mk io now k m d] s Suc.prems show ?thesis by simp
  qed
  with Suc.IH s show ?case by (simp add: funpow_Suc_right del: funpow.simps)
qed

lemma mark_step_Marked: "(mark_step io now k ^^ n) (Marked, m, d) = (Marked, m, d)"
  by (induction n) auto

lemma mark_rest_Marked [simp]: "mark_rest io now k (Marked, m, d) = (Marked, m, d)"
  by (simp add: mark_rest_def mark_step_Marked)

lemma mark_rest_step: "mark_rest io now k (mark_step io now k (mk, m, d)) = mark_rest io now k (mk, m, d)"
proof -
  have steps: "marks_left mk \<le> 6" by (cases mk) simp_all
  have "mark_rest io now k (mark_step io now k (mk, m, d)) = mark_step io now k (mark_rest io now k (mk, m, d))"
    by (simp add: mark_rest_def funpow_swap1)
  also have "\<dots> = mark_rest io now k (mk, m, d)"
    using mark_steps_end [OF steps, of io now k m d]
    by (cases "mark_rest io now k (mk, m, d)") (simp add: mark_rest_def)
  finally show ?thesis .
qed

lemma mark_rest_methods:
  "mark_rest io now k (SuccessStart, m, d) = (Marked, MarkSuccess io now k (m, d))"
  "mark_rest io now k (FailStart, m, d) = (Marked, MarkFailed io now k (m, d))"
proof -
  show "mark_rest io now k (SuccessStart, m, d) = (Marked, MarkSuccess io now k (m, d))"
    by (cases "pk_circuitBreaker (m_store m k)")
      (simp_all add: mark_rest_def eval_nat_numeral MarkSuccess_def on_breaker_def modify_key_def Let_def)
  show "mark_rest io now k (FailStart, m, d) = (Marked, MarkFailed io now k (m, d))"
    by (cases "pk_circuitBreaker (m_store m k)")
      (simp_all add: mark_rest_def eval_nat_numeral MarkFailed_def on_breaker_def modify_key_def Let_def)
qed

lemma on_breaker_same [simp]: "same_pool m (on_breaker k f m)"
  by (simp add: on_breaker_def)

lemma pool_inv_on_breaker: "pool_inv (m, held) \<Longrightarrow> pool_inv (on_breaker k f m, held)"
  unfolding on_breaker_def modify_key_def by (rule pool_inv_breaker) simp_all

lemma mark_step_manager:
  assumes "pool_inv (m, held)" and "mark_step io now k (mk, m, d) = (mk', m', d')"
  shows "pool_inv (m', held)" and "same_pool m m'"
proof -
  have "m' = m \<or> (\<exists>f. m' = on_breaker k f m)"
    using assms(2) by (cases "(io, now, k, mk, m, d)" rule: mark_step.cases) (auto split: option.splits if_splits)
  with assms(1) show "pool_inv (m', held)" "same_pool m m'"
    using pool_inv_on_breaker by (auto simp: same_pool_def [of m m])
qed

section \<open>Reloading\<close>

text \<open>
  One round of the loop of \<open>StartReloadLoop\<close>. The rows are read before the lock is taken, so the
  database may have changed when they are put into the pool; \<open>Resting\<close> is the wait for the ticker.
\<close>

datatype reloader =
    Resting
  | Fetched "api_key list"
  | Configured "api_key list" hot_config
  | KeysPut
  | Switching hot_config

fun reload_step ::
  "string option \<Rightarrow> hot_config \<Rightarrow> database \<Rightarrow> reloader \<times> manager \<Rightarrow> reloader \<times> manager" where
  "reload_step io hot d (Resting, m) =
     (case GetAllAPIKeys io d of Inl err \<Rightarrow> (KeysPut, m) | Inr rows \<Rightarrow> (Fetched rows, m))"
| "reload_step io hot d (Fetched rows, m) = (Configured rows (hc_Get hot), m)"
| "reload_step io hot d (Configured rows cfg, m) = (KeysPut, put_keys cfg rows m)"
| "reload_step io hot d (KeysPut, m) = (Switching (hc_Get hot), m)"
| "reload_step io hot d (Switching cfg, m) = (Resting, updateStrategy_m cfg m)"

text \<open>The points at which the next step takes the write lock.\<close>

fun needs_lock :: "reloader \<Rightarrow> bool" where
  "needs_lock (Configured rows cfg) = True"
| "needs_lock (Switching cfg) = True"
| "needs_lock _ = False"

fun reloader_ok :: "reloader \<Rightarrow> bool" where
  "reloader_ok (Fetched rows) \<longleftrightarrow> distinct (map ak_ID rows) \<and> (\<forall>a \<in> set rows. limits_ok a)"
| "reloader_ok (Configured rows cfg) \<longleftrightarrow> distinct (map ak_ID rows) \<and> (\<forall>a \<in> set rows. limits_ok a)"
| "reloader_ok _ \<longleftrightarrow> True"

lemma reload_steps:
  "(reload_step io hot d ^^ (case GetAllAPIKeys io d of Inl err \<Rightarrow> 3 | Inr rows \<Rightarrow> 5)) (Resting, m) =
     (Resting, reload_tick io hot d m)"
  by (simp add: reload_tick_def reloadKeys_def eval_nat_numeral split: sum.split)

lemma GetAllAPIKeys_reloader:
  assumes "db_ok d" and "key_limits_ok d" and "GetAllAPIKeys io d = Inr rows"
  shows "reloader_ok (Fetched rows)"
proof -
  have "GetAllAPIKeys None d = Inr rows" using assms(3) by (cases io) (auto simp: GetAllAPIKeys_def)
  with GetAllAPIKeys_distinct [OF assms(1)] GetAllAPIKeys_limits [OF assms(2)] show ?thesis by auto
qed

lemma pool_inv_strategy: "pool_inv (m, held) \<Longrightarrow> pool_inv (updateStrategy_m hot m, held)"
proof -
  have "dom (m_strategies m) \<subseteq> dom (m_strategies (updateStrategy_m hot m))"
    by (auto simp: updateStrategy_m_def Let_def split: option.splits)
  then show "pool_inv (m, held) \<Longrightarrow> pool_inv (updateStrategy_m hot m, held)"
    by (auto simp: pool_inv_iff m_ok_def)
qed

lemma reload_step_inv:
  assumes "pool_inv (m, held)" and "reloader_ok rl" and "db_ok d" and "key_limits_ok d"
    and "reload_step io hot d (rl, m) = (rl', m')"
  shows "pool_inv (m', held)" and "reloader_ok rl'" and "\<not> needs_lock rl \<Longrightarrow> m' = m"
proof -
  have "pool_inv (m', held) \<and> reloader_ok rl' \<and> (\<not> needs_lock rl \<longrightarrow> m' = m)"
    using assms pool_inv_put_keys [OF assms(1)] pool_inv_strategy [OF assms(1)] GetAllAPIKeys_reloader [OF assms(3,4)]
    by (cases "(io, hot, d, rl, m)" rule: reload_step.cases) (auto split: sum.splits)
  then show "pool_inv (m', held)" and "reloader_ok rl'" and "\<not> needs_lock rl \<Longrightarrow> m' = m" by blast+
qed

section \<open>Two workers that mark one key\<close>

text \<open>The steps of several marks of one key, in the order given by the numbers of the workers.\<close>

fun run_marks ::
  "string option \<times> string option \<Rightarrow> time \<Rightarrow> key_ref \<Rightarrow> nat list \<Rightarrow> marking list \<Rightarrow> manager \<times> database \<Rightarrow>
   marking list \<times> manager \<times> database" where
  "run_marks io now k [] mks md = (mks, md)"
| "run_marks io now k (i # order) mks md =
     (let (mk, md') = mark_step io now k (mks ! i, md) in run_marks io now k order (mks[i := mk]) md')"

lemma GetAPIKey_logged: "GetAPIKey None i (m_logKeyEvent io now i' ty msg d) = GetAPIKey None i d"
  by (simp add: GetAPIKey_def m_logKeyEvent_def CreateKeyEvent_def split: option.split)

lemma health_written:
  assumes "GetAPIKey None i d = Inr row"
  obtains row' where "GetAPIKey None i (fst (UpdateAPIKeyHealth None now i h n st d)) = Inr row'"
    and "ak_CircuitState row' = st" and "ak_IsHealthy row' = h"
proof -
  let ?f = "\<lambda>r. (set_key (\<lambda>k. k\<lparr>ak_FailureCount := n, ak_CircuitState := st, ak_UpdatedAt := datetime now\<rparr>) r)
      \<lparr>kr_is_healthy := boolToInt h\<rparr>"
  obtain r where r: "find (\<lambda>r. kr_id r = i) (db_keys d) = Some r"
    using assms by (auto simp: GetAPIKey_def split: option.splits)
  then have "kr_id r = i" by (auto simp: find_Some_iff)
  moreover have "find (\<lambda>r. kr_id r = i) (update_where (\<lambda>r. kr_id r = i) ?f (db_keys d)) =
      map_option (\<lambda>r. if kr_id r = i then ?f r else r) (find (\<lambda>r. kr_id r = i) (db_keys d))"
    by (rule find_update_where) (simp add: kr_id_def set_key_def)
  ultimately have "GetAPIKey None i (fst (UpdateAPIKeyHealth None now i h n st d)) = Inr (scanAPIKey (?f r))"
    using r by (simp add: GetAPIKey_def UpdateAPIKeyHealth_def execExpectingOneRow_def)
  then show thesis
    by (rule that) (simp_all add: scanAPIKey_def set_key_def boolToInt_def intToBool_def)
qed

text \<open>C38: the health that the database shows for a key can be outdated for good: when two workers report the
  failures that open a breaker, the one that saw it still closed can write last. Then both calls
  have returned, the breaker is open, and the row of the key says closed and healthy.\<close>

theorem health_row_can_be_stale:
  assumes "pk_circuitBreaker (m_store m k) = Some cb" and "cb_state cb = CircuitStateClosed"
    and "cb_failureCount cb + 2 = cb_failureThreshold cb" and "0 \<le> cb_failureCount cb"
    and "in_i64 (cb_failureThreshold cb)" and "GetAPIKey None (pk_ID (m_store m k)) d = Inr row"
  shows "\<exists>m' d' cb' row'. run_marks (None, None) now k [0, 0, 0, 0, 1, 1, 1, 1, 1, 1, 0] [FailStart, FailStart] (m, d) =
      ([Marked, Marked], m', d') \<and>
    pk_circuitBreaker (m_store m' k) = Some cb' \<and> cb_state cb' = CircuitStateOpen \<and>
    GetAPIKey None (pk_ID (m_store m k)) d' = Inr row' \<and>
    ak_CircuitState row' = CircuitStateClosed \<and> ak_IsHealthy row'"
proof -
  let ?cb1 = "RecordFailure now cb" and ?i = "pk_ID (m_store m k)"
  let ?cb2 = "RecordFailure now ?cb1"
  have count: "i64 (cb_failureCount cb + 1) = cb_failureCount cb + 1"
      "i64 (cb_failureCount cb + 1 + 1) = cb_failureCount cb + 1 + 1"
    using assms(3-5) by (auto simp: in_i64_def intro!: i64_idI)
  have first: "cb_State ?cb1 = CircuitStateClosed" "cb_State cb = CircuitStateClosed"
    using assms(2,3) count by (simp_all add: cb_State_def RecordFailure_state)
  have second: "cb_State ?cb2 = CircuitStateOpen"
    using assms(3) count by (simp add: cb_State_def RecordFailure_state)
  let ?d1 = "fst (UpdateAPIKeyHealth None now ?i False (cb_FailureCount ?cb2) CircuitStateOpen
      (m_logKeyEvent None now ?i EventCircuitOpened ''circuit breaker opened after repeated failures'' d))"
  have "GetAPIKey None ?i (m_logKeyEvent None now ?i EventCircuitOpened
      ''circuit breaker opened after repeated failures'' d) = Inr row"
    using assms(6) by (simp add: GetAPIKey_logged)
  then obtain row1 where row1: "GetAPIKey None ?i ?d1 = Inr row1" by (rule health_written)
  obtain row' where row':
    "GetAPIKey None ?i (fst (UpdateAPIKeyHealth None now ?i True (cb_FailureCount ?cb1) CircuitStateClosed ?d1)) = Inr row'"
    "ak_CircuitState row' = CircuitStateClosed" "ak_IsHealthy row' = True"
    by (rule health_written [OF row1])
  have "run_marks (None, None) now k [0, 0, 0, 0, 1, 1, 1, 1, 1, 1, 0] [FailStart, FailStart] (m, d) =
    ([Marked, Marked], on_breaker k (RecordFailure now) (on_breaker k (RecordFailure now) m),
     fst (UpdateAPIKeyHealth None now ?i True (cb_FailureCount ?cb1) CircuitStateClosed ?d1))"
    using assms(1) first second by (simp add: on_breaker_def modify_key_def Let_def)
  moreover have "pk_circuitBreaker (m_store (on_breaker k (RecordFailure now) (on_breaker k (RecordFailure now) m)) k) =
      Some ?cb2"
    using assms(1) by (simp add: on_breaker_def modify_key_def)
  ultimately show ?thesis using row' second unfolding cb_State_def by blast
qed

definition example_unhealthy :: manager where
  "example_unhealthy = modify_key 1 (\<lambda>x. x\<lparr>pk_circuitBreaker := Some (NewCircuitBreaker 2 1000)\<rparr>) example_manager"

theorem health_row_can_be_stale_witness:
  "\<exists>m' d'. run_marks (None, None) 7 1 [0, 0, 0, 0, 1, 1, 1, 1, 1, 1, 0] [FailStart, FailStart]
      (example_unhealthy, example_pool_db) = ([Marked, Marked], m', d') \<and>
    map_option cb_state (pk_circuitBreaker (m_store m' 1)) = Some CircuitStateOpen"
proof -
  have cb: "pk_circuitBreaker (m_store example_unhealthy 1) = Some (NewCircuitBreaker 2 1000)"
    by (simp add: example_unhealthy_def modify_key_def)
  have "isl (GetAPIKey None (pk_ID (m_store example_unhealthy 1)) example_pool_db) = False" by code_simp
  then obtain row where "GetAPIKey None (pk_ID (m_store example_unhealthy 1)) example_pool_db = Inr row"
    by (cases "GetAPIKey None (pk_ID (m_store example_unhealthy 1)) example_pool_db") auto
  from health_row_can_be_stale [OF cb _ _ _ _ this, of 7] obtain m' d' cb' where
    "run_marks (None, None) 7 1 [0, 0, 0, 0, 1, 1, 1, 1, 1, 1, 0] [FailStart, FailStart]
      (example_unhealthy, example_pool_db) = ([Marked, Marked], m', d')"
    "pk_circuitBreaker (m_store m' 1) = Some cb'" "cb_state cb' = CircuitStateOpen"
    by (auto simp: in_i64_def simp del: run_marks.simps)
  then show ?thesis by (intro exI conjI) (assumption, simp)
qed

end
