(* ===== verification/Go_Json.thy ===== *)
theory Go_Json
  imports Go_Strings "HOL-Library.AList"
begin

text \<open>
  What the handlers use of \<open>encoding/json\<close>: the tree of a JSON text and the way
  \<open>Decoder.Decode\<close> with \<open>DisallowUnknownFields\<close> stores it in a struct or in a map of strings. The
  text is turned into its tree by an argument of the functions that read one; the rules that
  decide which member goes to which field, what null does and what is an error are written out
  here.
\<close>

section \<open>Values\<close>

text \<open>A number keeps its literal, an object its members in the order of the text.\<close>

datatype json =
    JNull
  | JBool bool
  | JNum string
  | JStr string
  | JArr "json list"
  | JObj "(string \<times> json) list"

datatype json_error =
    SyntaxError
  | TypeError string
  | UnknownField string

section \<open>Field names\<close>

text \<open>
  A member goes to the field with exactly its name, or else to the one with the same name up to
  case. The folding of \<open>encoding/json\<close> also takes two non-ASCII letters to ASCII ones: the long s
  (U+017F) and the Kelvin sign (U+212A), in UTF-8 the bytes below.
\<close>

definition byte :: "nat \<Rightarrow> char" where
  "byte n = char_of n"

fun fold_name :: "string \<Rightarrow> string" where
  "fold_name [] = []"
| "fold_name (c # cs) =
     (if c = byte 197 \<and> take 1 cs = [byte 191] then CHR ''s'' # fold_name (drop 1 cs)
      else if c = byte 226 \<and> take 2 cs = [byte 132, byte 170] then CHR ''k'' # fold_name (drop 2 cs)
      else lower_char c # fold_name cs)"

type_synonym 'b field = "string \<times> ('b \<Rightarrow> json \<Rightarrow> json_error + 'b)"

definition find_field :: "'b field list \<Rightarrow> string \<Rightarrow> 'b field option" where
  "find_field fs name =
     (case find (\<lambda>f. fst f = name) fs of
        Some f \<Rightarrow> Some f
      | None \<Rightarrow> find (\<lambda>f. fold_name (fst f) = fold_name name) fs)"

section \<open>Decoding\<close>

text \<open>The values of the fields: null leaves a string and an int as they are.\<close>

definition into_string :: "string \<Rightarrow> ('b \<Rightarrow> string \<Rightarrow> 'b) \<Rightarrow> 'b \<Rightarrow> json \<Rightarrow> json_error + 'b" where
  "into_string name put b v =
     (case v of JStr s \<Rightarrow> Inr (put b s) | JNull \<Rightarrow> Inr b | _ \<Rightarrow> Inl (TypeError name))"

definition into_int :: "string \<Rightarrow> ('b \<Rightarrow> int \<Rightarrow> 'b) \<Rightarrow> 'b \<Rightarrow> json \<Rightarrow> json_error + 'b" where
  "into_int name put b v =
     (case v of
        JNum lit \<Rightarrow> (case Atoi lit of None \<Rightarrow> Inl (TypeError name) | Some n \<Rightarrow> Inr (put b n))
      | JNull \<Rightarrow> Inr b
      | _ \<Rightarrow> Inl (TypeError name))"

text \<open>
  A map of strings, as the list of its entries. Null makes the map nil; null as an entry's value
  stores the empty string.
\<close>

fun string_entries :: "string \<Rightarrow> (string \<times> json) list \<Rightarrow> (string \<times> string) list \<Rightarrow>
    json_error + (string \<times> string) list" where
  "string_entries name [] m = Inr m"
| "string_entries name ((k, v) # ms) m =
     (case v of
        JStr s \<Rightarrow> string_entries name ms (AList.update k s m)
      | JNull \<Rightarrow> string_entries name ms (AList.update k '''' m)
      | _ \<Rightarrow> Inl (TypeError name))"

definition string_map :: "string \<Rightarrow> json \<Rightarrow> (string \<times> string) list \<Rightarrow> json_error + (string \<times> string) list" where
  "string_map name v m =
     (case v of JObj ms \<Rightarrow> string_entries name ms m | JNull \<Rightarrow> Inr [] | _ \<Rightarrow> Inl (TypeError name))"

definition into_map ::
  "string \<Rightarrow> ('b \<Rightarrow> (string \<times> string) list) \<Rightarrow> ('b \<Rightarrow> (string \<times> string) list \<Rightarrow> 'b) \<Rightarrow>
   'b \<Rightarrow> json \<Rightarrow> json_error + 'b" where
  "into_map name get put b v =
     (case string_map name v (get b) of Inl e \<Rightarrow> Inl e | Inr m \<Rightarrow> Inr (put b m))"

text \<open>
  A struct. \<open>Decode\<close> goes on after an unknown field or a mismatch and returns the first error, so
  stopping at it gives the same result: what else was stored is not looked at.
\<close>

fun into_struct :: "'b field list \<Rightarrow> (string \<times> json) list \<Rightarrow> 'b \<Rightarrow> json_error + 'b" where
  "into_struct fs [] b = Inr b"
| "into_struct fs ((name, v) # ms) b =
     (case find_field fs name of
        None \<Rightarrow> Inl (UnknownField name)
      | Some (_, put) \<Rightarrow> (case put b v of Inl e \<Rightarrow> Inl e | Inr b' \<Rightarrow> into_struct fs ms b'))"

definition decode_struct :: "'b field list \<Rightarrow> 'b \<Rightarrow> json \<Rightarrow> json_error + 'b" where
  "decode_struct fs zero v =
     (case v of JObj ms \<Rightarrow> into_struct fs ms zero | JNull \<Rightarrow> Inr zero | _ \<Rightarrow> Inl (TypeError ''''))"

definition decode_string_map :: "json \<Rightarrow> json_error + (string \<times> string) list" where
  "decode_string_map v = string_map '''' v []"

lemma string_entries_distinct:
  "string_entries name ms m = Inr m' \<Longrightarrow> distinct (map fst m) \<Longrightarrow> distinct (map fst m')"
  by (induction name ms m rule: string_entries.induct)
    (auto simp: distinct_update split: json.splits)

lemma decode_string_map_distinct: "decode_string_map v = Inr m \<Longrightarrow> distinct (map fst m)"
  by (auto simp: decode_string_map_def string_map_def split: json.splits
      intro: string_entries_distinct)

end
