(* ===== verification/Http_Client.thy ===== *)
theory Http_Client
  imports Go_Strings
begin

text \<open>
  The outgoing side: the request and response types of \<^verbatim>\<open>internal/worker/worker.go\<close>,
  \<open>ParseJSONMap\<close> of \<^verbatim>\<open>internal/util/json.go\<close> and the client of
  \<^verbatim>\<open>internal/httpclient/client.go\<close>. Header names are canonicalised as \<open>net/http\<close> does. A Go map
  has no order, so the custom headers are the list of the map's entries in the order in which the
  loop meets them. \<open>json.Unmarshal\<close>, the checks of \<open>http.NewRequest\<close> and the transport are
  arguments; the worker's \<open>we_client\<close> is \<open>Do\<close> of the client that \<^verbatim>\<open>cmd/main.go\<close> makes.
\<close>

section \<open>Types\<close>

record http_request =
  hr_Method :: string
  hr_URL :: string
  hr_Headers :: "(string \<times> string) list"
  hr_Body :: string
  hr_APIKey :: string

record http_response =
  hp_StatusCode :: int
  hp_Body :: string

text \<open>What goes to the transport. Each header that is set has one value.\<close>

record outgoing =
  og_Method :: string
  og_URL :: string
  og_Header :: "string \<rightharpoonup> string"
  og_Body :: string

section \<open>Header names\<close>

definition is_lower :: "char \<Rightarrow> bool" where
  "is_lower c \<longleftrightarrow> 97 \<le> (of_char c :: nat) \<and> (of_char c :: nat) \<le> 122"

definition upper_char :: "char \<Rightarrow> char" where
  "upper_char c = (if is_lower c then char_of ((of_char c :: nat) - 32) else c)"

text \<open>The bytes that may occur in a header name (the token characters of RFC 7230).\<close>

definition token_char :: "char \<Rightarrow> bool" where
  "token_char c \<longleftrightarrow> (let n = of_char c :: nat in
     48 \<le> n \<and> n \<le> 57 \<or> 65 \<le> n \<and> n \<le> 90 \<or> 97 \<le> n \<and> n \<le> 122 \<or>
     n \<in> set [33, 35, 36, 37, 38, 39, 42, 43, 45, 46, 94, 95, 96, 124, 126])"

fun canonical_from :: "bool \<Rightarrow> string \<Rightarrow> string" where
  "canonical_from upper [] = []"
| "canonical_from upper (c # cs) =
     (if upper then upper_char c else lower_char c) # canonical_from (c = CHR ''-'') cs"

definition canonical_key :: "string \<Rightarrow> string" where
  "canonical_key s = (if list_all token_char s then canonical_from True s else s)"

definition header_set :: "string \<Rightarrow> string \<Rightarrow> (string \<rightharpoonup> string) \<Rightarrow> string \<rightharpoonup> string" where
  "header_set key val h = h(canonical_key key \<mapsto> val)"

definition header_get :: "string \<Rightarrow> (string \<rightharpoonup> string) \<Rightarrow> string" where
  "header_get key h = (case h (canonical_key key) of None \<Rightarrow> '''' | Some v \<Rightarrow> v)"

section \<open>The client\<close>

text \<open>\<open>unmarshal\<close> is the entries of the decoded map, or \<open>None\<close> for an error.\<close>

definition ParseJSONMap :: "(string \<Rightarrow> (string \<times> string) list option) \<Rightarrow> string \<Rightarrow> (string \<times> string) list" where
  "ParseJSONMap unmarshal jsonStr =
     (if jsonStr = '''' \<or> jsonStr = ''{}'' then []
      else case unmarshal jsonStr of None \<Rightarrow> [] | Some entries \<Rightarrow> entries)"

definition build_outgoing :: "http_request \<Rightarrow> outgoing" where
  "build_outgoing req =
     (let h1 = header_set ''Authorization'' (''Bearer '' @ hr_APIKey req) Map.empty;
          h2 = foldl (\<lambda>h (k, v). header_set k v h) h1 (hr_Headers req);
          h3 = (if hr_Body req \<noteq> '''' \<and> header_get ''Content-Type'' h2 = ''''
                then header_set ''Content-Type'' ''application/json'' h2 else h2)
      in \<lparr>og_Method = hr_Method req, og_URL = hr_URL req, og_Header = h3, og_Body = hr_Body req\<rparr>)"

text \<open>The client of \<open>net/http\<close> is its settings.\<close>

record http_transport =
  tr_MaxIdleConns :: int
  tr_MaxIdleConnsPerHost :: int
  tr_IdleConnTimeout :: duration

record client =
  cl_Timeout :: duration
  cl_Transport :: http_transport

definition NewClient :: "duration \<Rightarrow> int \<Rightarrow> duration \<Rightarrow> client" where
  "NewClient timeout maxIdleConns idleConnTimeout =
     (let transport = \<lparr>tr_MaxIdleConns = maxIdleConns, tr_MaxIdleConnsPerHost = maxIdleConns,
                       tr_IdleConnTimeout = idleConnTimeout\<rparr>
      in \<lparr>cl_Timeout = timeout, cl_Transport = transport\<rparr>)"

text \<open>
  \<open>check\<close> is the error of \<open>http.NewRequestWithContext\<close> for a method and a URL; \<open>send\<close> is what a
  client with these settings returns: an error, or the status and the body, which can fail to be read.
\<close>

definition Do ::
  "(string \<Rightarrow> string \<Rightarrow> string option) \<Rightarrow> (client \<Rightarrow> outgoing \<Rightarrow> string + (int \<times> (string + string))) \<Rightarrow>
   client \<Rightarrow> http_request \<Rightarrow> string + http_response" where
  "Do check send c req =
     (case check (hr_Method req) (hr_URL req) of
        Some e \<Rightarrow> Inl (''failed to create request: '' @ e)
      | None \<Rightarrow>
          (case send c (build_outgoing req) of
             Inl e \<Rightarrow> Inl (''request failed: '' @ e)
           | Inr (_, Inl e) \<Rightarrow> Inl (''failed to read response body: '' @ e)
           | Inr (code, Inr body) \<Rightarrow> Inr \<lparr>hp_StatusCode = code, hp_Body = body\<rparr>))"

section \<open>The headers that arrive\<close>

lemma header_set_other: "canonical_key k \<noteq> i \<Longrightarrow> header_set k v h i = h i"
  by (simp add: header_set_def)

lemma foldl_header_set:
  "\<forall>(k, v) \<in> set hs. canonical_key k \<noteq> i \<Longrightarrow> foldl (\<lambda>h (k, v). header_set k v h) h hs i = h i"
  by (induction hs arbitrary: h) (auto simp: header_set_other)

lemma canonical_constants [simp]:
  "canonical_key ''Authorization'' = ''Authorization''" "canonical_key ''Content-Type'' = ''Content-Type''"
  by code_simp+

section \<open>Properties\<close>

definition example_http :: http_request where
  "example_http = \<lparr>hr_Method = ''POST'', hr_URL = ''http://x'', hr_Headers = [(''x-trace'', ''1'')],
     hr_Body = ''{}'', hr_APIKey = ''sk''\<rparr>"

text \<open>The request that leaves carries the pool's key as a bearer token, and a body without a
  content type is declared as JSON, provided no custom header has the name of the authorization
  header up to letter case.\<close>

theorem outgoing_carries_the_key:
  assumes "\<forall>(k, v) \<in> set (hr_Headers req). canonical_key k \<noteq> ''Authorization''"
  shows "og_Header (build_outgoing req) ''Authorization'' = Some (''Bearer '' @ hr_APIKey req) \<and>
    ((\<forall>(k, v) \<in> set (hr_Headers req). canonical_key k \<noteq> ''Content-Type'') \<and> hr_Body req \<noteq> '''' \<longrightarrow>
       og_Header (build_outgoing req) ''Content-Type'' = Some ''application/json'') \<and>
    (hr_Headers req = [] \<and> hr_Body req = '''' \<longrightarrow> og_Header (build_outgoing req) ''Content-Type'' = None)"
  using foldl_header_set [OF assms, of "header_set ''Authorization'' (''Bearer '' @ hr_APIKey req) Map.empty"]
    foldl_header_set [of "hr_Headers req" "''Content-Type''"
      "header_set ''Authorization'' (''Bearer '' @ hr_APIKey req) Map.empty"]
  by (auto simp: build_outgoing_def Let_def header_set_def header_get_def)

theorem outgoing_carries_the_key_witness:
  "og_Header (build_outgoing example_http) ''Authorization'' = Some ''Bearer sk''"
proof -
  have "\<forall>(k, v) \<in> set (hr_Headers example_http). canonical_key k \<noteq> ''Authorization''" by code_simp
  from outgoing_carries_the_key [OF this] show ?thesis by (simp add: example_http_def)
qed

text \<open>A custom header that the submitter of a request chose can replace the pool's key, in any
  spelling of its name: the entry overrides the bearer token.\<close>

theorem custom_header_overrides_the_key:
  "og_Header (build_outgoing (example_http\<lparr>hr_Headers := [(''aUTHORIZATION'', ''none'')]\<rparr>))
     ''Authorization'' = Some ''none''"
  by code_simp

end
