(* ===== verification/Key_Crypto.thy ===== *)
theory Key_Crypto
  imports Go_Strings
begin

text \<open>
  The encryption of stored keys (\<^verbatim>\<open>internal/crypto/crypto.go\<close>): the hexadecimal coding of
  \<open>encoding/hex\<close> and the two operations over it. AES-256-GCM itself is a parameter: \<open>seal key nonce
  plaintext\<close> is the ciphertext with its tag, and \<open>open_gcm key nonce ciphertext\<close> is \<open>None\<close> where
  authentication fails. What the random source delivers is an argument, \<open>None\<close> for its error. A
  cipher for a 32-byte key and GCM over it can be built without error, so those two branches of
  the code are not reached.
\<close>

section \<open>Hexadecimal coding\<close>

definition hex_digit :: "nat \<Rightarrow> char" where
  "hex_digit n = (if n < 10 then char_of (48 + n) else char_of (87 + n))"

definition hex_value :: "char \<Rightarrow> nat option" where
  "hex_value c =
     (let n = of_char c
      in if 48 \<le> n \<and> n \<le> 57 then Some (n - 48)
         else if 97 \<le> n \<and> n \<le> 102 then Some (n - 87)
         else if 65 \<le> n \<and> n \<le> 70 then Some (n - 55)
         else None)"

datatype hex_error = InvalidByte char | OddLength

fun EncodeToString :: "string \<Rightarrow> string" where
  "EncodeToString [] = []"
| "EncodeToString (b # bs) =
     hex_digit (of_char b div 16) # hex_digit (of_char b mod 16) # EncodeToString bs"

fun DecodeString :: "string \<Rightarrow> hex_error + string" where
  "DecodeString [] = Inr []"
| "DecodeString [c] = (case hex_value c of None \<Rightarrow> Inl (InvalidByte c) | Some _ \<Rightarrow> Inl OddLength)"
| "DecodeString (c # d # cs) =
     (case hex_value c of
        None \<Rightarrow> Inl (InvalidByte c)
      | Some h \<Rightarrow>
          (case hex_value d of
             None \<Rightarrow> Inl (InvalidByte d)
           | Some l \<Rightarrow>
               (case DecodeString cs of
                  Inl e \<Rightarrow> Inl e
                | Inr bs \<Rightarrow> Inr (char_of (16 * h + l) # bs))))"

section \<open>Encrypt and Decrypt\<close>

datatype crypto_error =
    KeyNotHex hex_error
  | KeyLength nat
  | NonceFailed
  | CiphertextNotHex hex_error
  | CiphertextTooShort
  | OpenFailed

definition nonce_size :: nat where "nonce_size = 12"

definition decode_key :: "string \<Rightarrow> crypto_error + string" where
  "decode_key keyHex =
     (case DecodeString keyHex of
        Inl e \<Rightarrow> Inl (KeyNotHex e)
      | Inr key \<Rightarrow> if length key \<noteq> 32 then Inl (KeyLength (length key)) else Inr key)"

definition Encrypt ::
  "(string \<Rightarrow> string \<Rightarrow> string \<Rightarrow> string) \<Rightarrow> string option \<Rightarrow> string \<Rightarrow> string \<Rightarrow> crypto_error + string" where
  "Encrypt seal random plaintext keyHex =
     (case decode_key keyHex of
        Inl e \<Rightarrow> Inl e
      | Inr key \<Rightarrow>
          (case random of
             None \<Rightarrow> Inl NonceFailed
           | Some nonce \<Rightarrow> Inr (EncodeToString (nonce @ seal key nonce plaintext))))"

definition Decrypt ::
  "(string \<Rightarrow> string \<Rightarrow> string \<Rightarrow> string option) \<Rightarrow> string \<Rightarrow> string \<Rightarrow> crypto_error + string" where
  "Decrypt open_gcm ciphertextHex keyHex =
     (case decode_key keyHex of
        Inl e \<Rightarrow> Inl e
      | Inr key \<Rightarrow>
          (case DecodeString ciphertextHex of
             Inl e \<Rightarrow> Inl (CiphertextNotHex e)
           | Inr ciphertext \<Rightarrow>
               if length ciphertext < nonce_size then Inl CiphertextTooShort
               else case open_gcm key (take nonce_size ciphertext) (drop nonce_size ciphertext) of
                      None \<Rightarrow> Inl OpenFailed
                    | Some plaintext \<Rightarrow> Inr plaintext))"

section \<open>The coding is a bijection up to letter case\<close>

lemma hex_digit_value: "n < 16 \<Longrightarrow> hex_value (hex_digit n) = Some n"
  by (auto simp: hex_value_def hex_digit_def)

lemma hex_value_less: "hex_value c = Some n \<Longrightarrow> n < 16"
  by (auto simp: hex_value_def Let_def split: if_splits)

lemma decode_encode: "DecodeString (EncodeToString bs) = Inr bs"
proof (induction bs)
  case (Cons b bs)
  have "of_char b < (256 :: nat)" by (rule nat_of_char_less_256)
  then have "hex_value (hex_digit (of_char b div 16)) = Some (of_char b div 16)"
      "hex_value (hex_digit (of_char b mod 16)) = Some (of_char b mod 16)"
    by (simp_all add: hex_digit_value less_mult_imp_div_less)
  moreover have "char_of (16 * (of_char b div 16) + of_char b mod 16 :: nat) = b"
    by (simp add: mult_div_mod_eq)
  ultimately show ?case using Cons.IH by simp
qed simp

lemma hex_digit_lower: "hex_value c = Some n \<Longrightarrow> hex_digit n = lower_char c"
proof -
  assume v: "hex_value c = Some n"
  define m where "m = (of_char c :: nat)"
  have c: "c = char_of m" and "m < 256" by (simp_all add: m_def nat_of_char_less_256)
  then show ?thesis
    using v by (auto simp: hex_value_def hex_digit_def lower_char_def Let_def split: if_splits)
qed

lemma encode_decode: "DecodeString s = Inr bs \<Longrightarrow> EncodeToString bs = to_lower s"
proof (induction s arbitrary: bs rule: DecodeString.induct)
  case (3 c d cs)
  then obtain h l ds where dec: "hex_value c = Some h" "hex_value d = Some l"
      "DecodeString cs = Inr ds" and bs: "bs = char_of (16 * h + l) # ds"
    by (auto split: option.splits sum.splits)
  then have "h < 16" "l < 16" by (auto dest: hex_value_less)
  then have "of_char (char_of (16 * h + l) :: char) = 16 * h + l" by simp
  then have "of_char (char_of (16 * h + l) :: char) div 16 = h"
      "of_char (char_of (16 * h + l) :: char) mod 16 = l"
    using \<open>l < 16\<close> by simp_all
  moreover have "EncodeToString ds = to_lower cs" using 3 dec by blast
  ultimately show ?case
    using hex_digit_lower [OF dec(1)] hex_digit_lower [OF dec(2)] by (simp add: bs to_lower_def)
qed (auto simp: to_lower_def split: option.splits)

lemma decode_ok_iff:
  "(\<exists>bs. DecodeString s = Inr bs) \<longleftrightarrow> even (length s) \<and> (\<forall>c \<in> set s. hex_value c \<noteq> None)"
  by (induction s rule: DecodeString.induct) (auto split: option.splits sum.splits)

lemma encode_length: "length (EncodeToString bs) = 2 * length bs"
  by (induction bs) auto

lemma decode_length: "DecodeString s = Inr bs \<Longrightarrow> length s = 2 * length bs"
  using encode_decode [of s bs] encode_length [of bs] by (simp add: to_lower_def)

lemma decode_key_ok:
  "(\<exists>key. decode_key k = Inr key) \<longleftrightarrow> length k = 64 \<and> (\<forall>c \<in> set k. hex_value c \<noteq> None)"
proof
  assume "\<exists>key. decode_key k = Inr key"
  then obtain key where "DecodeString k = Inr key" "length key = 32"
    by (auto simp: decode_key_def split: sum.splits if_splits)
  with decode_length [of k key] decode_ok_iff [of k]
  show "length k = 64 \<and> (\<forall>c \<in> set k. hex_value c \<noteq> None)" by auto
next
  assume k: "length k = 64 \<and> (\<forall>c \<in> set k. hex_value c \<noteq> None)"
  then have "even (length k)" by simp
  with k decode_ok_iff [of k] obtain key where key: "DecodeString k = Inr key" by auto
  with decode_length [OF key] k show "\<exists>key. decode_key k = Inr key" by (simp add: decode_key_def)
qed

section \<open>Properties\<close>

text \<open>C25: what was encrypted is decrypted: with a key of 64 hexadecimal digits and a 12-byte nonce
  from the random source, \<open>Encrypt\<close> succeeds, its result is the lower-case hexadecimal form of the
  nonce and the ciphertext, and \<open>Decrypt\<close> under the same key gives the plaintext back, for every
  AEAD whose \<open>Open\<close> inverts its \<open>Seal\<close>.\<close>

theorem decrypt_encrypt:
  assumes open_seal: "\<And>key nonce p. open_gcm key nonce (seal key nonce p) = Some p"
    and key: "length keyHex = 64" "\<forall>c \<in> set keyHex. hex_value c \<noteq> None"
    and nonce: "length nonce = nonce_size"
  shows "\<exists>key c. DecodeString keyHex = Inr key \<and>
    Encrypt seal (Some nonce) plaintext keyHex = Inr c \<and>
    DecodeString c = Inr (nonce @ seal key nonce plaintext) \<and>
    Decrypt open_gcm c keyHex = Inr plaintext"
proof -
  obtain key where k: "decode_key keyHex = Inr key" using key decode_key_ok [of keyHex] by blast
  then have "DecodeString keyHex = Inr key"
    by (auto simp: decode_key_def split: sum.splits if_splits)
  with k nonce open_seal show ?thesis
    by (simp add: Encrypt_def Decrypt_def decode_encode)
qed

definition toy_seal :: "string \<Rightarrow> string \<Rightarrow> string \<Rightarrow> string" where
  "toy_seal key nonce p = rev p @ nonce"

definition toy_open :: "string \<Rightarrow> string \<Rightarrow> string \<Rightarrow> string option" where
  "toy_open key nonce c =
     (let n = length c - length nonce
      in if drop n c = nonce then Some (rev (take n c)) else None)"

lemma toy_open_seal: "toy_open key nonce (toy_seal key nonce p) = Some p"
  by (simp add: toy_open_def toy_seal_def)

theorem decrypt_encrypt_witness:
  "\<exists>c. Encrypt toy_seal (Some (replicate 12 CHR ''n'')) ''sk-123'' (replicate 64 CHR ''A'') = Inr c \<and>
     Decrypt toy_open c (replicate 64 CHR ''A'') = Inr ''sk-123''"
proof -
  have "hex_value CHR ''A'' \<noteq> None" by code_simp
  then have "\<forall>c \<in> set (replicate 64 CHR ''A''). hex_value c \<noteq> None" by simp
  then show ?thesis
    using decrypt_encrypt [of toy_open toy_seal "replicate 64 CHR ''A''" "replicate 12 CHR ''n''"
        "''sk-123''"]
    by (auto simp: toy_open_seal nonce_size_def)
qed

text \<open>\<open>Decrypt\<close> accepts nothing but what \<open>Encrypt\<close> can produce under the same key: if the
  AEAD's \<open>Open\<close> accepts only sealed texts, then a ciphertext that decrypts to \<open>p\<close> is, in lower
  case, the encryption of \<open>p\<close> for some nonce; so tampering with any digit of the nonce, the text
  or the tag is an error.\<close>

theorem decrypt_only_encrypted:
  assumes authentic: "\<And>key nonce c p. open_gcm key nonce c = Some p \<Longrightarrow> c = seal key nonce p"
    and dec: "Decrypt open_gcm cHex keyHex = Inr p"
  shows "\<exists>nonce. length nonce = nonce_size \<and> Encrypt seal (Some nonce) p keyHex = Inr (to_lower cHex)"
proof -
  obtain key c where k: "decode_key keyHex = Inr key" and c: "DecodeString cHex = Inr c"
      "nonce_size \<le> length c" "open_gcm key (take nonce_size c) (drop nonce_size c) = Some p"
    using dec by (auto simp: Decrypt_def split: sum.splits if_splits option.splits)
  have "take nonce_size c @ seal key (take nonce_size c) p = c"
    using authentic [OF c(3)] by (metis append_take_drop_id)
  with k encode_decode [OF c(1)] have "Encrypt seal (Some (take nonce_size c)) p keyHex = Inr (to_lower cHex)"
    by (simp add: Encrypt_def)
  with c(2) show ?thesis by (intro exI [of _ "take nonce_size c"]) simp
qed

lemma toy_authentic: "toy_open key nonce c = Some p \<Longrightarrow> c = toy_seal key nonce p"
  by (auto simp: toy_open_def toy_seal_def Let_def split: if_splits) (metis append_take_drop_id)

theorem decrypt_only_encrypted_witness:
  "\<exists>nonce. length nonce = nonce_size \<and>
     Encrypt toy_seal (Some nonce) ''k'' (replicate 64 CHR ''0'') =
       Inr (to_lower (EncodeToString (replicate 12 CHR ''n'' @ ''k'' @ replicate 12 CHR ''n'')))"
proof -
  have "Decrypt toy_open (EncodeToString (replicate 12 CHR ''n'' @ ''k'' @ replicate 12 CHR ''n''))
      (replicate 64 CHR ''0'') = Inr ''k''" by code_simp
  from decrypt_only_encrypted [OF toy_authentic this] show ?thesis .
qed

text \<open>An encryption key that validation accepted by its length but that is not hexadecimal makes
  every \<open>Encrypt\<close> and every \<open>Decrypt\<close> fail, before anything is encrypted or decrypted.\<close>

theorem bad_key_always_fails:
  assumes "\<exists>c \<in> set keyHex. hex_value c = None"
  shows "(\<exists>e. Encrypt seal random p keyHex = Inl (KeyNotHex e)) \<and>
    (\<exists>e. Decrypt open_gcm c keyHex = Inl (KeyNotHex e))"
proof -
  have "\<nexists>key. DecodeString keyHex = Inr key" using assms decode_ok_iff [of keyHex] by auto
  then obtain e where "DecodeString keyHex = Inl e" by (cases "DecodeString keyHex") auto
  then show ?thesis by (simp add: Encrypt_def Decrypt_def decode_key_def)
qed

theorem bad_key_always_fails_witness:
  "\<exists>e. Encrypt toy_seal None ''k'' (replicate 64 CHR ''z'') = Inl (KeyNotHex e)"
proof -
  have "\<exists>c \<in> set (replicate 64 CHR ''z''). hex_value c = None" by code_simp
  from bad_key_always_fails [OF this] show ?thesis by blast
qed

end
