(* ===== verification/Heap_Interface.thy ===== *)
theory Heap_Interface
  imports Go_Base
begin

text \<open>
  \<open>container/heap\<close> of Go's standard library, which the queue calls: \<open>Init\<close>, \<open>Push\<close>, \<open>Pop\<close>,
  \<open>Remove\<close> and their two loops \<open>up\<close> and \<open>down\<close>, over the methods of \<open>heap.Interface\<close> that
  the caller supplies. The methods are arguments here, as they are there. An index out of
  range, on which the supplied methods panic, is \<open>None\<close>.

  The locale \<open>heap_interface\<close> is the contract of the supplied methods: \<open>Less\<close> orders the
  positions by a strict weak order, and \<open>Swap\<close> exchanges two of them. Under it the loops keep
  and restore the heap order; the model of the queue interprets it.
\<close>

section \<open>The operations\<close>

function heap_up :: "('s \<Rightarrow> nat \<Rightarrow> nat \<Rightarrow> bool) \<Rightarrow> ('s \<Rightarrow> nat \<Rightarrow> nat \<Rightarrow> 's) \<Rightarrow> 's \<Rightarrow> nat \<Rightarrow> 's" where
  "heap_up lt swap s j =
     (let i = (j - 1) div 2
      in if i = j \<or> \<not> lt s j i then s else heap_up lt swap (swap s i j) i)"
  by pat_completeness auto
termination
  by (relation "measure (\<lambda>(lt, swap, s, j). j)") auto

text \<open>\<open>down\<close> returns the state and the position where it stopped.\<close>

function heap_down_loop ::
  "('s \<Rightarrow> nat \<Rightarrow> nat \<Rightarrow> bool) \<Rightarrow> ('s \<Rightarrow> nat \<Rightarrow> nat \<Rightarrow> 's) \<Rightarrow> 's \<Rightarrow> nat \<Rightarrow> nat \<Rightarrow> 's \<times> nat" where
  "heap_down_loop lt swap s i n =
     (let j1 = 2 * i + 1
      in if n \<le> j1 then (s, i)
         else let j = (if j1 + 1 < n \<and> lt s (j1 + 1) j1 then j1 + 1 else j1)
              in if \<not> lt s j i then (s, i)
                 else heap_down_loop lt swap (swap s i j) j n)"
  by pat_completeness auto
termination
  by (relation "measure (\<lambda>(lt, swap, s, i, n). n - i)") (auto split: if_splits)

declare heap_up.simps [simp del] heap_down_loop.simps [simp del]

definition heap_down ::
  "('s \<Rightarrow> nat \<Rightarrow> nat \<Rightarrow> bool) \<Rightarrow> ('s \<Rightarrow> nat \<Rightarrow> nat \<Rightarrow> 's) \<Rightarrow> 's \<Rightarrow> nat \<Rightarrow> nat \<Rightarrow> 's \<times> bool" where
  "heap_down lt swap s i0 n =
     (let (s', i) = heap_down_loop lt swap s i0 n in (s', i0 < i))"

text \<open>\<open>heap.Init\<close>: \<open>down\<close> from the last parent to the root.\<close>

fun heap_init_from :: "('s \<Rightarrow> nat \<Rightarrow> nat \<Rightarrow> bool) \<Rightarrow> ('s \<Rightarrow> nat \<Rightarrow> nat \<Rightarrow> 's) \<Rightarrow> 's \<Rightarrow> nat \<Rightarrow> nat \<Rightarrow> 's" where
  "heap_init_from lt swap s n 0 = s"
| "heap_init_from lt swap s n (Suc i) =
     heap_init_from lt swap (fst (heap_down lt swap s i n)) n i"

definition heap_Init ::
  "('s \<Rightarrow> nat) \<Rightarrow> ('s \<Rightarrow> nat \<Rightarrow> nat \<Rightarrow> bool) \<Rightarrow> ('s \<Rightarrow> nat \<Rightarrow> nat \<Rightarrow> 's) \<Rightarrow> 's \<Rightarrow> 's" where
  "heap_Init len lt swap s = heap_init_from lt swap s (len s) (len s div 2)"

definition heap_Push ::
  "('s \<Rightarrow> nat) \<Rightarrow> ('s \<Rightarrow> nat \<Rightarrow> nat \<Rightarrow> bool) \<Rightarrow> ('s \<Rightarrow> nat \<Rightarrow> nat \<Rightarrow> 's) \<Rightarrow>
   ('s \<Rightarrow> 'x \<Rightarrow> 's) \<Rightarrow> 's \<Rightarrow> 'x \<Rightarrow> 's" where
  "heap_Push len lt swap push s x = (let s1 = push s x in heap_up lt swap s1 (len s1 - 1))"

definition heap_Pop ::
  "('s \<Rightarrow> nat) \<Rightarrow> ('s \<Rightarrow> nat \<Rightarrow> nat \<Rightarrow> bool) \<Rightarrow> ('s \<Rightarrow> nat \<Rightarrow> nat \<Rightarrow> 's) \<Rightarrow>
   ('s \<Rightarrow> 's \<times> 'x) \<Rightarrow> 's \<Rightarrow> ('s \<times> 'x) option" where
  "heap_Pop len lt swap pop s =
     (if len s = 0 then None
      else let n = len s - 1
           in Some (pop (fst (heap_down lt swap (swap s 0 n) 0 n))))"

definition heap_Remove ::
  "('s \<Rightarrow> nat) \<Rightarrow> ('s \<Rightarrow> nat \<Rightarrow> nat \<Rightarrow> bool) \<Rightarrow> ('s \<Rightarrow> nat \<Rightarrow> nat \<Rightarrow> 's) \<Rightarrow>
   ('s \<Rightarrow> 's \<times> 'x) \<Rightarrow> 's \<Rightarrow> int \<Rightarrow> ('s \<times> 'x) option" where
  "heap_Remove len lt swap pop s i =
     (if i < 0 \<or> int (len s) \<le> i then None
      else let n = len s - 1; k = nat i
           in if n = k then Some (pop s)
              else let (s1, moved) = heap_down lt swap (swap s k n) k n
                   in Some (pop (if moved then s1 else heap_up lt swap s1 k)))"

section \<open>The contract and the heap order\<close>

text \<open>The transposition of two positions.\<close>

definition tr :: "nat \<Rightarrow> nat \<Rightarrow> nat \<Rightarrow> nat" where
  "tr i j a = (if a = i then j else if a = j then i else a)"

lemma tr_simps [simp]: "tr i j i = j" "tr i j j = i" "a \<noteq> i \<Longrightarrow> a \<noteq> j \<Longrightarrow> tr i j a = a"
  by (auto simp: tr_def)

definition parent :: "nat \<Rightarrow> nat" where
  "parent k = (k - 1) div 2"

lemma parent_less: "0 < k \<Longrightarrow> parent k < k"
  by (auto simp: parent_def)

lemma parent_eq_iff: "0 < k \<Longrightarrow> parent k = i \<longleftrightarrow> k = 2 * i + 1 \<or> k = 2 * i + 2"
  by (auto simp: parent_def)

lemma parent_0 [simp]: "parent 0 = 0"
  by (simp add: parent_def)

lemma heap_up_unfold:
  "heap_up lt swap s j =
     (if j = 0 \<or> \<not> lt s j (parent j) then s else heap_up lt swap (swap s (parent j) j) (parent j))"
  using parent_less [of j] by (subst heap_up.simps) (auto simp: Let_def parent_def)

locale heap_interface =
  fixes len :: "'s \<Rightarrow> nat"
    and lt :: "'s \<Rightarrow> nat \<Rightarrow> nat \<Rightarrow> bool"
    and swap :: "'s \<Rightarrow> nat \<Rightarrow> nat \<Rightarrow> 's"
  assumes lt_asym: "lt s i j \<Longrightarrow> \<not> lt s j i"
    and lt_negtrans: "\<not> lt s i j \<Longrightarrow> \<not> lt s j k \<Longrightarrow> \<not> lt s i k"
    and len_swap: "i < len s \<Longrightarrow> j < len s \<Longrightarrow> len (swap s i j) = len s"
    and lt_swap: "i < len s \<Longrightarrow> j < len s \<Longrightarrow>
      lt (swap s i j) a b \<longleftrightarrow> lt s (tr i j a) (tr i j b)"
begin

definition heap_ok :: "'s \<Rightarrow> nat \<Rightarrow> bool" where
  "heap_ok s n \<longleftrightarrow> (\<forall>k. 0 < k \<and> k < n \<longrightarrow> \<not> lt s k (parent k))"

text \<open>A heap but for the edge above \<open>j\<close>, and one but for the edges below \<open>i\<close>.\<close>

definition up_ok :: "'s \<Rightarrow> nat \<Rightarrow> nat \<Rightarrow> bool" where
  "up_ok s n j \<longleftrightarrow> (\<forall>k. 0 < k \<and> k < n \<and> k \<noteq> j \<longrightarrow> \<not> lt s k (parent k)) \<and>
     (\<forall>k. 0 < k \<and> k < n \<and> parent k = j \<and> 0 < j \<longrightarrow> \<not> lt s k (parent j))"

definition down_ok :: "'s \<Rightarrow> nat \<Rightarrow> nat \<Rightarrow> bool" where
  "down_ok s n i \<longleftrightarrow> (\<forall>k. 0 < k \<and> k < n \<and> parent k \<noteq> i \<longrightarrow> \<not> lt s k (parent k)) \<and>
     (\<forall>k. 0 < k \<and> k < n \<and> parent k = i \<and> 0 < i \<longrightarrow> \<not> lt s k (parent i))"

lemma lt_irrefl [simp]: "\<not> lt s i i"
  using lt_asym by blast

lemma root_minimal:
  assumes "heap_ok s n" and "k < n"
  shows "\<not> lt s k 0"
  using assms(2)
proof (induction k rule: less_induct)
  case (less k)
  show ?case
  proof (cases "k = 0")
    case False
    then have "\<not> lt s k (parent k)" and "\<not> lt s (parent k) 0"
      using assms(1) less parent_less [of k] by (auto simp: heap_ok_def)
    then show ?thesis by (rule lt_negtrans)
  qed simp
qed

lemma up_swap_ok:
  assumes ok: "up_ok s n j" and n: "j < n" "n \<le> len s" and up: "lt s j (parent j)" "0 < j"
  shows "up_ok (swap s (parent j) j) n (parent j)"
  unfolding up_ok_def
proof (intro conjI allI impI; elim conjE)
  let ?i = "parent j" and ?s = "swap s (parent j) j"
  have ij: "?i < j" "?i < len s" "j < len s" using n parent_less [OF up(2)] by auto
  note swapped = lt_swap [OF ij(2,3)]
  have i_j: "\<not> lt s ?i j" using up(1) by (auto dest: lt_asym)
  have edge: "\<not> lt s k (parent k)" if "0 < k" "k < n" "k \<noteq> j" for k
    using ok that by (simp add: up_ok_def)
  show "\<not> lt ?s k (parent k)" if k: "0 < k" "k < n" "k \<noteq> ?i" for k
  proof -
    consider "k = j" | "k \<noteq> j" "parent k = j" | "k \<noteq> j" "parent k = ?i"
      | "k \<noteq> j" "parent k \<noteq> j" "parent k \<noteq> ?i" by blast
    then show ?thesis
    proof cases
      case 1
      with i_j ij show ?thesis by (simp add: swapped)
    next
      case 2
      then have "\<not> lt s k ?i" using ok k up(2) by (simp add: up_ok_def)
      with 2 k show ?thesis by (simp add: swapped)
    next
      case 3
      then have "\<not> lt s k j" using edge k i_j lt_negtrans by metis
      with 3 k show ?thesis by (simp add: swapped)
    qed (use edge k in \<open>simp add: swapped\<close>)
  qed
  show "\<not> lt ?s k (parent ?i)" if k: "0 < k" "k < n" "parent k = ?i" "0 < ?i" for k
  proof -
    have p: "parent ?i < ?i" using k(4) by (rule parent_less)
    have "\<not> lt s ?i (parent ?i)" using edge [of ?i] k ij n by simp
    moreover have "k \<noteq> j \<Longrightarrow> \<not> lt s k (parent ?i)" using calculation edge k lt_negtrans by metis
    moreover have "k \<noteq> ?i" using k parent_less [of k] by auto
    ultimately show ?thesis using p ij by (cases "k = j") (simp_all add: swapped)
  qed
qed

lemma heap_up_ok:
  "up_ok s n j \<Longrightarrow> j < n \<Longrightarrow> n \<le> len s \<Longrightarrow> heap_ok (heap_up lt swap s j) n"
proof (induction j arbitrary: s rule: less_induct)
  case (less j)
  show ?case
  proof (cases "j = 0 \<or> \<not> lt s j (parent j)")
    case True
    then have "heap_up lt swap s j = s" by (subst heap_up_unfold) simp
    with True less.prems(1) show ?thesis by (auto simp: heap_ok_def up_ok_def)
  next
    case False
    then have "heap_up lt swap s j = heap_up lt swap (swap s (parent j) j) (parent j)"
      by (subst heap_up_unfold) simp
    moreover have "parent j < j" using False by (intro parent_less) simp
    ultimately show ?thesis
      using less.IH [OF _ up_swap_ok [OF less.prems]] less.prems False by (simp add: len_swap)
  qed
qed

lemma heap_up_id: "heap_ok s n \<Longrightarrow> j < n \<Longrightarrow> heap_up lt swap s j = s"
  by (subst heap_up_unfold) (auto simp: heap_ok_def)

text \<open>A property of the state that swaps keep is kept by the loops.\<close>

lemma heap_up_invariant:
  assumes "\<And>s i j. P s \<Longrightarrow> i < len s \<Longrightarrow> j < len s \<Longrightarrow> P (swap s i j)"
  shows "P s \<Longrightarrow> j < len s \<Longrightarrow> P (heap_up lt swap s j)"
proof (induction j arbitrary: s rule: less_induct)
  case (less j)
  show ?case
  proof (cases "j = 0 \<or> \<not> lt s j (parent j)")
    case True
    with less.prems show ?thesis by (subst heap_up_unfold) simp
  next
    case False
    then have i: "parent j < j" "parent j < len s" using less.prems parent_less [of j] by auto
    with False less.IH [OF i(1), of "swap s (parent j) j"] less.prems assms show ?thesis
      by (subst heap_up_unfold) (simp add: len_swap)
  qed
qed

lemma heap_up_len: "j < len s \<Longrightarrow> len (heap_up lt swap s j) = len s"
  by (rule heap_up_invariant [where P = "\<lambda>t. len t = len s"]) (auto simp: len_swap)

text \<open>One round of \<open>down\<close>: the child it looks at, and what the round does.\<close>

definition small_child :: "'s \<Rightarrow> nat \<Rightarrow> nat \<Rightarrow> nat" where
  "small_child s i n = (if 2 * i + 2 < n \<and> lt s (2 * i + 2) (2 * i + 1) then 2 * i + 2 else 2 * i + 1)"

lemma down_loop_unfold:
  "heap_down_loop lt swap s i n =
     (if n \<le> 2 * i + 1 \<or> \<not> lt s (small_child s i n) i then (s, i)
      else heap_down_loop lt swap (swap s i (small_child s i n)) (small_child s i n) n)"
  by (subst heap_down_loop.simps) (simp add: Let_def small_child_def)

lemma small_child_props:
  assumes "2 * i + 1 < n"
  shows "parent (small_child s i n) = i" and "i < small_child s i n" and "small_child s i n < n"
  using assms by (auto simp: small_child_def parent_def)

lemma small_child_least:
  assumes "0 < k" and "k < n" and "parent k = i"
  shows "\<not> lt s k (small_child s i n)"
proof -
  have "k = 2 * i + 1 \<or> k = 2 * i + 2" using assms parent_eq_iff by simp
  then show ?thesis using assms(2) by (auto simp: small_child_def dest: lt_asym)
qed

lemma down_loop_invariant:
  assumes "\<And>s i j. P s \<Longrightarrow> i < n \<Longrightarrow> j < n \<Longrightarrow> P (swap s i j)"
  shows "P s \<Longrightarrow> P (fst (heap_down_loop lt swap s i n))"
proof (induction "n - i" arbitrary: s i rule: less_induct)
  case less
  show ?case
  proof (cases "n \<le> 2 * i + 1 \<or> \<not> lt s (small_child s i n) i")
    case True
    with less.prems show ?thesis by (subst down_loop_unfold) simp
  next
    case False
    then have c: "i < small_child s i n" "small_child s i n < n" using small_child_props by auto
    have "P (swap s i (small_child s i n))" using assms less.prems c by auto
    with less.hyps [of "small_child s i n"] c False show ?thesis
      by (subst down_loop_unfold) (simp add: diff_less_mono2)
  qed
qed

lemma down_loop_len: "n \<le> len s \<Longrightarrow> len (fst (heap_down_loop lt swap s i n)) = len s"
  by (rule down_loop_invariant [where P = "\<lambda>t. len t = len s"]) (auto simp: len_swap)

lemma down_loop_stays:
  "snd (heap_down_loop lt swap s i n) = i \<and> fst (heap_down_loop lt swap s i n) = s \<or>
   i < snd (heap_down_loop lt swap s i n)"
proof (induction "n - i" arbitrary: s i rule: less_induct)
  case less
  show ?case
  proof (cases "n \<le> 2 * i + 1 \<or> \<not> lt s (small_child s i n) i")
    case True
    then show ?thesis by (subst (1 2) down_loop_unfold) simp
  next
    case False
    then have c: "i < small_child s i n" "small_child s i n < n" using small_child_props by auto
    then show ?thesis
      using less.hyps [of "small_child s i n" "swap s i (small_child s i n)"] False
      by (subst (3) down_loop_unfold) (auto simp: diff_less_mono2)
  qed
qed

lemma down_swap_ok:
  assumes ok: "down_ok s n i" and n: "n \<le> len s" "i < len s"
    and c: "parent c = i" "i < c" "c < n" "lt s c i"
    and least: "\<forall>k. 0 < k \<and> k < n \<and> parent k = i \<longrightarrow> \<not> lt s k c"
  shows "down_ok (swap s i c) n c"
  unfolding down_ok_def
proof (intro conjI allI impI; elim conjE)
  have edge: "\<not> lt s k (parent k)" if "0 < k" "k < n" "parent k \<noteq> i" for k
    using ok that by (simp add: down_ok_def)
  have swapped: "lt (swap s i c) a b = lt s (tr i c a) (tr i c b)" for a b
    using n c by (intro lt_swap) auto
  show "\<not> lt (swap s i c) k (parent k)" if k: "0 < k" "k < n" "parent k \<noteq> c" for k
  proof -
    consider "k = i" | "k = c" | "k \<noteq> i" "k \<noteq> c" "parent k = i" | "k \<noteq> i" "k \<noteq> c" "parent k \<noteq> i" by blast
    then show ?thesis
    proof cases
      case 1
      then have "\<not> lt s c (parent i)" and "parent i < i"
        using ok k c parent_less [of i] by (auto simp: down_ok_def)
      with 1 k c(2) show ?thesis by (simp add: swapped)
    next
      case 2
      with c(1,4) show ?thesis by (simp add: swapped lt_asym)
    next
      case 3
      with k least show ?thesis by (simp add: swapped)
    qed (use k edge in \<open>simp add: swapped\<close>)
  qed
  show "\<not> lt (swap s i c) k (parent c)" if k: "0 < k" "k < n" "parent k = c" "0 < c" for k
  proof -
    have "k \<noteq> i" "k \<noteq> c" "\<not> lt s k c" using k parent_less [of k] c(2) edge [of k] by auto
    then show ?thesis by (simp add: swapped c(1))
  qed
qed

lemma down_loop_ok:
  "down_ok s n i \<Longrightarrow> n \<le> len s \<Longrightarrow> i < len s \<Longrightarrow>
     heap_ok (fst (heap_down_loop lt swap s i n)) n"
proof (induction "n - i" arbitrary: s i rule: less_induct)
  case less
  let ?c = "small_child s i n" and ?s = "swap s i (small_child s i n)"
  show ?case
  proof (cases "n \<le> 2 * i + 1 \<or> \<not> lt s ?c i")
    case True
    have "\<not> lt s k (parent k)" if "0 < k" "k < n" for k
    proof (cases "parent k = i")
      case p: True
      then have "k = 2 * i + 1 \<or> k = 2 * i + 2" using that parent_eq_iff by simp
      with True that have "\<not> lt s ?c i" by auto
      then show ?thesis using small_child_least [OF that p] lt_negtrans p by metis
    qed (use less.prems(1) that in \<open>simp add: down_ok_def\<close>)
    with True show ?thesis by (subst down_loop_unfold) (simp add: heap_ok_def)
  next
    case False
    then have c: "parent ?c = i" "i < ?c" "?c < n" "lt s ?c i" using small_child_props by auto
    have "\<forall>k. 0 < k \<and> k < n \<and> parent k = i \<longrightarrow> \<not> lt s k ?c" using small_child_least by blast
    from down_swap_ok [OF less.prems c this]
    have "heap_ok (fst (heap_down_loop lt swap ?s ?c n)) n"
      using less.hyps [of ?c ?s] less.prems(2,3) c by (simp add: len_swap diff_less_mono2)
    with False show ?thesis by (subst down_loop_unfold) simp
  qed
qed

end

section \<open>Push, Pop and Remove\<close>

text \<open>
  With what the caller's \<open>Push\<close> and \<open>Pop\<close> promise (\<open>elem\<close> reads a position: \<open>Push\<close> appends an
  element, \<open>Pop\<close> takes the last one away, and neither changes the order of the others), the
  exported operations keep the heap, \<open>Pop\<close> takes the root and \<open>Remove\<close> the position it is
  given.
\<close>

locale heap_container = heap_interface len lt swap
  for len :: "'s \<Rightarrow> nat" and lt :: "'s \<Rightarrow> nat \<Rightarrow> nat \<Rightarrow> bool" and swap :: "'s \<Rightarrow> nat \<Rightarrow> nat \<Rightarrow> 's" +
  fixes elem :: "'s \<Rightarrow> nat \<Rightarrow> 'x"
    and push :: "'s \<Rightarrow> 'x \<Rightarrow> 's"
    and pop :: "'s \<Rightarrow> 's \<times> 'x"
  assumes elem_swap: "i < len s \<Longrightarrow> j < len s \<Longrightarrow> elem (swap s i j) a = elem s (tr i j a)"
    and len_push: "len (push s x) = Suc (len s)"
    and lt_push: "i < len s \<Longrightarrow> j < len s \<Longrightarrow> lt (push s x) i j \<longleftrightarrow> lt s i j"
    and len_pop: "0 < len s \<Longrightarrow> len (fst (pop s)) = len s - 1"
    and lt_pop: "i < len s - 1 \<Longrightarrow> j < len s - 1 \<Longrightarrow> lt (fst (pop s)) i j \<longleftrightarrow> lt s i j"
    and pop_last: "0 < len s \<Longrightarrow> snd (pop s) = elem s (len s - 1)"
begin

lemma heap_push_ok:
  assumes "heap_ok s (len s)"
  shows "heap_ok (heap_Push len lt swap push s x) (Suc (len s))"
proof -
  have "up_ok (push s x) (Suc (len s)) (len s)"
    unfolding up_ok_def
  proof (intro conjI allI impI; elim conjE)
    fix k assume k: "0 < k" "k < Suc (len s)" "k \<noteq> len s"
    then have "parent k < len s" using parent_less [of k] by auto
    with k assms show "\<not> lt (push s x) k (parent k)" by (simp add: lt_push heap_ok_def)
  next
    fix k assume "0 < k" "k < Suc (len s)" "parent k = len s"
    then show "\<not> lt (push s x) k (parent (len s))" using parent_less [of k] by auto
  qed
  then show ?thesis
    unfolding heap_Push_def Let_def by (simp add: len_push heap_up_ok)
qed

lemma heap_push_invariant:
  assumes "\<And>s i j. P s \<Longrightarrow> i < len s \<Longrightarrow> j < len s \<Longrightarrow> P (swap s i j)" and "P (push s x)"
  shows "P (heap_Push len lt swap push s x)"
  unfolding heap_Push_def Let_def
  by (rule heap_up_invariant [where P = P, OF assms]) (simp_all add: len_push)

lemma heap_prefix: "heap_ok s n \<Longrightarrow> k \<le> n \<Longrightarrow> heap_ok s k"
  by (auto simp: heap_ok_def)

lemma pop_heap_ok:
  assumes "heap_ok s (len s - 1)" and "0 < len s"
  shows "heap_ok (fst (pop s)) (len (fst (pop s)))"
  unfolding heap_ok_def
proof (intro allI impI; elim conjE)
  fix k assume k: "0 < k" "k < len (fst (pop s))"
  then have "parent k < len s - 1" "k < len s - 1"
    using parent_less [of k] assms(2) by (auto simp: len_pop)
  with k assms(1) show "\<not> lt (fst (pop s)) k (parent k)" by (simp add: lt_pop heap_ok_def)
qed

text \<open>\<open>down\<close> within the first \<open>n\<close> positions does not touch the position \<open>n\<close>.\<close>

lemma down_loop_above:
  assumes "n < len s"
  shows "elem (fst (heap_down_loop lt swap s i n)) n = elem s n"
proof -
  have "len (fst (heap_down_loop lt swap s i n)) = len s \<and>
      elem (fst (heap_down_loop lt swap s i n)) n = elem s n"
    using assms
    by (intro down_loop_invariant [where P = "\<lambda>t. len t = len s \<and> elem t n = elem s n"])
      (auto simp: len_swap elem_swap)
  then show ?thesis by simp
qed

lemma heap_up_above:
  assumes "j < n" and "n < len s"
  shows "elem (heap_up lt swap s j) n = elem s n"
  using assms
proof (induction j arbitrary: s rule: less_induct)
  case (less j)
  show ?case
  proof (cases "j = 0 \<or> \<not> lt s j (parent j)")
    case False
    then have "parent j < j" using parent_less [of j] by simp
    with less False show ?thesis
      by (subst heap_up_unfold) (simp add: len_swap elem_swap)
  qed (subst heap_up_unfold, simp)
qed

text \<open>The state of \<open>Remove\<close> before its call of the caller's \<open>Pop\<close>.\<close>

definition bring_last :: "'s \<Rightarrow> nat \<Rightarrow> 's" where
  "bring_last s i =
     (let n = len s - 1
      in if n = i then s
         else let (s1, moved) = heap_down lt swap (swap s i n) i n
              in if moved then s1 else heap_up lt swap s1 i)"

lemma swap_last_down_ok:
  assumes heap: "heap_ok s (len s)" and n: "len s = Suc n" and i: "i < n"
    and above: "\<not> lt (swap s i n) i (parent i) \<or> i = 0"
  shows "down_ok (swap s i n) n i"
proof -
  have swapped: "lt (swap s i n) a b = lt s (tr i n a) (tr i n b)" for a b
    using i n by (intro lt_swap) auto
  have edge: "\<not> lt s k (parent k) \<and> parent k < k" if "0 < k" "k < Suc n" for k
    using heap n that parent_less [of k] by (simp add: heap_ok_def)
  show ?thesis
    unfolding down_ok_def
  proof (intro conjI allI impI; elim conjE)
    fix k
    assume k: "0 < k" "k < n" "parent k \<noteq> i"
    with edge [of k] above show "\<not> lt (swap s i n) k (parent k)"
      by (cases "k = i") (auto simp: swapped)
  next
    fix k
    assume k: "0 < k" "k < n" "parent k = i" "0 < i"
    with edge [of k] edge [of i] i have "\<not> lt s k (parent i)" "parent i < i" "i < k"
      using lt_negtrans [of s k i "parent i"] by auto
    with k i show "\<not> lt (swap s i n) k (parent i)" by (simp add: swapped)
  qed
qed

lemma swap_last_up_ok:
  assumes heap: "heap_ok s (len s)" and n: "len s = Suc n" and i: "i < n"
    and above: "lt (swap s i n) i (parent i)" "0 < i"
  shows "up_ok (swap s i n) n i"
    and "0 < k \<Longrightarrow> k < n \<Longrightarrow> parent k = i \<Longrightarrow> \<not> lt (swap s i n) k i"
proof -
  let ?s = "swap s i n"
  have swapped: "lt ?s a b = lt s (tr i n a) (tr i n b)" for a b
    using i n by (intro lt_swap) auto
  have edge: "\<not> lt s k (parent k) \<and> parent k < k" if "0 < k" "k < Suc n" for k
    using heap n that parent_less [of k] by (simp add: heap_ok_def)
  have below: "\<not> lt ?s k i \<and> \<not> lt ?s k (parent i)" if k: "0 < k" "k < n" "parent k = i" for k
  proof -
    have "\<not> lt s k (parent i)" "i < k" "parent i < i"
      using edge [of k] edge [of i] k above(2) i lt_negtrans [of s k i "parent i"] by auto
    then have "\<not> lt ?s k (parent i)" using i k by (simp add: swapped)
    moreover have "\<not> lt ?s (parent i) i" using above(1) by (rule lt_asym)
    ultimately show ?thesis using lt_negtrans by blast
  qed
  then show "0 < k \<Longrightarrow> k < n \<Longrightarrow> parent k = i \<Longrightarrow> \<not> lt ?s k i" for k by blast
  have "\<not> lt ?s k (parent k)" if k: "0 < k" "k < n" "k \<noteq> i" for k
  proof (cases "parent k = i")
    case False
    with k edge [of k] show ?thesis by (simp add: swapped)
  qed (use below k in simp)
  then show "up_ok ?s n i" using below by (simp add: up_ok_def)
qed

lemma moved_down_ok:
  assumes heap: "heap_ok s (len s)" and n: "len s = Suc n" and i: "i < n"
    and moved: "i < snd (heap_down_loop lt swap (swap s i n) i n)"
  shows "heap_ok (fst (heap_down_loop lt swap (swap s i n) i n)) n"
proof -
  let ?s = "swap s i n"
  have "\<not> (lt ?s i (parent i) \<and> 0 < i)"
  proof
    assume above: "lt ?s i (parent i) \<and> 0 < i"
    have "n \<le> 2 * i + 1 \<or> \<not> lt ?s (small_child ?s i n) i"
      using swap_last_up_ok(2) [OF heap n i, of "small_child ?s i n"] above small_child_props [of i n ?s] by fastforce
    then have "heap_down_loop lt swap ?s i n = (?s, i)" by (subst down_loop_unfold) auto
    with moved show False by simp
  qed
  then show ?thesis using down_loop_ok [OF swap_last_down_ok [OF heap n i]] n i by (auto simp: len_swap)
qed

lemma stayed_up_ok:
  assumes heap: "heap_ok s (len s)" and n: "len s = Suc n" and i: "i < n"
    and stays: "\<not> i < snd (heap_down_loop lt swap (swap s i n) i n)"
  shows "heap_ok (heap_up lt swap (swap s i n) i) n"
proof (cases "lt (swap s i n) i (parent i) \<and> 0 < i")
  case True
  then show ?thesis using heap_up_ok [OF swap_last_up_ok(1) [OF heap n i]] n i by (simp add: len_swap)
next
  case False
  then have "heap_ok (swap s i n) n"
    using down_loop_ok [OF swap_last_down_ok [OF heap n i]] down_loop_stays [of "swap s i n" i n] stays n i
    by (auto simp: len_swap)
  then show ?thesis using heap_up_id i by simp
qed

lemma bring_last_ok:
  assumes heap: "heap_ok s (len s)" and n: "len s = Suc n" and i: "i \<le> n"
  shows "heap_ok (bring_last s i) n \<and> len (bring_last s i) = Suc n \<and>
    elem (bring_last s i) n = elem s i"
proof (cases "i = n")
  case True
  then show ?thesis using heap_prefix [OF heap, of n] n by (simp add: bring_last_def)
next
  case False
  then have i: "i < n" using i by simp
  let ?s = "swap s i n" and ?d = "heap_down_loop lt (\<lambda>s. swap s) (swap s i n) i n"
  have len: "len ?s = Suc n" and at_n: "elem ?s n = elem s i" using i n by (simp_all add: len_swap elem_swap)
  have eq: "bring_last s i = (if i < snd ?d then fst ?d else heap_up lt swap ?s i)"
    using False n down_loop_stays [of ?s i n] by (auto simp: bring_last_def heap_down_def split_beta)
  show ?thesis
  proof (cases "i < snd ?d")
    case True
    then show ?thesis
      using moved_down_ok [OF heap n i] down_loop_len [of n ?s i] down_loop_above [of n ?s i] len at_n
      by (simp add: eq)
  next
    case False
    then show ?thesis
      using stayed_up_ok [OF heap n i] heap_up_len [of i ?s] heap_up_above [of i n ?s] len at_n i
      by (simp add: eq)
  qed
qed

lemma bring_last_invariant:
  assumes "\<And>s i j. P s \<Longrightarrow> i < len s \<Longrightarrow> j < len s \<Longrightarrow> P (swap s i j)"
    and "P s" and "i < len s"
  shows "P (bring_last s i)"
proof (cases "i = len s - 1")
  case True
  with assms show ?thesis by (simp add: bring_last_def)
next
  case False
  let ?n = "len s - 1" and ?Q = "\<lambda>t. P t \<and> len t = len s"
  have Q_swap: "?Q (swap t a b)" if "?Q t" "a < len s" "b < len s" for t a b
    using that assms(1) by (simp add: len_swap)
  have start: "?Q (swap s i ?n)" using Q_swap assms(2,3) by simp
  have "?Q (fst (heap_down_loop lt swap (swap s i ?n) i ?n))"
    by (rule down_loop_invariant [where P = ?Q]) (use Q_swap start in auto)
  then show ?thesis
    using heap_up_invariant [where P = P, OF assms(1)] False assms(3)
    by (auto simp: bring_last_def heap_down_def Let_def split_beta)
qed

lemma heap_Remove_eq:
  assumes "i < len s"
  shows "heap_Remove len lt swap pop s (int i) = Some (pop (bring_last s i))"
  using assms by (auto simp: heap_Remove_def bring_last_def Let_def split_beta)

text \<open>The same for \<open>Pop\<close>.\<close>

definition root_last :: "'s \<Rightarrow> 's" where
  "root_last s = fst (heap_down lt swap (swap s 0 (len s - 1)) 0 (len s - 1))"

lemma heap_Pop_eq: "0 < len s \<Longrightarrow> heap_Pop len lt swap pop s = Some (pop (root_last s))"
  by (simp add: heap_Pop_def root_last_def Let_def)

lemma root_last_ok:
  assumes heap: "heap_ok s (len s)" and n: "len s = Suc n"
  shows "heap_ok (root_last s) n \<and> len (root_last s) = Suc n \<and> elem (root_last s) n = elem s 0"
proof -
  let ?s = "swap s 0 n"
  have len: "len ?s = Suc n" and at_n: "elem ?s n = elem s 0"
    using n by (simp_all add: len_swap elem_swap)
  have "heap_ok (fst (heap_down_loop lt swap ?s 0 n)) n"
  proof (cases "n = 0")
    case True
    then show ?thesis by (simp add: heap_ok_def)
  next
    case False
    then show ?thesis using down_loop_ok [OF swap_last_down_ok [OF heap n, of 0]] len by simp
  qed
  then show ?thesis
    using down_loop_len [of n ?s 0] down_loop_above [of n ?s 0] len at_n n
    by (simp add: root_last_def heap_down_def split_beta)
qed

lemma root_last_invariant:
  assumes "\<And>s i j. P s \<Longrightarrow> i < len s \<Longrightarrow> j < len s \<Longrightarrow> P (swap s i j)"
    and "P s" and "0 < len s"
  shows "P (root_last s)"
proof -
  let ?Q = "\<lambda>t. P t \<and> len t = len s"
  have Q_swap: "?Q (swap t a b)" if "?Q t" "a < len s" "b < len s" for t a b
    using that assms(1) by (simp add: len_swap)
  have "?Q (fst (heap_down_loop lt swap (swap s 0 (len s - 1)) 0 (len s - 1)))"
    by (rule down_loop_invariant [where P = ?Q]) (use Q_swap assms(2,3) in auto)
  then show ?thesis by (simp add: root_last_def heap_down_def split_beta)
qed

text \<open>What the caller gets: the element at the root, at the position, and a heap.\<close>

lemma heap_Pop_ok:
  assumes "heap_ok s (len s)" and "0 < len s"
  obtains s' where "heap_Pop len lt swap pop s = Some (s', elem s 0)"
    and "heap_ok s' (len s')" and "len s' = len s - 1" and "s' = fst (pop (root_last s))"
proof -
  obtain n where n: "len s = Suc n" using assms(2) gr0_implies_Suc by blast
  note ok = root_last_ok [OF assms(1) n]
  have "pop (root_last s) = (fst (pop (root_last s)), elem s 0)"
    using ok pop_last [of "root_last s"] by (simp add: prod_eq_iff)
  with that show thesis
    using pop_heap_ok [of "root_last s"] heap_Pop_eq [OF assms(2)] ok n len_pop [of "root_last s"]
    by simp
qed

lemma heap_Remove_ok:
  assumes "heap_ok s (len s)" and "i < len s"
  obtains s' where "heap_Remove len lt swap pop s (int i) = Some (s', elem s i)"
    and "heap_ok s' (len s')" and "len s' = len s - 1" and "s' = fst (pop (bring_last s i))"
proof -
  obtain n where n: "len s = Suc n" using assms(2) by (cases "len s") auto
  have "i \<le> n" using assms(2) n by simp
  note ok = bring_last_ok [OF assms(1) n this]
  have "pop (bring_last s i) = (fst (pop (bring_last s i)), elem s i)"
    using ok pop_last [of "bring_last s i"] by (simp add: prod_eq_iff)
  with that show thesis
    using pop_heap_ok [of "bring_last s i"] heap_Remove_eq [OF assms(2)] ok n
      len_pop [of "bring_last s i"]
    by simp
qed

end

end
