(* ===== verification/Priority_Queue.thy ===== *)
theory Priority_Queue
  imports Heap_Interface
begin

text \<open>
  The priority queue of \<^verbatim>\<open>internal/queue/types.go\<close> and \<^verbatim>\<open>priority_queue.go\<close>: a slice of
  pointers to items, each of which records its own position in its \<open>index\<close> field. The items
  live in a memory (\<open>pq_heap\<close>) and the slice holds references into it, because the position
  that \<open>heap.Remove\<close> is later called with is read back through the pointer. The five methods
  are the arguments that \<open>container/heap\<close> gets; the interpretation at the end of the second
  section shows that they meet its contract.
\<close>

section \<open>Items and their order\<close>

record item =
  it_RequestID :: string
  it_Priority :: int
  it_CreatedAt :: time
  it_index :: int

type_synonym item_ref = nat

record prio_queue =
  pq_refs :: "item_ref list"
  pq_heap :: "item_ref \<Rightarrow> item"

definition pq_at :: "prio_queue \<Rightarrow> nat \<Rightarrow> item" where
  "pq_at q i = pq_heap q (pq_refs q ! i)"

definition pq_Len :: "prio_queue \<Rightarrow> nat" where
  "pq_Len q = length (pq_refs q)"

definition pq_Less :: "prio_queue \<Rightarrow> nat \<Rightarrow> nat \<Rightarrow> bool" where
  "pq_Less q i j =
     (if it_Priority (pq_at q i) \<noteq> it_Priority (pq_at q j)
      then it_Priority (pq_at q i) < it_Priority (pq_at q j)
      else it_CreatedAt (pq_at q i) < it_CreatedAt (pq_at q j))"

definition set_index :: "(item_ref \<Rightarrow> item) \<Rightarrow> item_ref \<Rightarrow> int \<Rightarrow> item_ref \<Rightarrow> item" where
  "set_index h r i = h(r := (h r)\<lparr>it_index := i\<rparr>)"

definition pq_Swap :: "prio_queue \<Rightarrow> nat \<Rightarrow> nat \<Rightarrow> prio_queue" where
  "pq_Swap q i j =
     (let refs = (pq_refs q)[i := pq_refs q ! j, j := pq_refs q ! i]
      in q\<lparr>pq_refs := refs,
           pq_heap := set_index (set_index (pq_heap q) (refs ! i) (int i)) (refs ! j) (int j)\<rparr>)"

definition pq_Push :: "prio_queue \<Rightarrow> item_ref \<Rightarrow> prio_queue" where
  "pq_Push q x =
     q\<lparr>pq_heap := set_index (pq_heap q) x (int (length (pq_refs q))), pq_refs := pq_refs q @ [x]\<rparr>"

definition pq_Pop :: "prio_queue \<Rightarrow> prio_queue \<times> item_ref" where
  "pq_Pop q =
     (let n = length (pq_refs q); item = pq_refs q ! (n - 1)
      in (q\<lparr>pq_heap := set_index (pq_heap q) item (- 1), pq_refs := take (n - 1) (pq_refs q)\<rparr>, item))"

text \<open>What \<open>Less\<close> compares, as a value of a linear order: the smaller rank is served first.\<close>

datatype rank = Rank int time

fun rank_key :: "rank \<Rightarrow> int \<times> time" where
  "rank_key (Rank p c) = (p, c)"

instantiation rank :: linorder
begin

fun less_rank :: "rank \<Rightarrow> rank \<Rightarrow> bool" where
  "less_rank (Rank p c) (Rank q d) \<longleftrightarrow> p < q \<or> p = q \<and> c < d"

fun less_eq_rank :: "rank \<Rightarrow> rank \<Rightarrow> bool" where
  "less_eq_rank (Rank p c) (Rank q d) \<longleftrightarrow> p < q \<or> p = q \<and> c \<le> d"

instance
proof
  fix x y z :: rank
  show "(x < y) = (x \<le> y \<and> \<not> y \<le> x)" by (cases x; cases y) auto
  show "x \<le> x" by (cases x) simp
  show "x \<le> y \<Longrightarrow> y \<le> z \<Longrightarrow> x \<le> z" by (cases x; cases y; cases z) auto
  show "x \<le> y \<Longrightarrow> y \<le> x \<Longrightarrow> x = y" by (cases x; cases y) auto
  show "x \<le> y \<or> y \<le> x" by (cases x; cases y) auto
qed

end

definition item_rank :: "item \<Rightarrow> rank" where
  "item_rank a = Rank (it_Priority a) (it_CreatedAt a)"

abbreviation ref_rank :: "prio_queue \<Rightarrow> item_ref \<Rightarrow> rank" where
  "ref_rank q r \<equiv> item_rank (pq_heap q r)"

lemma pq_Less_rank: "pq_Less q i j \<longleftrightarrow> ref_rank q (pq_refs q ! i) < ref_rank q (pq_refs q ! j)"
  by (auto simp: pq_Less_def item_rank_def pq_at_def)

section \<open>The methods meet the contract of container/heap\<close>

lemma set_index_other [simp]:
  "it_RequestID (set_index h r i x) = it_RequestID (h x)"
  "it_Priority (set_index h r i x) = it_Priority (h x)"
  "it_CreatedAt (set_index h r i x) = it_CreatedAt (h x)"
  by (simp_all add: set_index_def)

lemma set_index_rank [simp]: "item_rank (set_index h r i x) = item_rank (h x)"
  by (simp add: item_rank_def)

lemma set_index_index [simp]: "it_index (set_index h r i x) = (if x = r then i else it_index (h x))"
  by (simp add: set_index_def)

lemma pq_Swap_refs:
  "i < length (pq_refs q) \<Longrightarrow> j < length (pq_refs q) \<Longrightarrow>
     pq_refs (pq_Swap q i j) ! a = pq_refs q ! tr i j a"
  by (auto simp: pq_Swap_def Let_def tr_def nth_list_update)

lemma pq_Swap_rank [simp]: "ref_rank (pq_Swap q i j) r = ref_rank q r"
  by (simp add: pq_Swap_def Let_def)

lemma pq_Push_rank [simp]: "ref_rank (pq_Push q x) r = ref_rank q r"
  by (simp add: pq_Push_def)

lemma pq_Pop_rank [simp]: "ref_rank (fst (pq_Pop q)) r = ref_rank q r"
  by (simp add: pq_Pop_def Let_def)

lemma pq_lengths:
  "length (pq_refs (pq_Swap q i j)) = length (pq_refs q)"
  "length (pq_refs (pq_Push q x)) = Suc (length (pq_refs q))"
  "length (pq_refs (fst (pq_Pop q))) = length (pq_refs q) - 1"
  by (simp_all add: pq_Swap_def pq_Push_def pq_Pop_def Let_def)

interpretation pqh: heap_container pq_Len pq_Less pq_Swap "\<lambda>q i. pq_refs q ! i" pq_Push pq_Pop
  by unfold_locales
    (auto simp: pq_Len_def pq_Less_rank pq_lengths pq_Swap_refs pq_Push_def pq_Pop_def Let_def
      nth_append)

section \<open>Index bookkeeping\<close>

text \<open>
  Every item of the slice occurs once and records its own position; \<open>pq_same\<close> says that a state
  holds the same items and has changed nothing but index fields of its own items.
\<close>

definition pq_wf :: "prio_queue \<Rightarrow> bool" where
  "pq_wf q \<longleftrightarrow> distinct (pq_refs q) \<and>
     (\<forall>i < length (pq_refs q). it_index (pq_heap q (pq_refs q ! i)) = int i)"

definition same_but_index :: "prio_queue \<Rightarrow> prio_queue \<Rightarrow> bool" where
  "same_but_index q q' \<longleftrightarrow>
     (\<forall>r. (pq_heap q' r)\<lparr>it_index := 0\<rparr> = (pq_heap q r)\<lparr>it_index := 0\<rparr>)"

definition pq_inv :: "prio_queue \<Rightarrow> bool" where
  "pq_inv q \<longleftrightarrow> pq_wf q \<and> pqh.heap_ok q (pq_Len q)"

lemma same_but_index_refl [simp]: "same_but_index q q"
  by (simp add: same_but_index_def)

lemma same_but_index_trans:
  "same_but_index p q \<Longrightarrow> same_but_index q r \<Longrightarrow> same_but_index p r"
  by (simp add: same_but_index_def)

lemma same_but_index_rank: "same_but_index q q' \<Longrightarrow> ref_rank q' r = ref_rank q r"
proof -
  assume "same_but_index q q'"
  then have "item_rank ((pq_heap q' r)\<lparr>it_index := 0\<rparr>) = item_rank ((pq_heap q r)\<lparr>it_index := 0\<rparr>)"
    by (simp add: same_but_index_def)
  then show ?thesis by (simp add: item_rank_def)
qed

lemma set_index_same: "(set_index h r i x)\<lparr>it_index := 0\<rparr> = (h x)\<lparr>it_index := 0\<rparr>"
  by (simp add: set_index_def)

lemma pq_Swap_same: "same_but_index q (pq_Swap q i j)"
  by (simp add: same_but_index_def pq_Swap_def Let_def set_index_same)

lemma pq_Push_same: "same_but_index q (pq_Push q x)"
  by (simp add: same_but_index_def pq_Push_def set_index_same)

lemma pq_Pop_same: "same_but_index q (fst (pq_Pop q))"
  by (simp add: same_but_index_def pq_Pop_def Let_def set_index_same)

lemma pq_Swap_set:
  "i < length (pq_refs q) \<Longrightarrow> j < length (pq_refs q) \<Longrightarrow> set (pq_refs (pq_Swap q i j)) = set (pq_refs q)"
  by (simp add: pq_Swap_def Let_def set_swap)

lemma pq_Swap_wf:
  assumes "pq_wf q" and "i < length (pq_refs q)" and "j < length (pq_refs q)"
  shows "pq_wf (pq_Swap q i j)"
proof -
  have dist: "distinct (pq_refs q)" and idx: "\<And>i. i < length (pq_refs q) \<Longrightarrow>
      it_index (pq_heap q (pq_refs q ! i)) = int i"
    using assms(1) by (auto simp: pq_wf_def)
  have "it_index (pq_heap (pq_Swap q i j) (pq_refs (pq_Swap q i j) ! a)) = int a"
    if "a < length (pq_refs q)" for a
    using that assms(2,3) idx dist unfolding pq_Swap_refs [OF assms(2,3)]
    by (auto simp: pq_Swap_def Let_def tr_def nth_list_update nth_eq_iff_index_eq)
  then show ?thesis
    using assms(2,3) dist by (simp add: pq_wf_def pq_lengths) (simp add: pq_Swap_def Let_def)
qed

text \<open>What the loops of \<open>container/heap\<close> do to a well-formed queue, in one predicate.\<close>

definition reordered :: "prio_queue \<Rightarrow> prio_queue \<Rightarrow> bool" where
  "reordered q q' \<longleftrightarrow> pq_wf q' \<and> set (pq_refs q') = set (pq_refs q) \<and>
     length (pq_refs q') = length (pq_refs q) \<and> same_but_index q q' \<and>
     (\<forall>r. r \<notin> set (pq_refs q) \<longrightarrow> pq_heap q' r = pq_heap q r)"

lemma reordered_refl: "pq_wf q \<Longrightarrow> reordered q q"
  by (simp add: reordered_def)

lemma pq_Swap_elsewhere:
  assumes "i < length (pq_refs q)" and "j < length (pq_refs q)" and "r \<notin> set (pq_refs q)"
  shows "pq_heap (pq_Swap q i j) r = pq_heap q r"
  using assms nth_mem [of i "pq_refs q"] nth_mem [of j "pq_refs q"]
  by (auto simp: pq_Swap_def Let_def set_index_def nth_list_update split: if_splits)

lemma reordered_swap:
  assumes "reordered p q" and "i < pq_Len q" and "j < pq_Len q"
  shows "reordered p (pq_Swap q i j)"
  using assms pq_Swap_wf [of q i j] pq_Swap_set [of i q j] pq_Swap_same [of q i j]
    pq_Swap_elsewhere [of i q j] same_but_index_trans [of p q "pq_Swap q i j"]
  by (simp add: reordered_def pq_Len_def pq_lengths)

lemma pq_Pop_wf:
  assumes "pq_wf q" and "pq_refs q \<noteq> []"
  shows "pq_wf (fst (pq_Pop q))"
    and "set (pq_refs (fst (pq_Pop q))) = set (pq_refs q) - {snd (pq_Pop q)}"
    and "it_index (pq_heap (fst (pq_Pop q)) (snd (pq_Pop q))) = - 1"
    and "r \<noteq> snd (pq_Pop q) \<Longrightarrow> pq_heap (fst (pq_Pop q)) r = pq_heap q r"
proof -
  obtain xs x where refs: "pq_refs q = xs @ [x]" using assms(2) by (cases "pq_refs q" rule: rev_cases) auto
  have pop: "pq_Pop q = (q\<lparr>pq_heap := set_index (pq_heap q) x (- 1), pq_refs := xs\<rparr>, x)"
    by (simp add: pq_Pop_def Let_def refs nth_append)
  have "xs ! i \<noteq> x" if "i < length xs" for i
    using that assms(1) nth_mem [OF that] by (auto simp: pq_wf_def refs)
  moreover have "it_index (pq_heap q (xs ! i)) = int i" if "i < length xs" for i
  proof -
    have "i < length (pq_refs q)" using that refs by simp
    then have "it_index (pq_heap q (pq_refs q ! i)) = int i" using assms(1) by (simp add: pq_wf_def)
    then show ?thesis using that by (simp add: refs nth_append)
  qed
  ultimately show "pq_wf (fst (pq_Pop q))"
    using assms(1) by (auto simp: pop pq_wf_def refs)
  show "set (pq_refs (fst (pq_Pop q))) = set (pq_refs q) - {snd (pq_Pop q)}"
    using assms(1) by (auto simp: pop pq_wf_def refs)
  show "it_index (pq_heap (fst (pq_Pop q)) (snd (pq_Pop q))) = - 1"
    by (simp add: pop)
  show "r \<noteq> snd (pq_Pop q) \<Longrightarrow> pq_heap (fst (pq_Pop q)) r = pq_heap q r"
    by (simp add: pop set_index_def)
qed

section \<open>The queue's heap operations\<close>

definition pq_heapInit :: "prio_queue \<Rightarrow> prio_queue" where
  "pq_heapInit q = heap_Init pq_Len pq_Less pq_Swap q"

definition pq_heapPush :: "prio_queue \<Rightarrow> item_ref \<Rightarrow> prio_queue" where
  "pq_heapPush q x = heap_Push pq_Len pq_Less pq_Swap pq_Push q x"

definition pq_heapPop :: "prio_queue \<Rightarrow> (prio_queue \<times> item_ref) option" where
  "pq_heapPop q = heap_Pop pq_Len pq_Less pq_Swap pq_Pop q"

definition pq_heapRemove :: "prio_queue \<Rightarrow> int \<Rightarrow> (prio_queue \<times> item_ref) option" where
  "pq_heapRemove q i = heap_Remove pq_Len pq_Less pq_Swap pq_Pop q i"

lemma pq_inv_empty: "pq_refs q = [] \<Longrightarrow> pq_inv q"
  by (simp add: pq_inv_def pq_wf_def pqh.heap_ok_def pq_Len_def)

lemma pq_inv_root:
  assumes "pq_inv q" and "r \<in> set (pq_refs q)"
  shows "ref_rank q (pq_refs q ! 0) \<le> ref_rank q r"
proof -
  obtain i where "i < pq_Len q" and "pq_refs q ! i = r"
    using assms(2) by (auto simp: in_set_conv_nth pq_Len_def)
  then show ?thesis
    using pqh.root_minimal [of q "pq_Len q" i] assms(1)
    by (simp add: pq_inv_def pq_Less_rank not_less)
qed

lemma pq_heapPush_spec:
  assumes "pq_inv q" and "x \<notin> set (pq_refs q)"
  shows "pq_inv (pq_heapPush q x)" and "set (pq_refs (pq_heapPush q x)) = insert x (set (pq_refs q))"
    and "length (pq_refs (pq_heapPush q x)) = Suc (length (pq_refs q))"
    and "same_but_index q (pq_heapPush q x)"
    and "r \<noteq> x \<Longrightarrow> r \<notin> set (pq_refs q) \<Longrightarrow> pq_heap (pq_heapPush q x) r = pq_heap q r"
proof -
  let ?p = "pq_Push q x" and ?q = "pq_heapPush q x"
  have "it_index (pq_heap ?p (pq_refs ?p ! i)) = int i" if "i < length (pq_refs ?p)" for i
    using that assms nth_mem [of i "pq_refs q"]
    by (cases "i < length (pq_refs q)") (auto simp: pq_inv_def pq_wf_def pq_Push_def nth_append)
  then have "reordered ?p ?p"
    using assms by (simp add: reordered_def pq_inv_def pq_wf_def) (simp add: pq_Push_def)
  then have re: "reordered ?p ?q"
    unfolding pq_heapPush_def
    using pqh.heap_push_invariant [where P = "reordered ?p" and s = q and x = x] reordered_swap
    by blast
  have "pqh.heap_ok ?q (Suc (pq_Len q))"
    unfolding pq_heapPush_def using assms(1) by (intro pqh.heap_push_ok) (simp add: pq_inv_def)
  then show "pq_inv ?q"
    using re by (simp add: pq_inv_def reordered_def pq_Len_def pq_lengths)
  show "set (pq_refs ?q) = insert x (set (pq_refs q))" "length (pq_refs ?q) = Suc (length (pq_refs q))"
    using re by (simp_all add: reordered_def pq_lengths) (simp add: pq_Push_def)
  show "same_but_index q ?q"
    using re pq_Push_same [of q x] by (auto simp: reordered_def intro: same_but_index_trans)
  show "r \<noteq> x \<Longrightarrow> r \<notin> set (pq_refs q) \<Longrightarrow> pq_heap ?q r = pq_heap q r"
    using re by (simp add: reordered_def) (simp add: pq_Push_def set_index_def)
qed

text \<open>What taking one item out does, whichever operation does it.\<close>

definition taken_out :: "prio_queue \<Rightarrow> item_ref \<Rightarrow> prio_queue \<Rightarrow> bool" where
  "taken_out q x q' \<longleftrightarrow> x \<in> set (pq_refs q) \<and> pq_inv q' \<and>
     set (pq_refs q') = set (pq_refs q) - {x} \<and> length (pq_refs q) = Suc (length (pq_refs q')) \<and>
     same_but_index q q' \<and> it_index (pq_heap q' x) = - 1 \<and>
     (\<forall>r. r \<notin> set (pq_refs q) \<longrightarrow> pq_heap q' r = pq_heap q r)"

lemma taken_outI:
  assumes re: "reordered q p" and ne: "pq_refs q \<noteq> []" and x: "x \<in> set (pq_refs q)"
    and pop: "pq_Pop p = (q', x)" and ok: "pqh.heap_ok q' (pq_Len q')"
  shows "taken_out q x q'"
proof -
  have p: "pq_wf p" "pq_refs p \<noteq> []" using re ne by (auto simp: reordered_def)
  note facts = pq_Pop_wf [OF p, unfolded pop fst_conv snd_conv]
  have "same_but_index q q'"
    using re pq_Pop_same [of p] pop by (auto simp: reordered_def intro: same_but_index_trans)
  moreover have "length (pq_refs q) = Suc (length (pq_refs q'))"
    using re pq_lengths(3) [of p] pop ne by (simp add: reordered_def)
  moreover have "pq_heap q' r = pq_heap q r" if "r \<notin> set (pq_refs q)" for r
  proof -
    have "r \<noteq> x" using that x by auto
    then show ?thesis using facts(4) re that by (simp add: reordered_def)
  qed
  ultimately show ?thesis
    using facts x re ok by (simp add: taken_out_def pq_inv_def reordered_def)
qed

lemma pq_heapPop_spec:
  assumes "pq_inv q" and "pq_refs q \<noteq> []"
  obtains q' x where "pq_heapPop q = Some (q', x)" and "taken_out q x q'" and "x = pq_refs q ! 0"
    and "\<forall>r \<in> set (pq_refs q). ref_rank q x \<le> ref_rank q r"
proof -
  have heap: "pqh.heap_ok q (pq_Len q)" and len: "0 < pq_Len q"
    using assms by (auto simp: pq_inv_def pq_Len_def)
  obtain q' where q': "pq_heapPop q = Some (q', pq_refs q ! 0)" "pqh.heap_ok q' (pq_Len q')"
    unfolding pq_heapPop_def by (rule pqh.heap_Pop_ok [OF heap len])
  have "pq_Pop (pqh.root_last q) = (q', pq_refs q ! 0)"
    using q'(1) pqh.heap_Pop_eq [OF len] by (simp add: pq_heapPop_def)
  moreover have "reordered q (pqh.root_last q)"
    using pqh.root_last_invariant [where P = "reordered q" and s = q] reordered_swap
      reordered_refl assms(1) len unfolding pq_inv_def by blast
  ultimately have "taken_out q (pq_refs q ! 0) q'"
    using assms(2) q'(2) by (intro taken_outI) auto
  with that q'(1) pq_inv_root [OF assms(1)] show thesis by blast
qed

lemma pq_heapRemove_spec:
  assumes "pq_inv q" and "x \<in> set (pq_refs q)"
  obtains q' where "pq_heapRemove q (it_index (pq_heap q x)) = Some (q', x)" and "taken_out q x q'"
proof -
  obtain i where i: "i < pq_Len q" "pq_refs q ! i = x"
    using assms(2) by (auto simp: in_set_conv_nth pq_Len_def)
  then have idx: "it_index (pq_heap q x) = int i"
    using assms(1) by (auto simp: pq_inv_def pq_wf_def pq_Len_def)
  have heap: "pqh.heap_ok q (pq_Len q)" using assms(1) by (simp add: pq_inv_def)
  obtain q' where q': "pq_heapRemove q (int i) = Some (q', x)" "pqh.heap_ok q' (pq_Len q')"
    unfolding pq_heapRemove_def i(2) [symmetric] by (rule pqh.heap_Remove_ok [OF heap i(1)])
  then have "pq_Pop (pqh.bring_last q i) = (q', x)"
    using pqh.heap_Remove_eq [OF i(1)] by (simp add: pq_heapRemove_def)
  moreover have "reordered q (pqh.bring_last q i)"
    using pqh.bring_last_invariant [where P = "reordered q" and s = q and i = i] reordered_swap
      reordered_refl assms(1) i(1) unfolding pq_inv_def by blast
  ultimately have "taken_out q x q'"
    using assms(2) q'(2) by (intro taken_outI) auto
  with that q'(1) idx show thesis by simp
qed

end
