(* ===== verification/Request_Queue.thy ===== *)
theory Request_Queue
  imports Priority_Queue "HOL-Library.Multiset"
begin

text \<open>
  The bounded queue of \<^verbatim>\<open>internal/queue/queue.go\<close>: \<open>NewQueue\<close>, \<open>Enqueue\<close> with preemption,
  \<open>Size\<close>, \<open>Close\<close>, \<open>findLowestPriority\<close> and \<open>drainRemaining\<close>. \<open>Enqueue\<close> and \<open>Size\<close> hold the
  queue's mutex throughout and are atomic. The notify channel has capacity one, so its content
  is a bool; a closed channel (\<open>done\<close>) is a bool. The dispatch loop, which interleaves with
  them, is in the theory on dispatching.

  \<open>heap.Pop\<close> and \<open>heap.Remove\<close> panic on a bad index; the result \<open>QPanic\<close> stands for that, and
  the invariant shows it unreachable.
\<close>

section \<open>State and results\<close>

record queue =
  q_pq :: prio_queue
  q_maxSize :: int
  q_closed :: bool
  q_preempt :: bool
  q_notify :: bool
  q_done :: bool
  q_once :: bool

datatype queue_error = ErrQueueFull | ErrQueueClosed

datatype queue_result = QOk | QErr queue_error | QPanic

section \<open>Operations\<close>

definition NewQueue :: "(item_ref \<Rightarrow> item) \<Rightarrow> int \<Rightarrow> bool \<Rightarrow> queue" where
  "NewQueue h maxSize preempt =
     \<lparr>q_pq = pq_heapInit \<lparr>pq_refs = [], pq_heap = h\<rparr>, q_maxSize = maxSize, q_closed = False,
      q_preempt = preempt, q_notify = False, q_done = False, q_once = False\<rparr>"

definition Size :: "queue \<Rightarrow> nat" where
  "Size q = pq_Len (q_pq q)"

text \<open>The loop of \<open>findLowestPriority\<close>.\<close>

fun worst_from :: "(item_ref \<Rightarrow> item) \<Rightarrow> item_ref list \<Rightarrow> item_ref option \<Rightarrow> item_ref option" where
  "worst_from h [] worst = worst"
| "worst_from h (r # rs) worst =
     worst_from h rs
       (case worst of
          None \<Rightarrow> Some r
        | Some w \<Rightarrow>
            if it_Priority (h w) < it_Priority (h r) \<or>
               (it_Priority (h r) = it_Priority (h w) \<and> it_CreatedAt (h w) < it_CreatedAt (h r))
            then Some r else worst)"

definition findLowestPriority :: "queue \<Rightarrow> item_ref option" where
  "findLowestPriority q =
     (if pq_Len (q_pq q) = 0 then None
      else worst_from (pq_heap (q_pq q)) (pq_refs (q_pq q)) None)"

definition push_and_notify :: "queue \<Rightarrow> item_ref \<Rightarrow> queue" where
  "push_and_notify q x = q\<lparr>q_pq := pq_heapPush (q_pq q) x, q_notify := True\<rparr>"

definition Enqueue :: "queue \<Rightarrow> item_ref \<Rightarrow> queue \<times> queue_result" where
  "Enqueue q x =
     (let item = pq_heap (q_pq q) x in
      if q_closed q then (q, QErr ErrQueueClosed)
      else if q_maxSize q \<le> int (pq_Len (q_pq q)) then
        (if \<not> q_preempt q then (q, QErr ErrQueueFull)
         else case findLowestPriority q of
             None \<Rightarrow> (q, QErr ErrQueueFull)
           | Some worst \<Rightarrow>
               if it_Priority (pq_heap (q_pq q) worst) \<le> it_Priority item
               then (q, QErr ErrQueueFull)
               else (case pq_heapRemove (q_pq q) (it_index (pq_heap (q_pq q) worst)) of
                       None \<Rightarrow> (q, QPanic)
                     | Some (pq', _) \<Rightarrow> (push_and_notify (q\<lparr>q_pq := pq'\<rparr>) x, QOk)))
      else (push_and_notify q x, QOk))"

text \<open>\<open>Close\<close> runs once: it marks the queue closed under the mutex, then closes \<open>done\<close>.\<close>

definition close_mark :: "queue \<Rightarrow> queue" where
  "close_mark q = q\<lparr>q_closed := True\<rparr>"

definition close_done :: "queue \<Rightarrow> queue" where
  "close_done q = q\<lparr>q_done := True\<rparr>"

definition Close :: "queue \<Rightarrow> queue" where
  "Close q = (if q_once q then q else close_done (close_mark (q\<lparr>q_once := True\<rparr>)))"

text \<open>
  \<open>drainRemaining\<close> pops until the heap is empty and offers each item to a worker without
  blocking: \<open>ready n\<close> says whether a worker is receiving at the \<open>n\<close>-th offer. The result is the
  queue, the items handed over and the items dropped.
\<close>

lemma pq_heapPop_shorter:
  "pq_heapPop q = Some (q', x) \<Longrightarrow> length (pq_refs q') < length (pq_refs q)"
proof -
  assume pop: "pq_heapPop q = Some (q', x)"
  then have pos: "0 < pq_Len q" by (cases "pq_Len q") (auto simp: pq_heapPop_def heap_Pop_def)
  have "length (pq_refs (fst (heap_down_loop pq_Less pq_Swap p i n))) = length (pq_refs p)" for p i n
    by (rule pqh.down_loop_invariant [where P = "\<lambda>t. length (pq_refs t) = length (pq_refs p)"])
      (simp_all add: pq_lengths)
  then have "length (pq_refs (pqh.root_last q)) = length (pq_refs q)"
    by (simp add: pqh.root_last_def heap_down_def split_beta pq_lengths)
  moreover have "q' = fst (pq_Pop (pqh.root_last q))"
    using pop pqh.heap_Pop_eq [OF pos] by (metis fst_conv option.inject pq_heapPop_def)
  ultimately show ?thesis using pos by (simp add: pq_lengths pq_Len_def)
qed

function drain :: "(nat \<Rightarrow> bool) \<Rightarrow> nat \<Rightarrow> prio_queue \<Rightarrow> prio_queue \<times> item_ref list \<times> item_ref list" where
  "drain ready n q =
     (case pq_heapPop q of
        None \<Rightarrow> (q, [], [])
      | Some (q1, x) \<Rightarrow>
          let (q2, sent, lost) = drain ready (Suc n) q1
          in if ready n then (q2, x # sent, lost) else (q2, sent, x # lost))"
  by pat_completeness auto
termination
  by (relation "measure (\<lambda>(ready, n, q). length (pq_refs q))") (auto dest: pq_heapPop_shorter)

declare drain.simps [simp del]

definition drainRemaining :: "(nat \<Rightarrow> bool) \<Rightarrow> queue \<Rightarrow> queue \<times> item_ref list \<times> item_ref list" where
  "drainRemaining ready q =
     (let (pq', sent, lost) = drain ready 0 (q_pq q) in (q\<lparr>q_pq := pq'\<rparr>, sent, lost))"

section \<open>The worst item\<close>

lemma worst_from_step:
  "worst_from h (r # rs) (Some w) =
     worst_from h rs (Some (if item_rank (h w) < item_rank (h r) then r else w))"
  by (auto simp: item_rank_def)

lemma worst_from_some:
  obtains r where "worst_from h rs (Some w) = Some r" and "r \<in> insert w (set rs)"
    and "\<forall>x \<in> insert w (set rs). item_rank (h x) \<le> item_rank (h r)"
proof (induction rs arbitrary: w thesis)
  case Nil
  then show ?case by simp
next
  case (Cons a rs)
  define v where "v = (if item_rank (h w) < item_rank (h a) then a else w)"
  obtain r where r: "worst_from h rs (Some v) = Some r" "r \<in> insert v (set rs)"
      "\<forall>x \<in> insert v (set rs). item_rank (h x) \<le> item_rank (h r)"
    by (rule Cons.IH)
  have "item_rank (h w) \<le> item_rank (h v)" "item_rank (h a) \<le> item_rank (h v)" "v = a \<or> v = w"
    by (auto simp: v_def not_less)
  with r show ?case
    by (intro Cons.prems [of r]) (auto simp: worst_from_step v_def [symmetric] simp del: worst_from.simps
      intro: order_trans)
qed

lemma findLowestPriority_spec:
  assumes "pq_refs (q_pq q) \<noteq> []"
  obtains w where "findLowestPriority q = Some w" and "w \<in> set (pq_refs (q_pq q))"
    and "\<forall>r \<in> set (pq_refs (q_pq q)). ref_rank (q_pq q) r \<le> ref_rank (q_pq q) w"
proof (cases "pq_refs (q_pq q)")
  case (Cons a rs)
  obtain r where "worst_from (pq_heap (q_pq q)) rs (Some a) = Some r" "r \<in> insert a (set rs)"
      "\<forall>x \<in> insert a (set rs). ref_rank (q_pq q) x \<le> ref_rank (q_pq q) r"
    by (rule worst_from_some)
  with Cons that show thesis by (simp add: findLowestPriority_def pq_Len_def)
qed (use assms in simp)

lemma findLowestPriority_empty: "pq_refs (q_pq q) = [] \<Longrightarrow> findLowestPriority q = None"
  by (simp add: findLowestPriority_def pq_Len_def)

section \<open>Enqueue against its specification\<close>

text \<open>
  The abstract queue is the set of the items it holds, each with its rank. \<open>enqueue_spec\<close> says
  what \<open>Enqueue\<close> promises: what it answers and what it holds afterwards.
\<close>

abbreviation contents :: "queue \<Rightarrow> item_ref set" where
  "contents q \<equiv> set (pq_refs (q_pq q))"

abbreviation q_rank :: "queue \<Rightarrow> item_ref \<Rightarrow> rank" where
  "q_rank q \<equiv> ref_rank (q_pq q)"

definition worst_of :: "queue \<Rightarrow> item_ref \<Rightarrow> bool" where
  "worst_of q w \<longleftrightarrow> w \<in> contents q \<and> (\<forall>r \<in> contents q. q_rank q r \<le> q_rank q w)"

definition is_full :: "queue \<Rightarrow> bool" where
  "is_full q \<longleftrightarrow> q_maxSize q \<le> int (card (contents q))"

definition enqueue_spec :: "queue \<Rightarrow> item_ref \<Rightarrow> queue_result \<Rightarrow> item_ref set \<Rightarrow> bool" where
  "enqueue_spec q x res after \<longleftrightarrow>
     (if q_closed q then res = QErr ErrQueueClosed \<and> after = contents q
      else if \<not> is_full q then res = QOk \<and> after = insert x (contents q)
      else if q_preempt q \<and> (\<exists>w. worst_of q w \<and>
                it_Priority (pq_heap (q_pq q) x) < it_Priority (pq_heap (q_pq q) w))
      then res = QOk \<and> (\<exists>w. worst_of q w \<and>
             it_Priority (pq_heap (q_pq q) x) < it_Priority (pq_heap (q_pq q) w) \<and>
             after = insert x (contents q - {w}))
      else res = QErr ErrQueueFull \<and> after = contents q)"

text \<open>The invariant: a well-formed heap that does not exceed the bound.\<close>

definition q_inv :: "queue \<Rightarrow> bool" where
  "q_inv q \<longleftrightarrow> pq_inv (q_pq q) \<and> int (pq_Len (q_pq q)) \<le> max 0 (q_maxSize q)"

lemma card_contents: "pq_inv (q_pq q) \<Longrightarrow> card (contents q) = pq_Len (q_pq q)"
  by (simp add: pq_inv_def pq_wf_def pq_Len_def distinct_card)

lemma worst_exists:
  assumes "r \<in> contents q"
  obtains w where "findLowestPriority q = Some w" and "worst_of q w"
proof -
  have "pq_refs (q_pq q) \<noteq> []" using assms by auto
  then obtain w where "findLowestPriority q = Some w" "w \<in> contents q"
      "\<forall>r \<in> contents q. q_rank q r \<le> q_rank q w"
    by (rule findLowestPriority_spec)
  with that show thesis by (simp add: worst_of_def)
qed

lemma worst_same_priority:
  "worst_of q v \<Longrightarrow> worst_of q w \<Longrightarrow>
     it_Priority (pq_heap (q_pq q) v) = it_Priority (pq_heap (q_pq q) w)"
  by (force simp: worst_of_def item_rank_def)

text \<open>The three facts about a call of \<open>Enqueue\<close> that the branches share.\<close>

definition enqueue_ok :: "queue \<Rightarrow> item_ref \<Rightarrow> queue \<Rightarrow> queue_result \<Rightarrow> bool" where
  "enqueue_ok q x q' res \<longleftrightarrow> enqueue_spec q x res (contents q') \<and> q_inv q' \<and>
     same_but_index (q_pq q) (q_pq q')"

lemma push_and_notify_ok:
  assumes "pq_inv (q_pq q)" and "x \<notin> contents q" and "int (pq_Len (q_pq q)) < q_maxSize q"
  shows "q_inv (push_and_notify q x)" and "contents (push_and_notify q x) = insert x (contents q)"
    and "same_but_index (q_pq q) (q_pq (push_and_notify q x))"
  using assms pq_heapPush_spec [OF assms(1,2)]
  by (simp_all add: push_and_notify_def q_inv_def pq_Len_def)

lemma Enqueue_preempts:
  assumes inv: "q_inv q" and x: "x \<notin> contents q" and full: "is_full q" "q_preempt q" "\<not> q_closed q"
    and w: "findLowestPriority q = Some w" "worst_of q w"
    and better: "it_Priority (pq_heap (q_pq q) x) < it_Priority (pq_heap (q_pq q) w)"
  obtains pq' where "Enqueue q x = (push_and_notify (q\<lparr>q_pq := pq'\<rparr>) x, QOk)"
    and "taken_out (q_pq q) w pq'"
proof -
  have pq: "pq_inv (q_pq q)" and mem: "w \<in> contents q"
    using inv w(2) by (simp_all add: q_inv_def worst_of_def)
  obtain pq' where pq': "pq_heapRemove (q_pq q) (it_index (pq_heap (q_pq q) w)) = Some (pq', w)"
      "taken_out (q_pq q) w pq'"
    by (rule pq_heapRemove_spec [OF pq mem])
  have "Enqueue q x = (push_and_notify (q\<lparr>q_pq := pq'\<rparr>) x, QOk)"
    using full w(1) better pq'(1) card_contents [OF pq]
    by (simp add: Enqueue_def is_full_def Let_def)
  with that pq'(2) show thesis by blast
qed

lemma preempt_ok:
  assumes inv: "q_inv q" and x: "x \<notin> contents q" and w: "worst_of q w"
    and out: "taken_out (q_pq q) w pq'"
  shows "contents (push_and_notify (q\<lparr>q_pq := pq'\<rparr>) x) = insert x (contents q - {w})"
    and "q_inv (push_and_notify (q\<lparr>q_pq := pq'\<rparr>) x)"
    and "same_but_index (q_pq q) (q_pq (push_and_notify (q\<lparr>q_pq := pq'\<rparr>) x))"
proof -
  let ?q = "q\<lparr>q_pq := pq'\<rparr>"
  have "pq_inv (q_pq ?q)" "x \<notin> contents ?q" "contents ?q = contents q - {w}"
      "same_but_index (q_pq q) (q_pq ?q)"
    using out x by (auto simp: taken_out_def)
  moreover have "int (pq_Len (q_pq ?q)) < q_maxSize ?q"
    using inv out w by (auto simp: q_inv_def taken_out_def pq_Len_def)
  ultimately show "contents (push_and_notify ?q x) = insert x (contents q - {w})"
    and "q_inv (push_and_notify ?q x)"
    and "same_but_index (q_pq q) (q_pq (push_and_notify ?q x))"
    using push_and_notify_ok [of ?q x] by (auto intro: same_but_index_trans)
qed

text \<open>The full queue with preemption: the worst item goes, or the new one is refused.\<close>

lemma Enqueue_full_ok:
  assumes inv: "q_inv q" and x: "x \<notin> contents q" and enq: "Enqueue q x = (q', res)"
    and full: "\<not> q_closed q" "is_full q" "q_preempt q" "contents q \<noteq> {}"
  shows "enqueue_ok q x q' res"
proof -
  let ?P = "\<lambda>r. it_Priority (pq_heap (q_pq q) r)"
  have pq: "pq_inv (q_pq q)" using inv by (simp add: q_inv_def)
  obtain r where "r \<in> contents q" using full(4) by (meson ex_in_conv)
  then obtain w where w: "findLowestPriority q = Some w" "worst_of q w" by (rule worst_exists)
  have pre: "(\<exists>v. worst_of q v \<and> ?P x < ?P v) \<longleftrightarrow> ?P x < ?P w" using w(2) worst_same_priority by metis
  show ?thesis
  proof (cases "?P x < ?P w")
    case True
    obtain pq' where e: "Enqueue q x = (push_and_notify (q\<lparr>q_pq := pq'\<rparr>) x, QOk)"
        and out: "taken_out (q_pq q) w pq'"
      by (rule Enqueue_preempts [OF inv x full(2,3,1) w True])
    have "enqueue_spec q x QOk (insert x (contents q - {w}))"
      using full True w(2) pre by (auto simp: enqueue_spec_def)
    with e enq preempt_ok [OF inv x w(2) out] show ?thesis by (auto simp: enqueue_ok_def)
  next
    case False
    with enq full w(1) have "q' = q" "res = QErr ErrQueueFull"
      by (auto simp: Enqueue_def is_full_def card_contents [OF pq] Let_def)
    with full False pre inv show ?thesis by (simp add: enqueue_ok_def enqueue_spec_def)
  qed
qed

lemma Enqueue_ok:
  assumes inv: "q_inv q" and x: "x \<notin> contents q" and enq: "Enqueue q x = (q', res)"
  shows "enqueue_ok q x q' res"
proof -
  have pq: "pq_inv (q_pq q)" using inv by (simp add: q_inv_def)
  have full_iff: "is_full q \<longleftrightarrow> q_maxSize q \<le> int (pq_Len (q_pq q))"
    by (simp add: is_full_def card_contents [OF pq])
  consider (closed) "q_closed q" | (room) "\<not> q_closed q" "\<not> is_full q"
    | (nopre) "\<not> q_closed q" "is_full q" "\<not> q_preempt q"
    | (empty) "\<not> q_closed q" "is_full q" "q_preempt q" "contents q = {}"
    | (full) "\<not> q_closed q" "is_full q" "q_preempt q" "contents q \<noteq> {}"
    by blast
  then show ?thesis
  proof cases
    case closed
    with enq inv show ?thesis by (auto simp: Enqueue_def enqueue_ok_def enqueue_spec_def Let_def)
  next
    case room
    with enq have "q' = push_and_notify q x" "res = QOk"
      by (auto simp: Enqueue_def full_iff Let_def)
    with room push_and_notify_ok [OF pq x] show ?thesis
      by (simp add: enqueue_ok_def enqueue_spec_def full_iff)
  next
    case nopre
    with enq have "q' = q" "res = QErr ErrQueueFull"
      by (simp_all add: Enqueue_def full_iff Let_def)
    with nopre inv show ?thesis by (simp add: enqueue_ok_def enqueue_spec_def)
  next
    case empty
    with enq findLowestPriority_empty [of q] have "q' = q" "res = QErr ErrQueueFull"
      by (simp_all add: Enqueue_def full_iff Let_def)
    with empty inv show ?thesis by (simp add: enqueue_ok_def enqueue_spec_def worst_of_def)
  next
    case full
    show ?thesis by (rule Enqueue_full_ok [OF inv x enq full])
  qed
qed

section \<open>Draining in order of rank\<close>

lemma drain_empty: "pq_refs q = [] \<Longrightarrow> drain ready n q = (q, [], [])"
  by (subst drain.simps) (simp add: pq_heapPop_def heap_Pop_def pq_Len_def)

lemma drain_pop:
  "pq_heapPop q = Some (q1, x) \<Longrightarrow> drain ready n q =
     (let (q2, sent, lost) = drain ready (Suc n) q1
      in if ready n then (q2, x # sent, lost) else (q2, sent, x # lost))"
  by (subst drain.simps) simp

text \<open>What draining \<open>q\<close> must yield: \<open>key\<close> is the rank of a reference in \<open>q\<close>.\<close>

definition drain_ok :: "prio_queue \<Rightarrow> prio_queue \<times> item_ref list \<times> item_ref list \<Rightarrow> bool" where
  "drain_ok q res \<longleftrightarrow> (case res of (q', sent, lost) \<Rightarrow>
     pq_refs q' = [] \<and> mset sent + mset lost = mset (pq_refs q) \<and>
     sorted (map (ref_rank q) sent) \<and> sorted (map (ref_rank q) lost))"

lemma taken_out_mset:
  assumes "taken_out q x q1" and "distinct (pq_refs q)"
  shows "mset (pq_refs q) = add_mset x (mset (pq_refs q1))"
proof -
  have "distinct (x # pq_refs q1)" "set (pq_refs q) = set (x # pq_refs q1)"
    using assms(1) by (auto simp: taken_out_def pq_inv_def pq_wf_def)
  with assms(2) have "mset (pq_refs q) = mset (x # pq_refs q1)"
    by (simp only: set_eq_iff_mset_eq_distinct)
  then show ?thesis by simp
qed

lemma drain_ok_step:
  assumes out: "taken_out q x q1" and least: "\<forall>r \<in> set (pq_refs q). ref_rank q x \<le> ref_rank q r"
    and dist: "distinct (pq_refs q)" and rest: "drain_ok q1 (q2, sent, lost)"
  shows "drain_ok q (q2, x # sent, lost)" and "drain_ok q (q2, sent, x # lost)"
proof -
  have ranks: "ref_rank q1 r = ref_rank q r" for r
    using out by (intro same_but_index_rank) (simp add: taken_out_def)
  note ms = taken_out_mset [OF out dist]
  have rest': "mset sent + mset lost = mset (pq_refs q1)" "pq_refs q2 = []"
      "sorted (map (ref_rank q) sent)" "sorted (map (ref_rank q) lost)"
    using rest by (simp_all add: drain_ok_def ranks)
  then have "set sent \<union> set lost = set (pq_refs q1)" by (metis set_mset_mset set_mset_union)
  then have "\<forall>r \<in> set sent \<union> set lost. ref_rank q x \<le> ref_rank q r"
    using least out by (auto simp: taken_out_def)
  then show "drain_ok q (q2, x # sent, lost)" "drain_ok q (q2, sent, x # lost)"
    using ms rest' by (auto simp: drain_ok_def)
qed

lemma drain_spec: "pq_inv q \<Longrightarrow> drain_ok q (drain ready n q)"
proof (induction "length (pq_refs q)" arbitrary: q n)
  case 0
  then show ?case by (simp add: drain_empty drain_ok_def)
next
  case (Suc k)
  then have ne: "pq_refs q \<noteq> []" by auto
  obtain q1 x where pop: "pq_heapPop q = Some (q1, x)" and out: "taken_out q x q1"
      and least: "\<forall>r \<in> set (pq_refs q). ref_rank q x \<le> ref_rank q r"
    by (rule pq_heapPop_spec [OF Suc.prems ne])
  obtain q2 sent lost where rest: "drain ready (Suc n) q1 = (q2, sent, lost)"
    by (metis prod_cases3)
  have "drain_ok q1 (q2, sent, lost)"
    using Suc.hyps(1) [of q1 "Suc n"] Suc.hyps(2) out rest by (simp add: taken_out_def)
  note step = drain_ok_step [OF out least _ this]
  have "distinct (pq_refs q)" using Suc.prems by (simp add: pq_inv_def pq_wf_def)
  with step show ?case by (simp add: drain_pop [OF pop] rest)
qed

lemma drainRemaining_spec:
  assumes "q_inv q"
  obtains p sent lost where "drainRemaining ready q = (q\<lparr>q_pq := p\<rparr>, sent, lost)"
    and "drain_ok (q_pq q) (p, sent, lost)"
proof -
  obtain p sent lost where d: "drain ready 0 (q_pq q) = (p, sent, lost)" by (metis prod_cases3)
  then have "drain_ok (q_pq q) (p, sent, lost)"
    using drain_spec [of "q_pq q" ready 0] assms by (simp add: q_inv_def)
  with d that show thesis by (simp add: drainRemaining_def)
qed

lemma drain_all_ready: "\<forall>n. ready n \<Longrightarrow> snd (snd (drain ready n q)) = []"
proof (induction "length (pq_refs q)" arbitrary: q n rule: less_induct)
  case less
  show ?case
  proof (cases "pq_heapPop q")
    case None
    then show ?thesis by (subst drain.simps) simp
  next
    case (Some a)
    then obtain q1 x where pop: "pq_heapPop q = Some (q1, x)" by (cases a) auto
    have "snd (snd (drain ready (Suc n) q1)) = []"
      using less.hyps [OF pq_heapPop_shorter [OF pop]] less.prems by blast
    with less.prems show ?thesis by (simp add: drain_pop [OF pop] split_beta Let_def)
  qed
qed

section \<open>Properties\<close>

definition example_items :: "item_ref \<Rightarrow> item" where
  "example_items r = \<lparr>it_RequestID = ''req'', it_Priority = (if r = 3 then 1 else 5),
     it_CreatedAt = int r, it_index = 0\<rparr>"

definition example_queue :: queue where
  "example_queue =
     fst (Enqueue (fst (Enqueue (NewQueue example_items 2 True) 1)) 2)"

lemma NewQueue_inv: "q_inv (NewQueue h m p)" "contents (NewQueue h m p) = {}"
    "q_maxSize (NewQueue h m p) = m" "\<not> q_closed (NewQueue h m p)" "q_preempt (NewQueue h m p) = p"
proof -
  have "pq_refs (pq_heapInit \<lparr>pq_refs = [], pq_heap = h\<rparr>) = []"
    by (simp add: pq_heapInit_def heap_Init_def pq_Len_def)
  then show "q_inv (NewQueue h m p)" "contents (NewQueue h m p) = {}"
    by (simp_all add: NewQueue_def q_inv_def pq_inv_empty pq_Len_def)
qed (simp_all add: NewQueue_def)


lemma example_queue_facts:
  "q_inv example_queue" "contents example_queue = {1, 2}" "q_maxSize example_queue = 2"
  "q_preempt example_queue" "\<not> q_closed example_queue"
proof -
  let ?q0 = "NewQueue example_items 2 True" and ?q1 = "fst (Enqueue (NewQueue example_items 2 True) 1)"
  have "enqueue_ok ?q0 1 ?q1 (snd (Enqueue ?q0 1))"
    by (rule Enqueue_ok) (simp_all add: NewQueue_inv)
  then have 1: "q_inv ?q1" by (simp add: enqueue_ok_def)
  have c1: "contents ?q1 = {1}" by code_simp
  have "enqueue_ok ?q1 2 example_queue (snd (Enqueue ?q1 2))"
    by (rule Enqueue_ok [OF 1]) (simp_all only: c1 example_queue_def prod.collapse, simp)
  then show "q_inv example_queue" by (simp add: enqueue_ok_def)
  show "contents example_queue = {1, 2}" "q_maxSize example_queue = 2"
    "q_preempt example_queue" "\<not> q_closed example_queue"
    by code_simp+
qed

text \<open>C12: \<open>Enqueue\<close> implements the abstract bounded queue: on a well-formed queue and an item it
  does not hold yet, it answers closed, full or success exactly as the specification says, the
  set of items afterwards is the specified one, the heap stays well formed and within its bound,
  nothing but index fields of items is written, and \<open>heap.Remove\<close> never panics.\<close>

theorem enqueue_refines_spec:
  assumes "q_inv q" and "x \<notin> contents q" and "Enqueue q x = (q', res)"
  shows "enqueue_spec q x res (contents q') \<and> q_inv q' \<and> same_but_index (q_pq q) (q_pq q') \<and>
    res \<noteq> QPanic"
  using Enqueue_ok [OF assms] by (auto simp: enqueue_ok_def enqueue_spec_def split: if_splits)

theorem enqueue_refines_spec_witness:
  "enqueue_spec example_queue 3 QOk (contents (fst (Enqueue example_queue 3)))"
proof -
  have "snd (Enqueue example_queue 3) = QOk" by code_simp
  then have "Enqueue example_queue 3 = (fst (Enqueue example_queue 3), QOk)"
    by (metis prod.collapse)
  from enqueue_refines_spec [OF _ _ this] show ?thesis by (simp add: example_queue_facts)
qed

text \<open>Preemption gives up the newest of the least important requests: when the queue is full
  and some queued item is less important than the new one, \<open>Enqueue\<close> succeeds by taking out one
  item \<open>w\<close> of the largest priority number whose creation time is the latest among those, and
  marks it as no longer in the heap (index -1 unless it is the new item).\<close>

theorem preemption_evicts_newest:
  assumes inv: "q_inv q" and x: "x \<notin> contents q" and open_q: "\<not> q_closed q" "q_preempt q"
    and full: "q_maxSize q \<le> int (Size q)"
    and r: "r \<in> contents q" "it_Priority (pq_heap (q_pq q) x) < it_Priority (pq_heap (q_pq q) r)"
  shows "\<exists>w \<in> contents q. snd (Enqueue q x) = QOk \<and>
     contents (fst (Enqueue q x)) = insert x (contents q - {w}) \<and>
     it_Priority (pq_heap (q_pq q) x) < it_Priority (pq_heap (q_pq q) w) \<and>
     (\<forall>v \<in> contents q. it_Priority (pq_heap (q_pq q) v) < it_Priority (pq_heap (q_pq q) w) \<or>
        it_Priority (pq_heap (q_pq q) v) = it_Priority (pq_heap (q_pq q) w) \<and>
        it_CreatedAt (pq_heap (q_pq q) v) \<le> it_CreatedAt (pq_heap (q_pq q) w))"
proof -
  have "is_full q" using full card_contents [of q] inv by (simp add: is_full_def Size_def q_inv_def)
  obtain w where "worst_of q w" by (rule worst_exists [OF r(1)])
  then have "it_Priority (pq_heap (q_pq q) r) \<le> it_Priority (pq_heap (q_pq q) w)"
    using r(1) by (auto simp: worst_of_def item_rank_def)
  with r(2) \<open>worst_of q w\<close> have "\<exists>w. worst_of q w \<and>
      it_Priority (pq_heap (q_pq q) x) < it_Priority (pq_heap (q_pq q) w)" by force
  then obtain w where w: "worst_of q w"
      "it_Priority (pq_heap (q_pq q) x) < it_Priority (pq_heap (q_pq q) w)"
      "snd (Enqueue q x) = QOk" "contents (fst (Enqueue q x)) = insert x (contents q - {w})"
    using Enqueue_ok [OF inv x, of "fst (Enqueue q x)" "snd (Enqueue q x)"] open_q \<open>is_full q\<close>
    by (auto simp: enqueue_ok_def enqueue_spec_def)
  then show ?thesis
    by (intro bexI [of _ w]) (auto simp: worst_of_def item_rank_def)
qed

theorem preemption_evicts_newest_witness:
  "\<exists>w \<in> contents example_queue. contents (fst (Enqueue example_queue 3)) = insert 3 ({1, 2} - {w})"
proof -
  have "2 \<le> int (Size example_queue)"
      "it_Priority (pq_heap (q_pq example_queue) 3) < it_Priority (pq_heap (q_pq example_queue) 1)"
    by code_simp+
  with preemption_evicts_newest [of example_queue 3 1] show ?thesis
    by (auto simp: example_queue_facts)
qed

text \<open>Emptying the queue serves requests in order: \<open>drainRemaining\<close> leaves the heap empty,
  every queued item is either handed to a worker or dropped, exactly once, and the items handed
  over come out by priority and, within one priority, oldest first.\<close>

theorem drain_serves_in_order:
  assumes "q_inv q" and "drainRemaining ready q = (q', sent, lost)"
  shows "contents q' = {} \<and> mset sent + mset lost = mset (pq_refs (q_pq q)) \<and>
    sorted (map (q_rank q) sent) \<and> sorted (map (q_rank q) lost) \<and>
    ((\<forall>n. ready n) \<longrightarrow> lost = [])"
proof -
  obtain p where d: "drain ready 0 (q_pq q) = (p, sent, lost)" "q' = q\<lparr>q_pq := p\<rparr>"
    using assms(2) by (auto simp: drainRemaining_def split: prod.splits)
  have "drain_ok (q_pq q) (p, sent, lost)"
    using drain_spec [of "q_pq q" ready 0] assms(1) d(1) by (simp add: q_inv_def)
  moreover have "(\<forall>n. ready n) \<longrightarrow> lost = []"
    using drain_all_ready [of ready 0 "q_pq q"] d(1) by auto
  ultimately show ?thesis using d(2) by (simp add: drain_ok_def)
qed

theorem drain_serves_in_order_witness:
  "fst (snd (drainRemaining (\<lambda>_. True) (fst (Enqueue example_queue 3)))) = [3, 1] \<and>
   snd (snd (drainRemaining (\<lambda>_. True) (fst (Enqueue example_queue 3)))) = []"
proof
  let ?q = "fst (Enqueue example_queue 3)"
  let ?d = "drainRemaining (\<lambda>_. True) ?q"
  show "fst (snd ?d) = [3, 1]" by code_simp
  have "q_inv ?q"
    using Enqueue_ok [of example_queue 3 ?q "snd (Enqueue example_queue 3)"]
    by (simp add: example_queue_facts enqueue_ok_def)
  from drain_serves_in_order [OF this, of "\<lambda>_. True" "fst ?d" "fst (snd ?d)" "snd (snd ?d)"]
  show "snd (snd ?d) = []" by simp
qed

end
