(* ===== verification/Api_Server.thy ===== *)
theory Api_Server
  imports Go_Json Http_Client Key_Crypto Key_Manager Request_Queue
begin

text \<open>
  The HTTP interface: \<^verbatim>\<open>internal/api/handlers.go\<close>, \<^verbatim>\<open>helpers.go\<close>, \<^verbatim>\<open>middleware.go\<close>,
  \<^verbatim>\<open>router.go\<close> and \<^verbatim>\<open>internal/util/context.go\<close>. A handler is a function of the request and of
  what it reads from outside (\<open>api_env\<close>) on the state it shares with the rest of the program
  (\<open>server\<close>); its result is the new state and the reply. A handler that panics is stopped by
  \<open>net/http\<close>, which closes the connection: the reply is \<open>Aborted\<close>, and what was written to the
  database before stays written. The matching of paths is that of \<open>http.ServeMux\<close> in Go 1.22.
\<close>

section \<open>Requests, replies and the server\<close>

record api_request =
  ar_Method :: string
  ar_EscapedPath :: string
  ar_Path :: string
  ar_Authorization :: string
  ar_Body :: string

datatype reply =
    Reply int json
  | Redirect string
  | NotFoundPage
  | Aborted

record server =
  sv_db :: database
  sv_queue :: queue
  sv_mgr :: manager

text \<open>
  From outside: the clock of the database and of \<open>time.Now\<close>, the identifier from \<open>uuid.New\<close>, the
  reference a new item is allocated at, the driver's answer to the \<open>n\<close>-th statement, the JSON
  parser and the texts of its errors, \<open>json.Marshal\<close> of the headers, \<open>strings.ToUpper\<close> beyond
  ASCII, the random source and AES-GCM, the order in which a loop meets the entries of a map, the
  entries of a map for the encoder, and the text of a time.
\<close>

record api_env =
  ae_now :: time
  ae_created :: time
  ae_uuid :: string
  ae_ref :: item_ref
  ae_io :: "nat \<Rightarrow> string option"
  ae_parse :: "string \<Rightarrow> json option"
  ae_error_text :: "json_error \<Rightarrow> string"
  ae_marshal :: "(string \<times> string) list \<Rightarrow> string"
  ae_upper :: "string \<Rightarrow> string"
  ae_nonce :: "string option"
  ae_seal :: "string \<Rightarrow> string \<Rightarrow> string \<Rightarrow> string"
  ae_range :: "(string \<times> string) list \<Rightarrow> (string \<times> string) list"
  ae_entries :: "(string \<rightharpoonup> string) \<Rightarrow> (string \<times> string) list"
  ae_time_text :: "time \<Rightarrow> string"

section \<open>Helpers\<close>

definition writeError :: "int \<Rightarrow> string \<Rightarrow> reply" where
  "writeError status message = Reply status (JObj [(''error'', JStr message)])"

definition decodeJSON :: "api_env \<Rightarrow> (json \<Rightarrow> json_error + 'b) \<Rightarrow> string \<Rightarrow> json_error + 'b" where
  "decodeJSON e decode text =
     (case ae_parse e text of None \<Rightarrow> Inl SyntaxError | Some v \<Rightarrow> decode v)"

definition invalid_json :: "api_env \<Rightarrow> json_error \<Rightarrow> reply" where
  "invalid_json e err = writeError 400 (''invalid JSON: '' @ ae_error_text e err)"

definition method_not_allowed :: reply where
  "method_not_allowed = writeError 405 ''method not allowed''"

text \<open>\<open>DBContext\<close>: \<open>context.WithTimeout\<close> panics on a nil parent.\<close>

definition DBTimeoutShort :: duration where "DBTimeoutShort = 2 * Second"
definition DBTimeoutLong :: duration where "DBTimeoutLong = 5 * Second"

definition DBContext :: "'c option \<Rightarrow> duration \<Rightarrow> ('c \<times> duration) option" where
  "DBContext base timeout = (case base of None \<Rightarrow> None | Some c \<Rightarrow> Some (c, timeout))"

definition extractPathParam :: "string \<Rightarrow> string \<Rightarrow> string" where
  "extractPathParam path prefix = fst (split2 CHR ''/'' (trim_prefix path prefix))"

definition pathEndsWith :: "string \<Rightarrow> string \<Rightarrow> bool" where
  "pathEndsWith path suffix \<longleftrightarrow>
     length suffix \<le> length path \<and> drop (length path - length suffix) path = suffix"

definition is_ascii :: "string \<Rightarrow> bool" where
  "is_ascii s \<longleftrightarrow> list_all (\<lambda>c. (of_char c :: nat) < 128) s"

definition ToUpper :: "api_env \<Rightarrow> string \<Rightarrow> string" where
  "ToUpper e s = (if is_ascii s then map upper_char s else ae_upper e s)"

section \<open>Responses\<close>

definition jint :: "int \<Rightarrow> json" where
  "jint n = JNum (show_int n)"

definition optional :: "string \<Rightarrow> ('a \<Rightarrow> json) \<Rightarrow> 'a option \<Rightarrow> (string \<times> json) list" where
  "optional name f v = (case v of None \<Rightarrow> [] | Some x \<Rightarrow> [(name, f x)])"

definition requestToResponse :: "api_env \<Rightarrow> request \<Rightarrow> json" where
  "requestToResponse e req =
     JObj ([(''id'', JStr (rq_ID req)), (''source'', JStr (rq_Source req)),
            (''priority'', jint (rq_Priority req)), (''method'', JStr (rq_Method req)),
            (''url'', JStr (rq_DestinationURL req)), (''status'', JStr (rq_Status req)),
            (''attempts'', jint (rq_Attempts req)),
            (''created_at'', JStr (ae_time_text e (rq_CreatedAt req))),
            (''updated_at'', JStr (ae_time_text e (rq_UpdatedAt req)))] @
       optional ''idempotency_key'' JStr (rq_IdempotencyKey req) @
       optional ''assigned_key_id'' JStr (rq_AssignedKeyID req) @
       optional ''response_status'' jint (rq_ResponseStatus req) @
       optional ''response_body'' JStr (rq_ResponseBody req) @
       optional ''last_error'' JStr (rq_LastError req) @
       optional ''completed_at'' (\<lambda>t. JStr (ae_time_text e t)) (rq_CompletedAt req))"

definition keyToResponse :: "api_env \<Rightarrow> api_key \<Rightarrow> json" where
  "keyToResponse e k =
     JObj ([(''id'', JStr (ak_ID k)), (''name'', JStr (ak_Name k)), (''weight'', jint (ak_Weight k)),
            (''is_healthy'', JBool (ak_IsHealthy k)), (''failure_count'', jint (ak_FailureCount k)),
            (''circuit_state'', JStr (ak_CircuitState k)),
            (''rate_limit_per_minute'', jint (ak_RateLimitPerMinute k)),
            (''rate_limit_per_day'', jint (ak_RateLimitPerDay k)),
            (''concurrent_limit'', jint (ak_ConcurrentLimit k)),
            (''current_concurrent'', jint (ak_CurrentConcurrent k)),
            (''created_at'', JStr (ae_time_text e (ak_CreatedAt k))),
            (''updated_at'', JStr (ae_time_text e (ak_UpdatedAt k)))] @
       optional ''last_used_at'' (\<lambda>t. JStr (ae_time_text e t)) (ak_LastUsedAt k))"

text \<open>\<open>KeyHealth\<close> has no tags: the encoder uses the names of its fields.\<close>

definition healthToResponse :: "key_health \<Rightarrow> json" where
  "healthToResponse h =
     JObj [(''ID'', JStr (kh_ID h)), (''Name'', JStr (kh_Name h)),
           (''CircuitState'', JStr (kh_CircuitState h)), (''FailureCount'', jint (kh_FailureCount h)),
           (''CurrentConcurrent'', jint (kh_CurrentConcurrent h)),
           (''ConcurrentLimit'', jint (kh_ConcurrentLimit h)), (''Weight'', jint (kh_Weight h))]"

section \<open>Public endpoints\<close>

definition HealthCheck :: "server \<Rightarrow> server \<times> reply" where
  "HealthCheck sv = (sv, Reply 200 (JObj [(''status'', JStr ''ok'')]))"

definition PriorityHigh :: int where "PriorityHigh = 1"
definition PriorityNormal :: int where "PriorityNormal = 2"
definition PriorityLow :: int where "PriorityLow = 3"
definition SourceManual :: string where "SourceManual = ''manual''"

lemmas priority_defs = PriorityHigh_def PriorityNormal_def PriorityLow_def

record submit_body =
  sb_IdempotencyKey :: string
  sb_Source :: string
  sb_Priority :: int
  sb_Method :: string
  sb_URL :: string
  sb_Headers :: "(string \<times> string) list"
  sb_Payload :: string

definition empty_submit :: submit_body where
  "empty_submit = \<lparr>sb_IdempotencyKey = '''', sb_Source = '''', sb_Priority = 0, sb_Method = '''',
     sb_URL = '''', sb_Headers = [], sb_Payload = ''''\<rparr>"

definition submit_fields :: "submit_body field list" where
  "submit_fields =
     [(''idempotency_key'', into_string ''idempotency_key'' (\<lambda>b s. b\<lparr>sb_IdempotencyKey := s\<rparr>)),
      (''source'', into_string ''source'' (\<lambda>b s. b\<lparr>sb_Source := s\<rparr>)),
      (''priority'', into_int ''priority'' (\<lambda>b n. b\<lparr>sb_Priority := n\<rparr>)),
      (''method'', into_string ''method'' (\<lambda>b s. b\<lparr>sb_Method := s\<rparr>)),
      (''url'', into_string ''url'' (\<lambda>b s. b\<lparr>sb_URL := s\<rparr>)),
      (''headers'', into_map ''headers'' sb_Headers (\<lambda>b m. b\<lparr>sb_Headers := m\<rparr>)),
      (''payload'', into_string ''payload'' (\<lambda>b s. b\<lparr>sb_Payload := s\<rparr>))]"

text \<open>The checks and defaults before anything is read or written.\<close>

definition check_submit :: "submit_body \<Rightarrow> reply + submit_body" where
  "check_submit b0 =
     (if sb_Method b0 = '''' \<or> sb_URL b0 = '''' then Inl (writeError 400 ''method and url are required'')
      else let b1 = (if sb_Priority b0 = 0 then b0\<lparr>sb_Priority := PriorityNormal\<rparr> else b0)
           in if sb_Priority b1 < PriorityHigh \<or> PriorityLow < sb_Priority b1
              then Inl (writeError 400 ''priority must be 1 (high), 2 (normal), or 3 (low)'')
              else Inr (if sb_Source b1 = '''' then b1\<lparr>sb_Source := SourceManual\<rparr> else b1))"

text \<open>The idempotency check: an answer if there is one already.\<close>

definition idempotent_answer :: "api_env \<Rightarrow> submit_body \<Rightarrow> database \<Rightarrow> reply option" where
  "idempotent_answer e b d =
     (if sb_IdempotencyKey b \<noteq> '''' then
        (case GetRequestByIdempotencyKey (ae_io e 0) (sb_IdempotencyKey b) d of
           Inl err \<Rightarrow> Some (writeError 500 ''database error'')
         | Inr (Some existing) \<Rightarrow> Some (Reply 200 (requestToResponse e existing))
         | Inr None \<Rightarrow> None)
      else None)"

definition new_request :: "api_env \<Rightarrow> submit_body \<Rightarrow> request" where
  "new_request e b =
     \<lparr>rq_ID = ae_uuid e,
      rq_IdempotencyKey = (if sb_IdempotencyKey b \<noteq> '''' then Some (sb_IdempotencyKey b) else None),
      rq_Source = sb_Source b, rq_Priority = sb_Priority b, rq_Method = ToUpper e (sb_Method b),
      rq_DestinationURL = sb_URL b,
      rq_Headers = (if sb_Headers b \<noteq> [] then Some (ae_marshal e (sb_Headers b)) else None),
      rq_Payload = (if sb_Payload b \<noteq> '''' then Some (sb_Payload b) else None),
      rq_Status = RequestStatusPending, rq_AssignedKeyID = None, rq_Attempts = 0,
      rq_LastError = None, rq_ResponseStatus = None, rq_ResponseBody = None,
      rq_CreatedAt = zero_time, rq_UpdatedAt = zero_time, rq_CompletedAt = None\<rparr>"

text \<open>\<open>item := &queue.Item{...}\<close>.\<close>

definition new_item :: "api_env \<Rightarrow> request \<Rightarrow> item" where
  "new_item e req = \<lparr>it_RequestID = rq_ID req, it_Priority = rq_Priority req,
     it_CreatedAt = ae_created e, it_index = 0\<rparr>"

definition alloc_item :: "item_ref \<Rightarrow> item \<Rightarrow> queue \<Rightarrow> queue" where
  "alloc_item x it q = q\<lparr>q_pq := (q_pq q)\<lparr>pq_heap := (pq_heap (q_pq q))(x := it)\<rparr>\<rparr>"

definition save_and_enqueue :: "api_env \<Rightarrow> request \<Rightarrow> server \<Rightarrow> server \<times> reply" where
  "save_and_enqueue e req sv =
     (case CreateRequest (ae_io e 1) (ae_now e) req (sv_db sv) of
        (d, Some err) \<Rightarrow> (sv\<lparr>sv_db := d\<rparr>, writeError 500 ''failed to save request'')
      | (d, None) \<Rightarrow>
          let (q, res) = Enqueue (alloc_item (ae_ref e) (new_item e req) (sv_queue sv)) (ae_ref e)
          in (sv\<lparr>sv_db := d, sv_queue := q\<rparr>,
              case res of
                QOk \<Rightarrow> Reply 202 (requestToResponse e req)
              | QErr err \<Rightarrow> writeError 503 ''queue is full''
              | QPanic \<Rightarrow> Aborted))"

definition SubmitRequest :: "api_env \<Rightarrow> api_request \<Rightarrow> server \<Rightarrow> server \<times> reply" where
  "SubmitRequest e r sv =
     (if ar_Method r \<noteq> ''POST'' then (sv, method_not_allowed)
      else case decodeJSON e (decode_struct submit_fields empty_submit) (ar_Body r) of
             Inl err \<Rightarrow> (sv, invalid_json e err)
           | Inr b0 \<Rightarrow>
               (case check_submit b0 of
                  Inl rep \<Rightarrow> (sv, rep)
                | Inr b \<Rightarrow>
                    (case idempotent_answer e b (sv_db sv) of
                       Some rep \<Rightarrow> (sv, rep)
                     | None \<Rightarrow> save_and_enqueue e (new_request e b) sv)))"

text \<open>
  \<open>GetRequest\<close> of the adapter reports a missing request as an error, so the handler's branch for
  a nil request, with status 404, is never taken.
\<close>

definition GetRequestStatus :: "api_env \<Rightarrow> api_request \<Rightarrow> server \<Rightarrow> server \<times> reply" where
  "GetRequestStatus e r sv =
     (if ar_Method r \<noteq> ''GET'' then (sv, method_not_allowed)
      else let i = extractPathParam (ar_Path r) ''/api/requests/''
           in if i = '''' then (sv, writeError 400 ''request id required'')
              else case GetRequest (ae_io e 0) i (sv_db sv) of
                     Inl err \<Rightarrow> (sv, writeError 500 ''database error'')
                   | Inr req \<Rightarrow> (sv, Reply 200 (requestToResponse e req)))"

section \<open>Admin endpoints\<close>

definition EventKeyCreated :: string where "EventKeyCreated = ''created''"
definition EventKeyDeleted :: string where "EventKeyDeleted = ''deleted''"

text \<open>
  \<open>logKeyEvent\<close> passes nil as the parent context. \<open>None\<close> is the panic; the rest of the function is
  what it would do otherwise.
\<close>

definition a_logKeyEvent ::
  "api_env \<Rightarrow> string \<Rightarrow> string \<Rightarrow> string \<Rightarrow> database \<Rightarrow> database option" where
  "a_logKeyEvent e keyID eventType message d =
     (case DBContext (None :: unit option) DBTimeoutShort of
        None \<Rightarrow> None
      | Some ctx \<Rightarrow>
          Some (fst (CreateKeyEvent (ae_io e 1) (ae_now e)
            \<lparr>ke_ID = '''', ke_KeyID = keyID, ke_EventType = eventType, ke_Message = Some message,
             ke_CreatedAt = zero_time\<rparr> d)))"

definition logged :: "api_env \<Rightarrow> string \<Rightarrow> string \<Rightarrow> string \<Rightarrow> reply \<Rightarrow> server \<Rightarrow> server \<times> reply" where
  "logged e keyID eventType message rep sv =
     (case a_logKeyEvent e keyID eventType message (sv_db sv) of
        None \<Rightarrow> (sv, Aborted)
      | Some d \<Rightarrow> (sv\<lparr>sv_db := d\<rparr>, rep))"

record key_body =
  kb_Name :: string
  kb_Key :: string
  kb_Weight :: int
  kb_RateLimitPerMinute :: int
  kb_RateLimitPerDay :: int
  kb_ConcurrentLimit :: int

definition empty_key_body :: key_body where
  "empty_key_body = \<lparr>kb_Name = '''', kb_Key = '''', kb_Weight = 0, kb_RateLimitPerMinute = 0,
     kb_RateLimitPerDay = 0, kb_ConcurrentLimit = 0\<rparr>"

definition key_fields :: "key_body field list" where
  "key_fields =
     [(''name'', into_string ''name'' (\<lambda>b s. b\<lparr>kb_Name := s\<rparr>)),
      (''key'', into_string ''key'' (\<lambda>b s. b\<lparr>kb_Key := s\<rparr>)),
      (''weight'', into_int ''weight'' (\<lambda>b n. b\<lparr>kb_Weight := n\<rparr>)),
      (''rate_limit_per_minute'', into_int ''rate_limit_per_minute'' (\<lambda>b n. b\<lparr>kb_RateLimitPerMinute := n\<rparr>)),
      (''rate_limit_per_day'', into_int ''rate_limit_per_day'' (\<lambda>b n. b\<lparr>kb_RateLimitPerDay := n\<rparr>)),
      (''concurrent_limit'', into_int ''concurrent_limit'' (\<lambda>b n. b\<lparr>kb_ConcurrentLimit := n\<rparr>))]"

definition key_defaults :: "key_body \<Rightarrow> key_body" where
  "key_defaults b =
     b\<lparr>kb_Weight := (if kb_Weight b = 0 then 1 else kb_Weight b),
       kb_RateLimitPerMinute := (if kb_RateLimitPerMinute b = 0 then 60 else kb_RateLimitPerMinute b),
       kb_RateLimitPerDay := (if kb_RateLimitPerDay b = 0 then 10000 else kb_RateLimitPerDay b),
       kb_ConcurrentLimit := (if kb_ConcurrentLimit b = 0 then 5 else kb_ConcurrentLimit b)\<rparr>"

definition new_key :: "api_env \<Rightarrow> string \<Rightarrow> key_body \<Rightarrow> api_key" where
  "new_key e encrypted b =
     \<lparr>ak_ID = ae_uuid e, ak_Name = kb_Name b, ak_KeyEncrypted = encrypted, ak_Weight = kb_Weight b,
      ak_IsHealthy = True, ak_FailureCount = 0, ak_CircuitState = db_CircuitStateClosed,
      ak_LastUsedAt = None, ak_RateLimitPerMinute = kb_RateLimitPerMinute b,
      ak_RateLimitPerDay = kb_RateLimitPerDay b, ak_ConcurrentLimit = kb_ConcurrentLimit b,
      ak_CurrentConcurrent = 0, ak_CreatedAt = zero_time, ak_UpdatedAt = zero_time\<rparr>"

definition AddKey :: "api_env \<Rightarrow> config \<Rightarrow> api_request \<Rightarrow> server \<Rightarrow> server \<times> reply" where
  "AddKey e cfg r sv =
     (if ar_Method r \<noteq> ''POST'' then (sv, method_not_allowed)
      else case decodeJSON e (decode_struct key_fields empty_key_body) (ar_Body r) of
             Inl err \<Rightarrow> (sv, invalid_json e err)
           | Inr b0 \<Rightarrow>
               if kb_Name b0 = '''' \<or> kb_Key b0 = '''' then (sv, writeError 400 ''name and key are required'')
               else let b = key_defaults b0
                    in case Encrypt (ae_seal e) (ae_nonce e) (kb_Key b) (cfg_EncryptionKey cfg) of
                         Inl err \<Rightarrow> (sv, writeError 500 ''failed to encrypt key'')
                       | Inr encrypted \<Rightarrow>
                           let apiKey = new_key e encrypted b
                           in case CreateAPIKey (ae_io e 0) (ae_now e) apiKey (sv_db sv) of
                                (d, Some err) \<Rightarrow>
                                  (sv\<lparr>sv_db := d\<rparr>, writeError 500 ''failed to create key'')
                              | (d, None) \<Rightarrow>
                                  logged e (ak_ID apiKey) EventKeyCreated ''key created via API''
                                    (Reply 201 (keyToResponse e apiKey)) (sv\<lparr>sv_db := d\<rparr>))"

definition ListKeys :: "api_env \<Rightarrow> api_request \<Rightarrow> server \<Rightarrow> server \<times> reply" where
  "ListKeys e r sv =
     (if ar_Method r \<noteq> ''GET'' then (sv, method_not_allowed)
      else case GetAllAPIKeys (ae_io e 0) (sv_db sv) of
             Inl err \<Rightarrow> (sv, writeError 500 ''database error'')
           | Inr ks \<Rightarrow> (sv, Reply 200 (JArr (map (keyToResponse e) ks))))"

definition DeleteKey :: "api_env \<Rightarrow> api_request \<Rightarrow> server \<Rightarrow> server \<times> reply" where
  "DeleteKey e r sv =
     (if ar_Method r \<noteq> ''DELETE'' then (sv, method_not_allowed)
      else let i = extractPathParam (ar_Path r) ''/admin/keys/''
           in if i = '''' then (sv, writeError 400 ''key id required'')
              else if has_suffix i ''/reset'' \<or> has_suffix i ''/weight'' then (sv, method_not_allowed)
              else case DeleteAPIKey (ae_io e 0) i (sv_db sv) of
                     (d, Some err) \<Rightarrow> (sv\<lparr>sv_db := d\<rparr>, writeError 500 ''failed to delete key'')
                   | (d, None) \<Rightarrow>
                       logged e i EventKeyDeleted ''key deleted via API''
                         (Reply 200 (JObj [(''status'', JStr ''deleted'')])) (sv\<lparr>sv_db := d\<rparr>))"

text \<open>The key identifier in a path \<open>/admin/keys/{id}/...\<close>.\<close>

definition key_id_of_path :: "string \<Rightarrow> string option" where
  "key_id_of_path path =
     (let parts = split2 CHR ''/'' (trim_prefix path ''/admin/keys/'')
      in if snd parts = None \<or> fst parts = '''' then None else Some (fst parts))"

definition weight_fields :: "int field list" where
  "weight_fields = [(''weight'', into_int ''weight'' (\<lambda>b n. n))]"

definition UpdateKeyWeight :: "api_env \<Rightarrow> api_request \<Rightarrow> server \<Rightarrow> server \<times> reply" where
  "UpdateKeyWeight e r sv =
     (if ar_Method r \<noteq> ''PUT'' then (sv, method_not_allowed)
      else case key_id_of_path (ar_Path r) of
             None \<Rightarrow> (sv, writeError 400 ''key id required'')
           | Some i \<Rightarrow>
               (case decodeJSON e (decode_struct weight_fields 0) (ar_Body r) of
                  Inl err \<Rightarrow> (sv, invalid_json e err)
                | Inr weight \<Rightarrow>
                    if weight \<le> 0 then (sv, writeError 400 ''weight must be positive'')
                    else case UpdateAPIKeyWeight (ae_io e 0) (ae_now e) i weight (sv_db sv) of
                           (d, Some err) \<Rightarrow>
                             (sv\<lparr>sv_db := d\<rparr>, writeError 500 ''failed to update weight'')
                         | (d, None) \<Rightarrow>
                             (sv\<lparr>sv_db := d\<rparr>,
                              Reply 200 (JObj [(''id'', JStr i), (''weight'', jint weight)]))))"

definition ResetKeyCircuit :: "api_env \<Rightarrow> api_request \<Rightarrow> server \<Rightarrow> server \<times> reply" where
  "ResetKeyCircuit e r sv =
     (if ar_Method r \<noteq> ''POST'' then (sv, method_not_allowed)
      else case key_id_of_path (ar_Path r) of
             None \<Rightarrow> (sv, writeError 400 ''key id required'')
           | Some i \<Rightarrow>
               (case ResetAPIKeyCircuit (ae_io e 0) (ae_now e) i (sv_db sv) of
                  (d, Some err) \<Rightarrow>
                    (sv\<lparr>sv_db := d\<rparr>, writeError 500 ''failed to reset circuit breaker'')
                | (d, None) \<Rightarrow>
                    logged e i EventCircuitClosed ''circuit breaker manually reset via API''
                      (Reply 200 (JObj [(''id'', JStr i), (''status'', JStr ''circuit_reset'')]))
                      (sv\<lparr>sv_db := d\<rparr>)))"

definition PoolHealth :: "api_request \<Rightarrow> server \<Rightarrow> server \<times> reply" where
  "PoolHealth r sv =
     (if ar_Method r \<noteq> ''GET'' then (sv, method_not_allowed)
      else (sv, Reply 200 (JObj
             [(''pool_size'', jint (int (PoolSize (sv_mgr sv)))),
              (''queue_size'', jint (int (Size (sv_queue sv)))),
              (''keys'', JArr (map healthToResponse (GetHealthStatus (sv_mgr sv))))])))"

definition GetConfig :: "api_env \<Rightarrow> api_request \<Rightarrow> server \<Rightarrow> server \<times> reply" where
  "GetConfig e r sv =
     (if ar_Method r \<noteq> ''GET'' then (sv, method_not_allowed)
      else case GetSystemConfig (ae_io e 0) (sv_db sv) of
             Inl err \<Rightarrow> (sv, writeError 500 ''database error'')
           | Inr cfg \<Rightarrow> (sv, Reply 200 (JObj (map (\<lambda>(k, v). (k, JStr v)) (ae_entries e cfg)))))"

text \<open>The loop of \<open>UpdateConfig\<close>: the new database, and the key at which it failed.\<close>

fun update_config_loop ::
  "(nat \<Rightarrow> string option) \<Rightarrow> nat \<Rightarrow> (string \<times> string) list \<Rightarrow> database \<Rightarrow> database \<times> string option" where
  "update_config_loop io n [] d = (d, None)"
| "update_config_loop io n ((k, v) # rest) d =
     (case UpdateSystemConfig (io n) k v d of
        (d', Some err) \<Rightarrow> (d', Some k)
      | (d', None) \<Rightarrow> update_config_loop io (Suc n) rest d')"

definition UpdateConfig :: "api_env \<Rightarrow> api_request \<Rightarrow> server \<Rightarrow> server \<times> reply" where
  "UpdateConfig e r sv =
     (if ar_Method r \<noteq> ''PUT'' then (sv, method_not_allowed)
      else case decodeJSON e decode_string_map (ar_Body r) of
             Inl err \<Rightarrow> (sv, invalid_json e err)
           | Inr body \<Rightarrow>
               (case update_config_loop (ae_io e) 0 (ae_range e body) (sv_db sv) of
                  (d, Some k) \<Rightarrow>
                    (sv\<lparr>sv_db := d\<rparr>, writeError 500 (''failed to update config key: '' @ k))
                | (d, None) \<Rightarrow>
                    (sv\<lparr>sv_db := d\<rparr>, Reply 200 (JObj [(''status'', JStr ''updated'')]))))"

end
