(* ===== verification/Api_Router.thy ===== *)
theory Api_Router
  imports Api_Server
begin

text \<open>
  Routes and middleware: \<^verbatim>\<open>internal/api/router.go\<close> and \<^verbatim>\<open>middleware.go\<close>. \<open>serve\<close> is what the
  handler built by \<open>NewRouter\<close> does with one request. The rules of \<open>http.ServeMux\<close> (cleaning of
  the path, decoding of its segments, exact and subtree patterns) are written out.
\<close>

section \<open>The multiplexer\<close>

fun segments :: "string \<Rightarrow> string \<Rightarrow> string list" where
  "segments acc [] = [rev acc]"
| "segments acc (c # cs) = (if c = CHR ''/'' then rev acc # segments [] cs else segments (c # acc) cs)"

text \<open>\<open>path.Clean\<close> of a rooted path, and \<open>cleanPath\<close> of \<open>net/http\<close>.\<close>

definition clean_segment :: "string list \<Rightarrow> string \<Rightarrow> string list" where
  "clean_segment out s =
     (if s = '''' \<or> s = ''.'' then out else if s = ''..'' then butlast out else out @ [s])"

definition rooted :: "string list \<Rightarrow> string" where
  "rooted segs = (if segs = [] then ''/'' else concat (map (\<lambda>s. CHR ''/'' # s) segs))"

definition cleanPath :: "string \<Rightarrow> string" where
  "cleanPath p =
     (if p = '''' then ''/''
      else let p1 = (if hd p \<noteq> CHR ''/'' then CHR ''/'' # p else p);
               np = rooted (foldl clean_segment [] (segments '''' p1))
           in if last p1 = CHR ''/'' \<and> np \<noteq> ''/'' then np @ ''/'' else np)"

text \<open>\<open>url.PathUnescape\<close>, and the segment itself where that is an error.\<close>

fun path_unescape :: "string \<Rightarrow> string option" where
  "path_unescape [] = Some []"
| "path_unescape (c # cs) =
     (if c = CHR ''%'' then
        (case cs of
           h # l # rest \<Rightarrow>
             (case (hex_value h, hex_value l) of
                (Some a, Some b) \<Rightarrow> map_option (\<lambda>t. char_of (16 * a + b) # t) (path_unescape rest)
              | _ \<Rightarrow> None)
         | _ \<Rightarrow> None)
      else map_option (\<lambda>t. c # t) (path_unescape cs))"

definition unescape_segment :: "string \<Rightarrow> string" where
  "unescape_segment s = (case path_unescape s of None \<Rightarrow> s | Some t \<Rightarrow> t)"

datatype route =
    Health
  | RequestsTree
  | Requests
  | AdminKeysTree
  | AdminKeys
  | AdminHealth
  | AdminConfig

text \<open>
  The registered patterns. A pattern with a slash at its end matches every path below it; the
  others match exactly. No two match the same path.
\<close>

definition mux_match :: "string \<Rightarrow> route option" where
  "mux_match path =
     (let segs = map unescape_segment (tl (segments '''' path))
      in if segs = [''health''] then Some Health
         else if segs = [''api'', ''requests''] then Some Requests
         else if take 2 segs = [''api'', ''requests''] then Some RequestsTree
         else if segs = [''admin'', ''keys''] then Some AdminKeys
         else if take 2 segs = [''admin'', ''keys''] then Some AdminKeysTree
         else if segs = [''admin'', ''health''] then Some AdminHealth
         else if segs = [''admin'', ''config''] then Some AdminConfig
         else None)"

section \<open>Middleware\<close>

text \<open>
  The check of \<open>AdminAuth\<close>: \<open>None\<close> to go on with the next handler, or the reply that refuses.
  \<open>EqualFold\<close> with the ASCII word \<open>bearer\<close>, none of whose letters is equal up to case to a
  non-ASCII one, and \<open>ConstantTimeCompare\<close>, which is equality.
\<close>

definition AdminAuth :: "string \<Rightarrow> string \<Rightarrow> reply option" where
  "AdminAuth token auth =
     (if auth = '''' then Some (writeError 401 ''missing authorization header'')
      else let parts = split2 CHR '' '' auth
           in case snd parts of
                None \<Rightarrow> Some (writeError 401 ''invalid authorization format'')
              | Some credentials \<Rightarrow>
                  if to_lower (fst parts) \<noteq> ''bearer''
                  then Some (writeError 401 ''invalid authorization format'')
                  else if credentials \<noteq> token then Some (writeError 401 ''invalid admin token'')
                  else None)"

section \<open>The routes\<close>

definition routeAdminKeysList :: "api_env \<Rightarrow> config \<Rightarrow> api_request \<Rightarrow> server \<Rightarrow> server \<times> reply" where
  "routeAdminKeysList e cfg r sv =
     (if ar_Method r = ''GET'' then ListKeys e r sv
      else if ar_Method r = ''POST'' then AddKey e cfg r sv
      else (sv, method_not_allowed))"

definition routeAdminKeys :: "api_env \<Rightarrow> api_request \<Rightarrow> server \<Rightarrow> server \<times> reply" where
  "routeAdminKeys e r sv =
     (if pathEndsWith (ar_Path r) ''/reset'' then ResetKeyCircuit e r sv
      else if pathEndsWith (ar_Path r) ''/weight'' then UpdateKeyWeight e r sv
      else DeleteKey e r sv)"

definition routeAdminConfig :: "api_env \<Rightarrow> api_request \<Rightarrow> server \<Rightarrow> server \<times> reply" where
  "routeAdminConfig e r sv =
     (if ar_Method r = ''GET'' then GetConfig e r sv
      else if ar_Method r = ''PUT'' then UpdateConfig e r sv
      else (sv, method_not_allowed))"

definition is_admin :: "route \<Rightarrow> bool" where
  "is_admin rt \<longleftrightarrow> rt \<in> set [AdminKeysTree, AdminKeys, AdminHealth, AdminConfig]"

text \<open>What a route does once the middleware lets the request through.\<close>

fun handle_route :: "api_env \<Rightarrow> config \<Rightarrow> api_request \<Rightarrow> route \<Rightarrow> server \<Rightarrow> server \<times> reply" where
  "handle_route e cfg r Health sv = HealthCheck sv"
| "handle_route e cfg r RequestsTree sv = GetRequestStatus e r sv"
| "handle_route e cfg r Requests sv = SubmitRequest e r sv"
| "handle_route e cfg r AdminKeysTree sv = routeAdminKeys e r sv"
| "handle_route e cfg r AdminKeys sv = routeAdminKeysList e cfg r sv"
| "handle_route e cfg r AdminHealth sv = PoolHealth r sv"
| "handle_route e cfg r AdminConfig sv = routeAdminConfig e r sv"

text \<open>\<open>NewRouter\<close>: the request logger passes every request on unchanged.\<close>

definition serve :: "api_env \<Rightarrow> config \<Rightarrow> api_request \<Rightarrow> server \<Rightarrow> server \<times> reply" where
  "serve e cfg r sv =
     (if ar_Method r \<noteq> ''CONNECT'' \<and> cleanPath (ar_EscapedPath r) \<noteq> ar_EscapedPath r
      then (sv, Redirect (cleanPath (ar_EscapedPath r)))
      else case mux_match (ar_EscapedPath r) of
             None \<Rightarrow> (sv, NotFoundPage)
           | Some rt \<Rightarrow>
               if is_admin rt then
                 (case AdminAuth (cfg_AdminToken cfg) (ar_Authorization r) of
                    Some rep \<Rightarrow> (sv, rep)
                  | None \<Rightarrow> handle_route e cfg r rt sv)
               else handle_route e cfg r rt sv)"

fun serve_all :: "config \<Rightarrow> (api_env \<times> api_request) list \<Rightarrow> server \<Rightarrow> server \<times> reply list" where
  "serve_all cfg [] sv = (sv, [])"
| "serve_all cfg ((e, r) # rs) sv =
     (let (sv1, rep) = serve e cfg r sv; (sv2, reps) = serve_all cfg rs sv1 in (sv2, rep # reps))"

end
