(* ===== verification/Api_Access.thy ===== *)
theory Api_Access
  imports Api_Router
begin

text \<open>
  Who can do what through the HTTP interface: the admin token guards everything but the two public
  endpoints, and no reply depends on the encrypted keys.
\<close>

section \<open>The admin token\<close>

definition authorized :: "config \<Rightarrow> api_request \<Rightarrow> bool" where
  "authorized cfg r \<longleftrightarrow>
     (\<exists>scheme. ar_Authorization r = scheme @ '' '' @ cfg_AdminToken cfg \<and> to_lower scheme = ''bearer'')"

definition is_401 :: "reply \<Rightarrow> bool" where
  "is_401 rep \<longleftrightarrow> (\<exists>body. rep = Reply 401 body)"

lemma space_not_bearer: "to_lower s = ''bearer'' \<Longrightarrow> CHR '' '' \<notin> set s"
proof
  assume "to_lower s = ''bearer''" and "CHR '' '' \<in> set s"
  then have "lower_char CHR '' '' \<in> set ''bearer''" by (metis image_eqI list.set_map to_lower_def)
  moreover have "lower_char CHR '' '' = CHR '' ''" by code_simp
  ultimately show False by simp
qed

lemma AdminAuth_None_iff:
  "AdminAuth (cfg_AdminToken cfg) (ar_Authorization r) = None \<longleftrightarrow> authorized cfg r"
proof
  assume none: "AdminAuth (cfg_AdminToken cfg) (ar_Authorization r) = None"
  obtain a where "split2 CHR '' '' (ar_Authorization r) = (a, Some (cfg_AdminToken cfg))"
      and "to_lower a = ''bearer''"
    using none by (cases "split2 CHR '' '' (ar_Authorization r)")
      (auto simp: AdminAuth_def Let_def split: if_splits option.splits)
  then show "authorized cfg r" using split2_some unfolding authorized_def by fastforce
next
  assume "authorized cfg r"
  then obtain scheme where auth: "ar_Authorization r = scheme @ CHR '' '' # cfg_AdminToken cfg"
      and scheme: "to_lower scheme = ''bearer''"
    by (auto simp: authorized_def)
  have "split2 CHR '' '' (ar_Authorization r) = (scheme, Some (cfg_AdminToken cfg))"
    unfolding auth by (rule split2_append [OF space_not_bearer [OF scheme]])
  with scheme auth show "AdminAuth (cfg_AdminToken cfg) (ar_Authorization r) = None"
    by (simp add: AdminAuth_def Let_def)
qed

lemma AdminAuth_Some: "AdminAuth token auth = Some rep \<Longrightarrow> is_401 rep"
  by (auto simp: AdminAuth_def Let_def is_401_def writeError_def split: if_splits option.splits)

text \<open>The public endpoints reach only the table of requests and the queue.\<close>

definition same_but_requests :: "server \<Rightarrow> server \<Rightarrow> bool" where
  "same_but_requests sv sv' \<longleftrightarrow> sv_mgr sv' = sv_mgr sv \<and>
     db_keys (sv_db sv') = db_keys (sv_db sv) \<and> db_events (sv_db sv') = db_events (sv_db sv) \<and>
     db_config (sv_db sv') = db_config (sv_db sv)"

lemma same_but_requests_refl [simp]: "same_but_requests sv sv"
  by (simp add: same_but_requests_def)

lemma CreateRequest_fields [simp]:
  "db_keys (fst (CreateRequest io now req d)) = db_keys d"
  "db_events (fst (CreateRequest io now req d)) = db_events d"
  "db_config (fst (CreateRequest io now req d)) = db_config d"
  by (simp_all add: CreateRequest_def split: option.splits)

lemma SubmitRequest_same: "same_but_requests sv (fst (SubmitRequest e r sv))"
proof -
  have "same_but_requests sv (fst (save_and_enqueue e req sv))" for req
    by (simp add: save_and_enqueue_def same_but_requests_def case_prod_beta Let_def split: option.splits)
  then show ?thesis by (auto simp: SubmitRequest_def split: sum.splits option.splits)
qed

lemma public_same: "\<not> is_admin rt \<Longrightarrow> same_but_requests sv (fst (handle_route e cfg r rt sv))"
  using SubmitRequest_same [of sv e r]
  by (cases rt) (auto simp: is_admin_def HealthCheck_def GetRequestStatus_def Let_def split: sum.splits)

section \<open>The encrypted keys\<close>

definition mask_row :: "key_row \<Rightarrow> key_row" where
  "mask_row = set_key (\<lambda>k. k\<lparr>ak_KeyEncrypted := ''''\<rparr>)"

definition mask_db :: "database \<Rightarrow> database" where
  "mask_db d = d\<lparr>db_keys := map mask_row (db_keys d)\<rparr>"

definition mask_manager :: "manager \<Rightarrow> manager" where
  "mask_manager m = m\<lparr>m_store := \<lambda>k. (m_store m k)\<lparr>pk_KeyEncrypted := ''''\<rparr>\<rparr>"

definition mask :: "server \<Rightarrow> server" where
  "mask sv = sv\<lparr>sv_db := mask_db (sv_db sv), sv_mgr := mask_manager (sv_mgr sv)\<rparr>"

lemma mask_row_simps [simp]:
  "kr_id (mask_row r) = kr_id r" "mask_row (mask_row r) = mask_row r"
  "ak_CreatedAt (kr_key (mask_row r)) = ak_CreatedAt (kr_key r)"
  "kr_is_healthy (mask_row r) = kr_is_healthy r"
  by (simp_all add: mask_row_def set_key_def kr_id_def)

lemma mask_db_fields [simp]:
  "db_keys (mask_db d) = map mask_row (db_keys d)" "db_requests (mask_db d) = db_requests d"
  "db_events (mask_db d) = db_events d" "db_config (mask_db d) = db_config d"
  "mask_db (d\<lparr>db_requests := rs\<rparr>) = (mask_db d)\<lparr>db_requests := rs\<rparr>"
  "mask_db (d\<lparr>db_events := es\<rparr>) = (mask_db d)\<lparr>db_events := es\<rparr>"
  "mask_db (d\<lparr>db_config := cs\<rparr>) = (mask_db d)\<lparr>db_config := cs\<rparr>"
  "mask_db (d\<lparr>db_keys := ks\<rparr>) = (mask_db d)\<lparr>db_keys := map mask_row ks\<rparr>"
  "mask_db (mask_db d) = mask_db d"
  by (simp_all add: mask_db_def comp_def)

lemma mask_fields [simp]:
  "sv_db (mask sv) = mask_db (sv_db sv)" "sv_queue (mask sv) = sv_queue sv"
  "sv_mgr (mask sv) = mask_manager (sv_mgr sv)"
  "mask (sv\<lparr>sv_db := d\<rparr>) = (mask sv)\<lparr>sv_db := mask_db d\<rparr>"
  "mask (sv\<lparr>sv_queue := q\<rparr>) = (mask sv)\<lparr>sv_queue := q\<rparr>"
  "mask (mask sv) = mask sv"
  by (simp_all add: mask_def mask_manager_def)

text \<open>The operations on tables do not look at the encrypted keys.\<close>

lemma sort_key_map: "sort_key f (map g xs) = map g (sort_key (f \<circ> g) xs)"
proof -
  have "insort_key f (g x) (map g ys) = map g (insort_key (f \<circ> g) x ys)" for x ys
    by (induction ys) auto
  then show ?thesis by (induction xs) simp_all
qed

lemma GetAllAPIKeys_mask:
  "GetAllAPIKeys io (mask_db d) =
     map_sum id (map (\<lambda>k. k\<lparr>ak_KeyEncrypted := ''''\<rparr>)) (GetAllAPIKeys io d)"
  by (simp add: GetAllAPIKeys_def sort_key_map comp_def scanAPIKey_def mask_row_def set_key_def
      split: option.splits)

lemma update_where_mask:
  assumes "\<And>r. p (mask_row r) = p r" and "\<And>r. mask_row (f (mask_row r)) = mask_row (f r)"
  shows "map mask_row (update_where p f (map mask_row rs)) = map mask_row (update_where p f rs)"
  using assms by (simp add: update_where_def)

lemma rows_affected_mask:
  "rows_affected (\<lambda>r. kr_id r = i) (map mask_row rs) = rows_affected (\<lambda>r. kr_id r = i) rs"
  by (simp add: rows_affected_def filter_map comp_def)

lemma execExpectingOneRow_mask:
  assumes "map mask_row rs' = map mask_row rs"
  shows "mask_db (fst (execExpectingOneRow io i rs' (mask_db d))) = mask_db (fst (execExpectingOneRow io i rs d))"
    and "snd (execExpectingOneRow io i rs' (mask_db d)) = snd (execExpectingOneRow io i rs d)"
  using assms by (simp_all add: execExpectingOneRow_def rows_affected_mask split: option.splits)

definition hides :: "(database \<Rightarrow> database \<times> 'e) \<Rightarrow> bool" where
  "hides op \<longleftrightarrow> (\<forall>d. mask_db (fst (op (mask_db d))) = mask_db (fst (op d)) \<and> snd (op (mask_db d)) = snd (op d))"

lemma hides_exec:
  assumes "\<And>rs. map mask_row (f (map mask_row rs)) = map mask_row (f rs)"
  shows "hides (\<lambda>d. execExpectingOneRow io i (f (db_keys d)) d)"
proof -
  have "mask_db (fst (execExpectingOneRow io i (f (db_keys (mask_db d))) (mask_db d))) =
      mask_db (fst (execExpectingOneRow io i (f (db_keys d)) d)) \<and>
      snd (execExpectingOneRow io i (f (db_keys (mask_db d))) (mask_db d)) =
      snd (execExpectingOneRow io i (f (db_keys d)) d)" for d
    using execExpectingOneRow_mask [OF assms, of io i "db_keys d" d] by simp
  then show ?thesis by (simp add: hides_def)
qed

lemma hides_keys [simp]:
  "hides (CreateAPIKey io now key)" "hides (DeleteAPIKey io i)" "hides (UpdateAPIKeyWeight io now i n)"
  "hides (ResetAPIKeyCircuit io now i)"
proof -
  show "hides (CreateAPIKey io now key)"
    by (auto simp: hides_def CreateAPIKey_def comp_def split: option.splits)
  show "hides (DeleteAPIKey io i)"
    unfolding DeleteAPIKey_def by (rule hides_exec) (simp add: filter_map comp_def)
  show "hides (UpdateAPIKeyWeight io now i n)"
    unfolding UpdateAPIKeyWeight_def
    by (rule hides_exec, rule update_where_mask) (simp_all add: mask_row_def set_key_def kr_id_def)
  show "hides (ResetAPIKeyCircuit io now i)"
    unfolding ResetAPIKeyCircuit_def
    by (rule hides_exec, rule update_where_mask) (simp_all add: mask_row_def set_key_def kr_id_def)
qed

lemma UpdateSystemConfig_mask:
  "UpdateSystemConfig io k v (mask_db d) = map_prod mask_db id (UpdateSystemConfig io k v d)"
  by (simp add: UpdateSystemConfig_def split: option.splits)

lemma hides_others [simp]: "hides (CreateRequest io now req)"
  by (auto simp: hides_def CreateRequest_def split: option.splits)

lemma update_config_loop_mask:
  "update_config_loop io n m (mask_db d) = map_prod mask_db id (update_config_loop io n m d)"
proof (induction io n m d rule: update_config_loop.induct)
  case (2 io n k v rest d)
  obtain d' err where u: "UpdateSystemConfig (io n) k v d = (d', err)" by fastforce
  with 2 show ?case by (cases err) (simp_all add: UpdateSystemConfig_mask)
qed simp

lemma hides_config_loop [simp]: "hides (update_config_loop io n m)"
  by (simp add: hides_def update_config_loop_mask)

text \<open>Handlers.\<close>

definition hidden :: "(server \<Rightarrow> server \<times> reply) \<Rightarrow> bool" where
  "hidden h \<longleftrightarrow> (\<forall>sv. mask (fst (h (mask sv))) = mask (fst (h sv)) \<and> snd (h (mask sv)) = snd (h sv))"

lemma case_write:
  "(case res of (d, None) \<Rightarrow> (sv\<lparr>sv_db := d\<rparr>, a) | (d, Some x) \<Rightarrow> (sv\<lparr>sv_db := d\<rparr>, b x)) =
     (sv\<lparr>sv_db := fst res\<rparr>, case snd res of None \<Rightarrow> a | Some x \<Rightarrow> b x)"
  by (cases res) (simp split: option.split)

lemma hidden_write:
  assumes "hides op"
  shows "hidden (\<lambda>sv. (sv\<lparr>sv_db := fst (op (sv_db sv))\<rparr>, case snd (op (sv_db sv)) of None \<Rightarrow> a | Some x \<Rightarrow> b x))"
  using assms by (simp add: hidden_def hides_def)

lemma logged_aborts [simp]: "logged e i t msg rep sv = (sv, Aborted)"
  by (simp add: logged_def a_logKeyEvent_def DBContext_def)

lemma hidden_const [simp]: "hidden (\<lambda>sv. (sv, rep))"
  by (simp add: hidden_def)

lemma hidden_if: "hidden h1 \<Longrightarrow> hidden h2 \<Longrightarrow> hidden (\<lambda>sv. if b then h1 sv else h2 sv)"
  by (simp add: hidden_def)

lemma hidden_sum:
  "(\<And>x. hidden (h1 x)) \<Longrightarrow> (\<And>y. hidden (h2 y)) \<Longrightarrow>
   hidden (\<lambda>sv. case s of Inl x \<Rightarrow> h1 x sv | Inr y \<Rightarrow> h2 y sv)"
  by (simp add: hidden_def split: sum.splits)

lemma hidden_option:
  "hidden h1 \<Longrightarrow> (\<And>y. hidden (h2 y)) \<Longrightarrow>
   hidden (\<lambda>sv. case s of None \<Rightarrow> h1 sv | Some y \<Rightarrow> h2 y sv)"
  by (simp add: hidden_def split: option.splits)

lemmas hidden_intros = hidden_const hidden_if hidden_sum hidden_option hidden_write

lemma GetRequest_mask [simp]: "GetRequest io i (mask_db d) = GetRequest io i d"
  by (simp add: GetRequest_def split: option.splits)

lemma GetRequestByIdempotencyKey_mask [simp]:
  "GetRequestByIdempotencyKey io k (mask_db d) = GetRequestByIdempotencyKey io k d"
  by (simp add: GetRequestByIdempotencyKey_def split: option.splits)

lemma GetSystemConfig_mask [simp]: "GetSystemConfig io (mask_db d) = GetSystemConfig io d"
  by (simp add: GetSystemConfig_def split: option.splits)

lemma health_mask [simp]:
  "GetHealthStatus (mask_manager m) = GetHealthStatus m" "PoolSize (mask_manager m) = PoolSize m"
  by (simp_all add: GetHealthStatus_def PoolSize_def mask_manager_def key_status_def GetCurrentConcurrent_def)

lemma keyToResponse_masked [simp]: "keyToResponse e (k\<lparr>ak_KeyEncrypted := x\<rparr>) = keyToResponse e k"
  by (simp add: keyToResponse_def)

lemma hidden_reads:
  "hidden HealthCheck" "hidden (GetRequestStatus e r)" "hidden (ListKeys e r)" "hidden (PoolHealth r)"
  "hidden (GetConfig e r)"
  by (auto simp: hidden_def HealthCheck_def GetRequestStatus_def ListKeys_def PoolHealth_def GetConfig_def
      GetAllAPIKeys_mask Let_def comp_def split: sum.splits)

lemma hidden_SubmitRequest: "hidden (SubmitRequest e r)"
proof -
  have cr: "snd (CreateRequest io now req (mask_db d)) = snd (CreateRequest io now req d)"
    "mask_db (fst (CreateRequest io now req (mask_db d))) = mask_db (fst (CreateRequest io now req d))"
    for io now req d
    using hides_others [of io now req] by (simp_all add: hides_def)
  have "hidden (save_and_enqueue e req)" for req
    by (simp add: hidden_def save_and_enqueue_def case_prod_beta Let_def cr split: option.splits)
  then show ?thesis
    unfolding SubmitRequest_def idempotent_answer_def
    by (auto simp: hidden_def split: sum.splits option.splits)
qed

lemma hidden_writes:
  "hidden (AddKey e cfg r)" "hidden (DeleteKey e r)" "hidden (UpdateKeyWeight e r)"
  "hidden (ResetKeyCircuit e r)" "hidden (UpdateConfig e r)"
  unfolding AddKey_def DeleteKey_def UpdateKeyWeight_def ResetKeyCircuit_def UpdateConfig_def
    Let_def logged_aborts case_write
  by (intro hidden_intros; simp)+

lemma hidden_route: "hidden (handle_route e cfg r rt)"
  using hidden_reads hidden_writes hidden_SubmitRequest unfolding hidden_def
  by (cases rt) (simp_all add: routeAdminKeys_def routeAdminKeysList_def routeAdminConfig_def)

lemma hidden_serve: "hidden (serve e cfg r)"
  unfolding serve_def by (intro hidden_intros hidden_route)

lemma serve_masked:
  assumes "mask sv = mask sv'"
  shows "snd (serve e cfg r sv) = snd (serve e cfg r sv')"
    and "mask (fst (serve e cfg r sv)) = mask (fst (serve e cfg r sv'))"
proof -
  have "snd (serve e cfg r s) = snd (serve e cfg r (mask s)) \<and>
      mask (fst (serve e cfg r s)) = mask (fst (serve e cfg r (mask s)))" for s
    using hidden_serve [of e cfg r] by (simp add: hidden_def)
  then show "snd (serve e cfg r sv) = snd (serve e cfg r sv')"
    and "mask (fst (serve e cfg r sv)) = mask (fst (serve e cfg r sv'))"
    using assms by metis+
qed

section \<open>Properties\<close>

definition example_config :: config where
  "example_config = config_from_env (\<lambda>_. None)
     (\<lambda>k. if k = ''ADMIN_TOKEN'' then ''secret''
          else if k = ''ENCRYPTION_KEY'' then replicate 64 CHR ''a'' else '''')"

definition example_api :: "json \<Rightarrow> api_env" where
  "example_api v = \<lparr>ae_now = 5 * Second, ae_created = 5 * Second, ae_uuid = ''u1'', ae_ref = 0,
     ae_io = (\<lambda>_. None), ae_parse = (\<lambda>_. Some v), ae_error_text = (\<lambda>_. ''error''),
     ae_marshal = (\<lambda>_. ''{}''), ae_upper = id, ae_nonce = Some (replicate 12 CHR ''n''), ae_seal = toy_seal,
     ae_range = id, ae_entries = (\<lambda>_. []), ae_time_text = show_int\<rparr>"

definition example_server :: server where
  "example_server = \<lparr>sv_db = example_pool_db,
     sv_queue = NewQueue (\<lambda>_. \<lparr>it_RequestID = '''', it_Priority = 0, it_CreatedAt = 0, it_index = 0\<rparr>) 1 True,
     sv_mgr = example_manager\<rparr>"

definition example_call :: "string \<Rightarrow> string \<Rightarrow> string \<Rightarrow> api_request" where
  "example_call m p auth = \<lparr>ar_Method = m, ar_EscapedPath = p, ar_Path = p, ar_Authorization = auth, ar_Body = ''''\<rparr>"

text \<open>C15: The admin token guards the administration. A request without it (a scheme that is
  \<open>bearer\<close> in any letter case, one space and exactly the configured token) changes neither the keys,
  the events, the configuration nor the key pool, whatever its path; on an admin route it is
  answered with 401, or with the redirection of a path that is not clean, without any change and
  independently of the server's state. With the token the handler of the route runs.\<close>

theorem admin_needs_the_token:
  "(\<not> authorized cfg r \<longrightarrow> same_but_requests sv (fst (serve e cfg r sv))) \<and>
   (\<forall>rt. mux_match (ar_EscapedPath r) = Some rt \<and> is_admin rt \<longrightarrow>
      (\<exists>p. \<forall>s. serve e cfg r s = (s, Redirect p)) \<or>
      (if authorized cfg r then serve e cfg r sv = handle_route e cfg r rt sv
       else \<exists>rep. is_401 rep \<and> (\<forall>s. serve e cfg r s = (s, rep))))"
proof (cases "AdminAuth (cfg_AdminToken cfg) (ar_Authorization r)")
  case None
  then have "authorized cfg r" by (simp add: AdminAuth_None_iff)
  with None show ?thesis by (auto simp: serve_def)
next
  case (Some rep)
  then have "\<not> authorized cfg r" by (simp flip: AdminAuth_None_iff)
  moreover have "is_401 rep" using Some by (rule AdminAuth_Some)
  ultimately show ?thesis using Some public_same by (auto simp: serve_def split: option.splits)
qed

theorem admin_needs_the_token_witness:
  "snd (serve (example_api JNull) example_config (example_call ''DELETE'' ''/admin/keys/k1'' ''Bearer secre'') example_server) =
     writeError 401 ''invalid admin token'' \<and>
   (\<exists>rep. is_401 rep \<and> (\<forall>s. serve (example_api JNull) example_config
      (example_call ''DELETE'' ''/admin/keys/k1'' ''Bearer secre'') s = (s, rep)))"
proof -
  let ?r = "example_call ''DELETE'' ''/admin/keys/k1'' ''Bearer secre''"
  have "\<not> authorized example_config ?r" unfolding AdminAuth_None_iff [symmetric] by code_simp
  moreover have "mux_match (ar_EscapedPath ?r) = Some AdminKeysTree" "is_admin AdminKeysTree" by code_simp+
  moreover have res: "snd (serve (example_api JNull) example_config ?r example_server) =
      writeError 401 ''invalid admin token''"
    by code_simp
  moreover have "\<not> (\<exists>p. \<forall>s. serve (example_api JNull) example_config ?r s = (s, Redirect p))"
  proof
    assume "\<exists>p. \<forall>s. serve (example_api JNull) example_config ?r s = (s, Redirect p)"
    then obtain p where "serve (example_api JNull) example_config ?r example_server = (example_server, Redirect p)" by blast
    with res show False by (simp add: writeError_def)
  qed
  ultimately show ?thesis
    using admin_needs_the_token [of example_config ?r example_server "example_api JNull"] by metis
qed

text \<open>C16: No reply depends on the encrypted keys: two servers that differ only in what is stored
  as encrypted keys, in the database and in the pool, answer every sequence of requests, those of
  the administrator included, with the same replies.\<close>

theorem replies_hide_the_keys:
  assumes "mask sv = mask sv'"
  shows "snd (serve_all cfg rs sv) = snd (serve_all cfg rs sv')"
  using assms
proof (induction rs arbitrary: sv sv')
  case (Cons er rs)
  obtain e r where er: "er = (e, r)" by fastforce
  have "snd (serve_all cfg rs (fst (serve e cfg r sv))) = snd (serve_all cfg rs (fst (serve e cfg r sv')))"
    by (rule Cons.IH, rule serve_masked [OF Cons.prems])
  with serve_masked(1) [OF Cons.prems] er show ?case by (simp add: case_prod_beta Let_def)
qed simp

theorem replies_hide_the_keys_witness:
  "let sv' = example_server\<lparr>sv_db := (sv_db example_server)\<lparr>db_keys :=
       map (set_key (\<lambda>k. k\<lparr>ak_KeyEncrypted := ''ff''\<rparr>)) (db_keys (sv_db example_server))\<rparr>\<rparr>;
     rs = [(example_api JNull, example_call ''GET'' ''/admin/keys'' ''Bearer secret'')]
   in snd (serve_all example_config rs example_server) = snd (serve_all example_config rs sv') \<and>
      map (ak_KeyEncrypted \<circ> kr_key) (db_keys (sv_db sv')) \<noteq>
        map (ak_KeyEncrypted \<circ> kr_key) (db_keys (sv_db example_server))"
proof -
  let ?sv = "example_server\<lparr>sv_db := (sv_db example_server)\<lparr>db_keys :=
       map (set_key (\<lambda>k. k\<lparr>ak_KeyEncrypted := ''ff''\<rparr>)) (db_keys (sv_db example_server))\<rparr>\<rparr>"
  have "mask example_server = mask ?sv"
    by (simp add: comp_def mask_row_def set_key_def)
  moreover have "map (ak_KeyEncrypted \<circ> kr_key) (db_keys (sv_db ?sv)) \<noteq>
        map (ak_KeyEncrypted \<circ> kr_key) (db_keys (sv_db example_server))"
    by code_simp
  ultimately show ?thesis unfolding Let_def using replies_hide_the_keys by blast
qed

end
