(* ===== verification/Api_Requests.thy ===== *)
theory Api_Requests
  imports Api_Access
begin

text \<open>
  What the handlers achieve: a submitted request is stored before it is queued, the same
  idempotency key leads to the same request for ever, a configuration written by the administrator
  is what the reload loop reads; and where they fall short.
\<close>

section \<open>Storing and queueing\<close>

lemma alloc_item_simps [simp]:
  "contents (alloc_item x it q) = contents q" "q_closed (alloc_item x it q) = q_closed q"
  "pq_heap (q_pq (alloc_item x it q)) x = it"
  by (simp_all add: alloc_item_def)

lemma alloc_item_inv:
  assumes "q_inv q" and "x \<notin> contents q"
  shows "q_inv (alloc_item x it q)"
proof -
  have same: "pq_at (q_pq (alloc_item x it q)) i = pq_at (q_pq q) i" if "i < pq_Len (q_pq q)" for i
    using assms(2) that by (auto simp: pq_at_def alloc_item_def pq_Len_def in_set_conv_nth)
  have "pqh.heap_ok (q_pq (alloc_item x it q)) (pq_Len (q_pq (alloc_item x it q)))"
    unfolding pqh.heap_ok_def
  proof (intro allI impI)
    fix k assume k: "0 < k \<and> k < pq_Len (q_pq (alloc_item x it q))"
    then have "k < pq_Len (q_pq q)" by (simp add: pq_Len_def alloc_item_def)
    moreover from this have "parent k < pq_Len (q_pq q)" by (simp add: parent_def)
    ultimately have "pq_Less (q_pq (alloc_item x it q)) k (parent k) = pq_Less (q_pq q) k (parent k)"
      by (simp add: pq_Less_def same)
    with k assms(1) show "\<not> pq_Less (q_pq (alloc_item x it q)) k (parent k)"
      by (simp add: q_inv_def pq_inv_def pqh.heap_ok_def pq_Len_def alloc_item_def)
  qed
  moreover have "pq_wf (q_pq (alloc_item x it q))"
    using assms by (auto simp: q_inv_def pq_inv_def pq_wf_def alloc_item_def in_set_conv_nth)
  ultimately show ?thesis
    using assms(1) by (simp add: q_inv_def pq_inv_def pq_Len_def alloc_item_def)
qed

definition queued :: "queue \<Rightarrow> item_ref \<Rightarrow> request \<Rightarrow> bool" where
  "queued q x req \<longleftrightarrow> x \<in> contents q \<and> it_RequestID (pq_heap (q_pq q) x) = rq_ID req \<and>
     it_Priority (pq_heap (q_pq q) x) = rq_Priority req"

lemma same_but_index_item:
  assumes "same_but_index q q'"
  shows "it_RequestID (pq_heap q' r) = it_RequestID (pq_heap q r)"
    and "it_Priority (pq_heap q' r) = it_Priority (pq_heap q r)"
proof -
  have eq: "(pq_heap q' r)\<lparr>it_index := 0\<rparr> = (pq_heap q r)\<lparr>it_index := 0\<rparr>"
    using assms by (simp add: same_but_index_def)
  show "it_RequestID (pq_heap q' r) = it_RequestID (pq_heap q r)"
    using arg_cong [OF eq, of it_RequestID] by simp
  show "it_Priority (pq_heap q' r) = it_Priority (pq_heap q r)"
    using arg_cong [OF eq, of it_Priority] by simp
qed

text \<open>What \<open>Enqueue\<close> makes of an item that the handler has just allocated.\<close>

lemma Enqueue_allocated:
  assumes "q_inv q" and "x \<notin> contents q"
    and "Enqueue (alloc_item x (new_item e req) q) x = (q', res)"
  shows "q_inv q'" and "res = QOk \<and> queued q' x req \<or>
    (\<exists>err. res = QErr err) \<and> contents q' = contents q \<and> x \<notin> contents q'"
    and "y \<noteq> x \<Longrightarrow> it_RequestID (pq_heap (q_pq q') y) = it_RequestID (pq_heap (q_pq q) y)"
proof -
  have "enqueue_ok (alloc_item x (new_item e req) q) x q' res"
    using assms by (intro Enqueue_ok alloc_item_inv) auto
  then have spec: "enqueue_spec (alloc_item x (new_item e req) q) x res (contents q')"
      and inv: "q_inv q'" and same: "same_but_index (q_pq (alloc_item x (new_item e req) q)) (q_pq q')"
    by (simp_all add: enqueue_ok_def)
  show "q_inv q'" by (rule inv)
  show "y \<noteq> x \<Longrightarrow> it_RequestID (pq_heap (q_pq q') y) = it_RequestID (pq_heap (q_pq q) y)"
    using same_but_index_item [OF same, of y] by (simp add: alloc_item_def)
  have "queued q' x req" if "x \<in> contents q'"
    using that same_but_index_item [OF same, of x] by (simp add: queued_def new_item_def)
  with spec assms(2) show "res = QOk \<and> queued q' x req \<or>
      (\<exists>err. res = QErr err) \<and> contents q' = contents q \<and> x \<notin> contents q'"
    by (auto simp: enqueue_spec_def split: if_splits)
qed

lemma check_submit_ok:
  "check_submit b0 = Inr b \<Longrightarrow> 1 \<le> sb_Priority b \<and> sb_Priority b \<le> 3 \<and> sb_Method b \<noteq> '''' \<and>
     sb_URL b \<noteq> '''' \<and> sb_IdempotencyKey b = sb_IdempotencyKey b0"
  by (auto simp: check_submit_def priority_defs Let_def split: if_splits)

definition refusal :: "reply \<Rightarrow> bool" where
  "refusal rep \<longleftrightarrow> (\<exists>code body. rep = Reply code body \<and> code \<in> {200, 400, 405, 500})"

lemma refusals:
  "check_submit b0 = Inl rep \<Longrightarrow> refusal rep"
  "idempotent_answer e b d = Some rep \<Longrightarrow> refusal rep"
  "refusal method_not_allowed" "refusal (invalid_json e err)"
  by (auto simp: refusal_def check_submit_def idempotent_answer_def writeError_def method_not_allowed_def
      invalid_json_def Let_def split: if_splits sum.splits option.splits)

text \<open>The ways a submission can go.\<close>

lemma SubmitRequest_cases:
  assumes "SubmitRequest e r sv = (sv', rep)"
  obtains (refused) "sv' = sv" and "refusal rep"
  | (saved) b0 b where "decodeJSON e (decode_struct submit_fields empty_submit) (ar_Body r) = Inr b0"
      and "check_submit b0 = Inr b" and "idempotent_answer e b (sv_db sv) = None"
      and "save_and_enqueue e (new_request e b) sv = (sv', rep)"
proof (cases "ar_Method r = ''POST''")
  case False
  with assms refusals(3) show thesis by (intro refused) (simp_all add: SubmitRequest_def)
next
  case post: True
  show thesis
  proof (cases "decodeJSON e (decode_struct submit_fields empty_submit) (ar_Body r)")
    case (Inl err)
    with assms post refusals(4) show thesis by (intro refused) (auto simp: SubmitRequest_def)
  next
    case b0: (Inr b0)
    show thesis
    proof (cases "check_submit b0")
      case (Inl x)
      with assms post b0 refusals(1) [OF Inl] show thesis by (intro refused) (simp_all add: SubmitRequest_def)
    next
      case b: (Inr b)
      show thesis
      proof (cases "idempotent_answer e b (sv_db sv)")
        case None
        with assms post b0 b show thesis by (intro saved [OF b0 b None]) (simp add: SubmitRequest_def)
      next
        case (Some x)
        with assms post b0 b refusals(2) [OF Some] show thesis
          by (intro refused) (simp_all add: SubmitRequest_def)
      qed
    qed
  qed
qed

text \<open>Storing a new row changes no other.\<close>

lemma CreateRequest_row:
  assumes "CreateRequest io now req d = (d', err)"
  shows "err = None \<Longrightarrow> request_row d' (rq_ID req) = Some (stored_request now req)"
    and "request_row d i \<noteq> None \<Longrightarrow> request_row d' i = request_row d i"
    and "err \<noteq> None \<Longrightarrow> d' = d"
proof -
  have "err = None \<and> io = None \<and> \<not> request_taken req d \<and>
      d' = d\<lparr>db_requests := db_requests d @ [stored_request now req]\<rparr> \<or> err \<noteq> None \<and> d' = d"
  proof (cases io)
    case None
    with assms have "CreateRequest None now req d = (d', err)" by simp
    from CreateRequest_cases [OF this] None show ?thesis by (auto split: if_splits)
  qed (use assms in \<open>auto simp: CreateRequest_def\<close>)
  then consider (new) "err = None" "\<not> request_taken req d"
      "d' = d\<lparr>db_requests := db_requests d @ [stored_request now req]\<rparr>" | (old) "err \<noteq> None" "d' = d"
    by blast
  then have "(err = None \<longrightarrow> request_row d' (rq_ID req) = Some (stored_request now req)) \<and>
      (request_row d i \<noteq> None \<longrightarrow> request_row d' i = request_row d i) \<and> (err \<noteq> None \<longrightarrow> d' = d)"
  proof cases
    case new
    have "request_row d (rq_ID req) = None"
      using new(2) by (auto simp: request_row_def request_taken_def find_None_iff intro: rev_image_eqI)
    with new show ?thesis
      by (auto simp: request_row_def find_append stored_request_def split: option.splits)
  qed auto
  then show "err = None \<Longrightarrow> request_row d' (rq_ID req) = Some (stored_request now req)"
    and "request_row d i \<noteq> None \<Longrightarrow> request_row d' i = request_row d i"
    and "err \<noteq> None \<Longrightarrow> d' = d"
    by simp_all
qed

lemma save_and_enqueue_cases:
  assumes "q_inv (sv_queue sv)" and "ae_ref e \<notin> contents (sv_queue sv)"
    and "save_and_enqueue e req sv = (sv', rep)"
  obtains (unsaved) "sv' = sv" and "rep = writeError 500 ''failed to save request''"
  | (full) d where "CreateRequest (ae_io e 1) (ae_now e) req (sv_db sv) = (d, None)" and "sv_db sv' = d"
      and "rep = writeError 503 ''queue is full''" and "sv_mgr sv' = sv_mgr sv"
      and "q_inv (sv_queue sv')" and "contents (sv_queue sv') = contents (sv_queue sv)"
      and "\<forall>x \<in> contents (sv_queue sv). it_RequestID (pq_heap (q_pq (sv_queue sv')) x) =
             it_RequestID (pq_heap (q_pq (sv_queue sv)) x)"
  | (accepted) d where "CreateRequest (ae_io e 1) (ae_now e) req (sv_db sv) = (d, None)" and "sv_db sv' = d"
      and "rep = Reply 202 (requestToResponse e req)" and "sv_mgr sv' = sv_mgr sv"
      and "q_inv (sv_queue sv')" and "queued (sv_queue sv') (ae_ref e) req"
proof -
  obtain d err where cr: "CreateRequest (ae_io e 1) (ae_now e) req (sv_db sv) = (d, err)" by fastforce
  obtain q res where enq: "Enqueue (alloc_item (ae_ref e) (new_item e req) (sv_queue sv)) (ae_ref e) = (q, res)"
    by fastforce
  show thesis
  proof (cases err)
    case None
    with assms(3) cr enq have sv': "sv' = sv\<lparr>sv_db := d, sv_queue := q\<rparr>"
        and rep: "rep = (case res of QOk \<Rightarrow> Reply 202 (requestToResponse e req)
            | QErr err \<Rightarrow> writeError 503 ''queue is full'' | QPanic \<Rightarrow> Aborted)"
      by (simp_all add: save_and_enqueue_def)
    have same: "\<forall>x \<in> contents (sv_queue sv). it_RequestID (pq_heap (q_pq q) x) = it_RequestID (pq_heap (q_pq (sv_queue sv)) x)"
      using assms(2) by (intro ballI Enqueue_allocated(3) [OF assms(1,2) enq]) auto
    from Enqueue_allocated(1,2) [OF assms(1,2) enq]
    show thesis
    proof (elim disjE conjE exE)
      assume "q_inv q" "res = QOk" "queued q (ae_ref e) req"
      with cr None sv' rep show thesis by (intro accepted) auto
    next
      fix er assume "q_inv q" "res = QErr er" "contents q = contents (sv_queue sv)"
      with cr None sv' rep same show thesis by (intro full) auto
    qed
  next
    case (Some er)
    with cr CreateRequest_row(3) [OF cr] assms(3) have "sv' = sv" "rep = writeError 500 ''failed to save request''"
      by (auto simp: save_and_enqueue_def)
    then show thesis by (rule unsaved)
  qed
qed

section \<open>The same key, the same request\<close>

text \<open>Writing to the database never detaches an idempotency key from its request.\<close>

lemma find_idem_update:
  assumes "\<And>r. rq_IdempotencyKey (f r) = rq_IdempotencyKey r"
  shows "find (\<lambda>r. rq_IdempotencyKey r = k) (update_where p f rs) =
    map_option (\<lambda>r. if p r then f r else r) (find (\<lambda>r. rq_IdempotencyKey r = k) rs)"
  using assms by (induction rs) (auto simp: update_where_def)

definition same_request :: "request \<Rightarrow> request \<Rightarrow> bool" where
  "same_request r r' \<longleftrightarrow> rq_ID r' = rq_ID r \<and> rq_IdempotencyKey r' = rq_IdempotencyKey r \<and>
     rq_Source r' = rq_Source r \<and> rq_Priority r' = rq_Priority r \<and> rq_Method r' = rq_Method r \<and>
     rq_DestinationURL r' = rq_DestinationURL r \<and> rq_Headers r' = rq_Headers r \<and>
     rq_Payload r' = rq_Payload r \<and> rq_CreatedAt r' = rq_CreatedAt r"

definition idem_row :: "string \<Rightarrow> database \<Rightarrow> request option" where
  "idem_row k d = find (\<lambda>r. rq_IdempotencyKey r = Some k) (db_requests d)"

lemma exec_write_idem:
  assumes "idem_row k d = Some r"
  shows "\<exists>r'. idem_row k (fst (exec_write io now w d)) = Some r' \<and> same_request r r'"
proof (cases w)
  case (CreateRequestCall req)
  with assms show ?thesis
    by (auto simp: CreateRequest_def idem_row_def find_append same_request_def split: option.splits)
next
  case (UpdateRequestStatusCall i s k n)
  with assms show ?thesis
    by (cases io) (simp_all add: UpdateRequestStatus_def idem_row_def find_idem_update same_request_def)
next
  case (UpdateRequestResultCall i s c b err t)
  with assms show ?thesis
    by (cases io) (simp_all add: UpdateRequestResult_def idem_row_def find_idem_update same_request_def)
qed (use assms in \<open>auto simp: idem_row_def same_request_def CreateAPIKey_def UpdateAPIKeyWeight_def
    UpdateAPIKeyHealth_def UpdateAPIKeyLastUsed_def UpdateAPIKeyConcurrent_def DeleteAPIKey_def
    ResetAPIKeyCircuit_def execExpectingOneRow_def CreateKeyEvent_def UpdateSystemConfig_def
    split: option.splits\<close>)

lemma same_request_trans: "same_request a b \<Longrightarrow> same_request b c \<Longrightarrow> same_request a c"
  by (simp add: same_request_def)

lemma exec_writes_idem:
  "idem_row k d = Some r \<Longrightarrow> \<exists>r'. idem_row k (exec_writes ws d) = Some r' \<and> same_request r r'"
proof (induction ws arbitrary: d r)
  case (Cons w ws)
  obtain io now x where w: "w = (io, now, x)" by (metis prod_cases3)
  obtain r1 where "idem_row k (fst (exec_write io now x d)) = Some r1" and "same_request r r1"
    using exec_write_idem [OF Cons.prems] by blast
  with Cons.IH w same_request_trans show ?case by (metis exec_writes.simps(2))
qed (simp add: same_request_def)

lemma idem_row_create:
  assumes "CreateRequest io now req d = (d', None)" and "rq_IdempotencyKey req = Some k"
  shows "idem_row k d' = Some (stored_request now req)"
proof -
  have io: "io = None" using assms(1) by (cases io) (simp_all add: CreateRequest_def)
  have new: "\<not> request_taken req d" "d' = d\<lparr>db_requests := db_requests d @ [stored_request now req]\<rparr>"
    using CreateRequest_cases [of now req d d' None] assms(1) io by (auto split: if_splits)
  then have "find (\<lambda>r. rq_IdempotencyKey r = Some k) (db_requests d) = None"
    using assms(2) by (auto simp: request_taken_def find_None_iff image_iff)
  with new assms(2) show ?thesis by (simp add: idem_row_def find_append stored_request_def)
qed

section \<open>Properties\<close>

text \<open>Nothing is queued that is not stored. A submission never aborts and keeps the queue well
  formed and every stored row as it is; it puts its item into the queue exactly when it answers
  202, and then the row of that request is in the database, pending and with the defaults of the
  database, and the item carries its identifier and its priority, which is 1, 2 or 3. Any other
  answer leaves the queue's content, and unless it is 503 the whole server, unchanged.\<close>

theorem submit_stores_before_queueing:
  assumes "q_inv (sv_queue sv)" and "ae_ref e \<notin> contents (sv_queue sv)"
    and "SubmitRequest e r sv = (sv', rep)"
  shows "rep \<noteq> Aborted \<and> q_inv (sv_queue sv') \<and>
    (\<forall>i. request_row (sv_db sv) i \<noteq> None \<longrightarrow> request_row (sv_db sv') i = request_row (sv_db sv) i) \<and>
    (if ae_ref e \<in> contents (sv_queue sv')
     then \<exists>req. rep = Reply 202 (requestToResponse e req) \<and> queued (sv_queue sv') (ae_ref e) req \<and>
            request_row (sv_db sv') (rq_ID req) = Some (stored_request (ae_now e) req) \<and>
            rq_Status req = RequestStatusPending \<and> 1 \<le> rq_Priority req \<and> rq_Priority req \<le> 3
     else contents (sv_queue sv') = contents (sv_queue sv) \<and>
       (\<forall>body. rep \<noteq> Reply 202 body) \<and> (sv' = sv \<or> rep = writeError 503 ''queue is full''))"
  using assms(3)
proof (cases rule: SubmitRequest_cases)
  case refused
  with assms show ?thesis by (auto simp: refusal_def)
next
  case (saved b0 b)
  have prio: "1 \<le> sb_Priority b \<and> sb_Priority b \<le> 3" using check_submit_ok [OF saved(2)] by simp
  show ?thesis
  proof (cases rule: save_and_enqueue_cases [OF assms(1,2) saved(4)])
    case 1
    with assms show ?thesis by (auto simp: writeError_def)
  next
    case (2 d)
    with assms(2) CreateRequest_row(2) [OF 2(1)] show ?thesis by (auto simp: writeError_def)
  next
    case (3 d)
    with prio CreateRequest_row(1,2) [OF 3(1)] show ?thesis
      by (auto simp: queued_def new_request_def)
  qed
qed

definition submission :: "string \<Rightarrow> json" where
  "submission k = JObj [(''method'', JStr ''get''), (''url'', JStr ''http://x''), (''idempotency_key'', JStr k)]"

theorem submit_stores_before_queueing_witness:
  "\<exists>req. snd (SubmitRequest (example_api (submission ''k'')) (example_call ''POST'' ''/api/requests'' '''') example_server) =
     Reply 202 (requestToResponse (example_api (submission ''k'')) req)"
proof -
  let ?e = "example_api (submission ''k'')" and ?r = "example_call ''POST'' ''/api/requests'' ''''"
  have q: "q_inv (sv_queue example_server)" "contents (sv_queue example_server) = {}"
    by (simp_all add: example_server_def NewQueue_inv)
  have fresh: "ae_ref ?e \<notin> contents (sv_queue example_server)" by (simp add: q(2))
  have "ae_ref ?e \<in> contents (sv_queue (fst (SubmitRequest ?e ?r example_server)))" by code_simp
  with submit_stores_before_queueing [OF q(1) fresh surjective_pairing [of "SubmitRequest ?e ?r example_server"]]
  show ?thesis by auto
qed

lemma idempotent_answer_found:
  assumes "idem_row k d = Some row" and "sb_IdempotencyKey b = k" and "k \<noteq> ''''" and "ae_io e 0 = None"
  shows "idempotent_answer e b d = Some (Reply 200 (requestToResponse e row))"
  using assms by (simp add: idempotent_answer_def GetRequestByIdempotencyKey_def idem_row_def)

text \<open>A submission that stored a row with an idempotency key.\<close>

lemma SubmitRequest_stored_key:
  assumes "SubmitRequest e r sv = (sv', rep)" and "sv' \<noteq> sv" and "ae_io e 0 = None"
    and "decodeJSON e (decode_struct submit_fields empty_submit) (ar_Body r) = Inr b0"
    and "sb_IdempotencyKey b0 = k" and "k \<noteq> ''''"
  obtains b where "check_submit b0 = Inr b"
    and "idem_row k (sv_db sv') = Some (stored_request (ae_now e) (new_request e b))"
  using assms(1)
proof (cases rule: SubmitRequest_cases)
  case refused
  with assms(2) show thesis by simp
next
  case (saved b0' b)
  with assms(4) have b: "check_submit b0 = Inr b" by simp
  then have key: "rq_IdempotencyKey (new_request e b) = Some k"
    using check_submit_ok [OF b] assms(5,6) by (simp add: new_request_def)
  obtain d err where cr: "CreateRequest (ae_io e 1) (ae_now e) (new_request e b) (sv_db sv) = (d, err)" by fastforce
  have "err = None"
    using cr saved(4) assms(2) CreateRequest_row(3) [OF cr] by (cases err) (auto simp: save_and_enqueue_def)
  moreover have "sv_db sv' = d" using cr saved(4) \<open>err = None\<close>
    by (auto simp: save_and_enqueue_def split: prod.splits)
  ultimately show thesis using that [OF b] idem_row_create [OF _ key] cr by blast
qed


text \<open>
  The lookup and the insert of a submission are two accesses to the database. When two submissions
  with one key both look before either stores, the second insert fails on the unique key: that
  client is answered 500 although its request was accepted a moment before.
\<close>

theorem simultaneous_resubmission_is_an_error:
  assumes "idempotent_answer e1 b1 d = None" and "idempotent_answer e2 b2 d = None"
    and "sb_IdempotencyKey b1 = k" and "sb_IdempotencyKey b2 = k" and "k \<noteq> ''''"
    and "CreateRequest (ae_io e1 1) (ae_now e1) (new_request e1 b1) d = (d1, None)"
    and "sv_db sv = exec_writes ws d1"
  shows "save_and_enqueue e2 (new_request e2 b2) sv = (sv, writeError 500 ''failed to save request'')"
proof -
  have key: "rq_IdempotencyKey (new_request e1 b1) = Some k" "rq_IdempotencyKey (new_request e2 b2) = Some k"
    using assms(3-5) by (simp_all add: new_request_def)
  obtain r where "idem_row k (sv_db sv) = Some r"
    using exec_writes_idem [OF idem_row_create [OF assms(6) key(1)]] assms(7) by metis
  then have "Some k \<in> set (map rq_IdempotencyKey (db_requests (sv_db sv)))"
    by (force simp: idem_row_def find_Some_iff in_set_conv_nth)
  with key(2) obtain err where
    "CreateRequest (ae_io e2 1) (ae_now e2) (new_request e2 b2) (sv_db sv) = (sv_db sv, Some err)"
    unfolding CreateRequest_def by (cases "ae_io e2 1") (fastforce split: if_splits)+
  then show ?thesis by (simp add: save_and_enqueue_def)
qed

definition example_submit :: api_request where
  "example_submit = example_call ''POST'' ''/api/requests'' ''''"


text \<open>C36: A submission refused because the queue is full leaves its row behind: the client is told 503,
  the row stays pending and none of the items in the queue, each of which is for a request that
  was stored before, is for it; and when the client tries again with its idempotency key it is
  answered 200 with the pending request, which again changes nothing, however much room there is
  in the queue then.\<close>

theorem refused_submission_is_never_queued:
  assumes "q_inv (sv_queue sv)" and "ae_ref e \<notin> contents (sv_queue sv)"
    and "\<forall>x \<in> contents (sv_queue sv). request_row (sv_db sv) (it_RequestID (pq_heap (q_pq (sv_queue sv)) x)) \<noteq> None"
    and "SubmitRequest e r sv = (sv', writeError 503 ''queue is full'')" and "ae_io e 0 = None"
    and "decodeJSON e (decode_struct submit_fields empty_submit) (ar_Body r) = Inr b0"
    and "sb_IdempotencyKey b0 = k" and "k \<noteq> ''''"
    and "sv_db sv2 = sv_db sv'" and "ar_Method r2 = ''POST''" and "ae_io e2 0 = None"
    and "decodeJSON e2 (decode_struct submit_fields empty_submit) (ar_Body r2) = Inr b0"
  shows "\<exists>row. idem_row k (sv_db sv') = Some row \<and> request_row (sv_db sv') (rq_ID row) = Some row \<and>
    rq_Status row = RequestStatusPending \<and>
    (\<forall>x \<in> contents (sv_queue sv'). it_RequestID (pq_heap (q_pq (sv_queue sv')) x) \<noteq> rq_ID row) \<and>
    SubmitRequest e2 r2 sv2 = (sv2, Reply 200 (requestToResponse e2 row))"
  using assms(4)
proof (cases rule: SubmitRequest_cases)
  case refused
  then show ?thesis by (simp add: refusal_def writeError_def)
next
  case (saved b0' b)
  with assms(6) have b: "check_submit b0 = Inr b" by simp
  then have k: "sb_IdempotencyKey b = k" using check_submit_ok assms(7) by metis
  then have key: "rq_IdempotencyKey (new_request e b) = Some k" using assms(8) by (simp add: new_request_def)
  show ?thesis
  proof (cases rule: save_and_enqueue_cases [OF assms(1,2) saved(4)])
    case (2 d)
    have row: "idem_row k (sv_db sv') = Some (stored_request (ae_now e) (new_request e b))"
      using idem_row_create [OF 2(1) key] 2(2) by simp
    have "idempotent_answer e2 b (sv_db sv2) =
        Some (Reply 200 (requestToResponse e2 (stored_request (ae_now e) (new_request e b))))"
      using row k assms(8,9,11) by (intro idempotent_answer_found) auto
    with b assms(10,12) have "SubmitRequest e2 r2 sv2 =
        (sv2, Reply 200 (requestToResponse e2 (stored_request (ae_now e) (new_request e b))))"
      by (simp add: SubmitRequest_def)
    moreover have "request_row (sv_db sv) (ae_uuid e) = None"
    proof -
      have "\<not> request_taken (new_request e b) (sv_db sv)"
        using CreateRequest_cases [of "ae_now e" "new_request e b" "sv_db sv" d None] 2(1)
        by (cases "ae_io e 1") (auto simp: CreateRequest_def split: if_splits)
      then show ?thesis by (auto simp: request_taken_def request_row_def new_request_def find_None_iff intro: rev_image_eqI)
    qed
    moreover have "request_row (sv_db sv') (ae_uuid e) = Some (stored_request (ae_now e) (new_request e b))"
      using CreateRequest_row(1) [OF 2(1)] 2(2) by (simp add: new_request_def)
    ultimately show ?thesis using row assms(3) 2(6,7) by (auto simp: stored_request_def new_request_def)
  qed (simp_all add: writeError_def)
qed

text \<open>A server whose queue of size one holds an item of high priority.\<close>

definition full_server :: server where
  "full_server = example_server\<lparr>sv_queue :=
     fst (Enqueue (alloc_item 7 \<lparr>it_RequestID = ''u0'', it_Priority = 1, it_CreatedAt = 0, it_index = 0\<rparr>
       (sv_queue example_server)) 7),
     sv_db := fst (CreateRequest None 0 (example_request ''u0'' 1) (sv_db example_server))\<rparr>"

theorem refused_submission_is_never_queued_witness:
  "let e = example_api (submission ''k''); sv1 = fst (SubmitRequest e example_submit full_server)
   in \<exists>row. SubmitRequest e example_submit (sv1\<lparr>sv_queue := sv_queue example_server\<rparr>) =
        (sv1\<lparr>sv_queue := sv_queue example_server\<rparr>, Reply 200 (requestToResponse e row)) \<and>
      rq_Status row = RequestStatusPending \<and>
      list_all (\<lambda>x. it_RequestID (pq_heap (q_pq (sv_queue sv1)) x) \<noteq> rq_ID row) (pq_refs (q_pq (sv_queue sv1)))"
proof -
  let ?e = "example_api (submission ''k'')"
  let ?sv1 = "fst (SubmitRequest ?e example_submit full_server)"
  let ?b = "empty_submit\<lparr>sb_IdempotencyKey := ''k'', sb_Method := ''get'', sb_URL := ''http://x''\<rparr>"
  have dec: "decodeJSON ?e (decode_struct submit_fields empty_submit) (ar_Body example_submit) = Inr ?b" by code_simp
  have q: "q_inv (sv_queue full_server)"
  proof -
    let ?q = "alloc_item 7 \<lparr>it_RequestID = ''u0'', it_Priority = 1, it_CreatedAt = 0, it_index = 0\<rparr> (sv_queue example_server)"
    have "q_inv ?q" "7 \<notin> contents ?q"
      by (intro alloc_item_inv) (simp_all add: example_server_def NewQueue_inv)
    from Enqueue_ok [OF this surjective_pairing] show ?thesis by (simp add: full_server_def enqueue_ok_def)
  qed
  have fresh: "ae_ref ?e \<notin> contents (sv_queue full_server)" by code_simp
  have "pq_refs (q_pq (sv_queue full_server)) = [7]"
      "Option.is_none (request_row (sv_db full_server) (it_RequestID (pq_heap (q_pq (sv_queue full_server)) 7))) = False"
    by code_simp+
  then have stored: "\<forall>x \<in> contents (sv_queue full_server).
      request_row (sv_db full_server) (it_RequestID (pq_heap (q_pq (sv_queue full_server)) x)) \<noteq> None"
    by (simp add: Option.is_none_def)
  have "snd (SubmitRequest ?e example_submit full_server) = writeError 503 ''queue is full''" by code_simp
  then have sub: "SubmitRequest ?e example_submit full_server = (?sv1, writeError 503 ''queue is full'')"
    by (metis prod.collapse)
  have io: "ae_io ?e 0 = None" and post: "ar_Method example_submit = ''POST''" by code_simp+
  have "\<exists>row. idem_row ''k'' (sv_db ?sv1) = Some row \<and> request_row (sv_db ?sv1) (rq_ID row) = Some row \<and>
      rq_Status row = RequestStatusPending \<and>
      (\<forall>x \<in> contents (sv_queue ?sv1). it_RequestID (pq_heap (q_pq (sv_queue ?sv1)) x) \<noteq> rq_ID row) \<and>
      SubmitRequest ?e example_submit (?sv1\<lparr>sv_queue := sv_queue example_server\<rparr>) =
        (?sv1\<lparr>sv_queue := sv_queue example_server\<rparr>, Reply 200 (requestToResponse ?e row))"
    by (rule refused_submission_is_never_queued [OF q fresh stored sub io dec _ _ _ post io dec]) simp_all
  then show ?thesis unfolding Let_def list_all_iff by blast
qed

text \<open>Deleting, adding and resetting a key when the database does what it is asked.\<close>

lemma key_row_affected: "key_row d i \<noteq> None \<Longrightarrow> rows_affected (\<lambda>r. kr_id r = i) (db_keys d) \<noteq> 0"
  using key_row_none [of d i] by (auto simp: rows_affected_def filter_empty_conv)

lemma no_slash_suffix: "CHR ''/'' \<in> set t \<Longrightarrow> \<not> has_suffix (extractPathParam path prefix) t"
proof
  assume t: "CHR ''/'' \<in> set t" and suffix: "has_suffix (extractPathParam path prefix) t"
  have "set t \<subseteq> set (extractPathParam path prefix)" using suffix unfolding has_suffix_def by (metis set_drop_subset)
  with t show False by (auto simp: extractPathParam_def split2_def dest: set_takeWhileD)
qed

lemma AddKey_cut:
  assumes "ar_Method r = ''POST''" and "decodeJSON e (decode_struct key_fields empty_key_body) (ar_Body r) = Inr b"
    and "kb_Name b \<noteq> ''''" "kb_Key b \<noteq> ''''"
    and "Encrypt (ae_seal e) (ae_nonce e) (kb_Key b) (cfg_EncryptionKey cfg) = Inr enc"
    and "ae_io e 0 = None" and "key_row (sv_db sv) (ae_uuid e) = None"
  shows "snd (AddKey e cfg r sv) = Aborted \<and> (\<exists>row. key_row (sv_db (fst (AddKey e cfg r sv))) (ae_uuid e) = Some row \<and>
    ak_Name (kr_key row) = kb_Name b \<and> ak_KeyEncrypted (kr_key row) = enc)"
proof -
  let ?k = "new_key e enc (key_defaults b)"
  have id: "ak_ID ?k = ae_uuid e" and key: "kb_Key (key_defaults b) = kb_Key b" "kb_Name (key_defaults b) = kb_Name b"
    by (simp_all add: new_key_def key_defaults_def)
  have "snd (CreateAPIKey None (ae_now e) ?k (sv_db sv)) = None"
    using assms(7) by (simp add: CreateAPIKey_def key_row_none id)
  then obtain d where d: "CreateAPIKey None (ae_now e) ?k (sv_db sv) = (d, None)" by (metis prod.collapse)
  have "AddKey e cfg r sv = (sv\<lparr>sv_db := d\<rparr>, Aborted)"
    using assms(1-6) d key by (simp add: AddKey_def Let_def)
  moreover have "\<exists>row. key_row d (ae_uuid e) = Some row \<and> ak_Name (kr_key row) = kb_Name b \<and>
      ak_KeyEncrypted (kr_key row) = enc"
    using key_row_write [of None "ae_now e" "CreateAPIKeyCall ?k" "sv_db sv" "ae_uuid e"] d assms(7) id key
    by (simp add: new_key_def)
  ultimately show ?thesis by simp
qed

lemma DeleteKey_cut:
  assumes "ar_Method r = ''DELETE''" and "i = extractPathParam (ar_Path r) ''/admin/keys/''" and "i \<noteq> ''''"
    and "ae_io e 0 = None" and "key_row (sv_db sv) i \<noteq> None"
  shows "snd (DeleteKey e r sv) = Aborted \<and> key_row (sv_db (fst (DeleteKey e r sv))) i = None"
proof -
  have "snd (DeleteAPIKey None i (sv_db sv)) = None"
    using key_row_affected [OF assms(5)] by (simp add: DeleteAPIKey_def execExpectingOneRow_def)
  then obtain d where d: "DeleteAPIKey None i (sv_db sv) = (d, None)" by (metis prod.collapse)
  have "\<not> has_suffix i ''/reset''" "\<not> has_suffix i ''/weight''" unfolding assms(2) by (rule no_slash_suffix; simp)+
  then have "DeleteKey e r sv = (sv\<lparr>sv_db := d\<rparr>, Aborted)"
    using assms(1,3,4) d by (simp add: DeleteKey_def Let_def flip: assms(2))
  moreover have "key_row d i = None"
    using key_row_write [of None 0 "DeleteAPIKeyCall i" "sv_db sv" i] d by simp
  ultimately show ?thesis by simp
qed

lemma ResetKeyCircuit_cut:
  assumes "ar_Method r = ''POST''" and "key_id_of_path (ar_Path r) = Some i"
    and "ae_io e 0 = None" and "key_row (sv_db sv) i \<noteq> None"
  shows "snd (ResetKeyCircuit e r sv) = Aborted \<and> (\<exists>row. key_row (sv_db (fst (ResetKeyCircuit e r sv))) i = Some row \<and>
    ak_CircuitState (kr_key row) = ''closed'' \<and> ak_FailureCount (kr_key row) = 0 \<and> intToBool (kr_is_healthy row))"
proof -
  have "snd (ResetAPIKeyCircuit None (ae_now e) i (sv_db sv)) = None"
    using key_row_affected [OF assms(4)] by (simp add: ResetAPIKeyCircuit_def execExpectingOneRow_def)
  then obtain d where d: "ResetAPIKeyCircuit None (ae_now e) i (sv_db sv) = (d, None)" by (metis prod.collapse)
  have "ResetKeyCircuit e r sv = (sv\<lparr>sv_db := d\<rparr>, Aborted)"
    using assms(1-3) d by (simp add: ResetKeyCircuit_def Let_def)
  moreover obtain row where "key_row (sv_db sv) i = Some row" using assms(4) by blast
  then have "\<exists>row. key_row d i = Some row \<and> ak_CircuitState (kr_key row) = ''closed'' \<and>
      ak_FailureCount (kr_key row) = 0 \<and> intToBool (kr_is_healthy row)"
    using key_row_write [of None "ae_now e" "ResetAPIKeyCircuitCall i" "sv_db sv" i] d
    by (simp add: touch_key_def set_key_def intToBool_def)
  ultimately show ?thesis by simp
qed

lemma key_change_fails:
  "h \<in> {AddKey e cfg r, DeleteKey e r, ResetKeyCircuit e r} \<Longrightarrow>
     snd (h sv) = Aborted \<or> fst (h sv) = sv \<and> (\<exists>code body. snd (h sv) = Reply code body \<and> 400 \<le> code)"
proof -
  have add: "snd (CreateAPIKey io now k d) \<noteq> None \<Longrightarrow> fst (CreateAPIKey io now k d) = d" for io now k d
    by (auto simp: CreateAPIKey_def split: option.splits if_splits)
  have exec: "snd (execExpectingOneRow io i rs d) \<noteq> None \<Longrightarrow>
      (rows_affected (\<lambda>r. kr_id r = i) (db_keys d) = 0 \<Longrightarrow> rs = db_keys d) \<Longrightarrow>
      fst (execExpectingOneRow io i rs d) = d" for io i rs d
    by (auto simp: execExpectingOneRow_def split: option.splits if_splits)
  have del: "snd (DeleteAPIKey io i d) \<noteq> None \<Longrightarrow> fst (DeleteAPIKey io i d) = d" for io i d
    unfolding DeleteAPIKey_def by (rule exec) (auto simp: rows_affected_def filter_empty_conv filter_id_conv)
  have reset: "snd (ResetAPIKeyCircuit io now i d) \<noteq> None \<Longrightarrow> fst (ResetAPIKeyCircuit io now i d) = d" for io now i d
    unfolding ResetAPIKeyCircuit_def
    by (rule exec) (auto simp: rows_affected_def filter_empty_conv update_where_def intro: map_idI)
  have "fst (AddKey e cfg r sv) = sv \<and> (\<exists>code body. snd (AddKey e cfg r sv) = Reply code body \<and> 400 \<le> code) \<or>
      snd (AddKey e cfg r sv) = Aborted"
    using add by (simp add: AddKey_def Let_def case_write writeError_def method_not_allowed_def invalid_json_def
        split: sum.splits option.splits)
  moreover have "fst (DeleteKey e r sv) = sv \<and> (\<exists>code body. snd (DeleteKey e r sv) = Reply code body \<and> 400 \<le> code) \<or>
      snd (DeleteKey e r sv) = Aborted"
    using del by (simp add: DeleteKey_def Let_def case_write writeError_def method_not_allowed_def split: option.splits)
  moreover have "fst (ResetKeyCircuit e r sv) = sv \<and>
      (\<exists>code body. snd (ResetKeyCircuit e r sv) = Reply code body \<and> 400 \<le> code) \<or>
      snd (ResetKeyCircuit e r sv) = Aborted"
    using reset by (simp add: ResetKeyCircuit_def Let_def case_write writeError_def method_not_allowed_def
        split: option.splits)
  moreover assume "h \<in> {AddKey e cfg r, DeleteKey e r, ResetKeyCircuit e r}"
  ultimately show ?thesis by auto
qed



section \<open>Configuration by the administrator\<close>

definition put_entry :: "(string \<rightharpoonup> string) \<Rightarrow> string \<times> string \<Rightarrow> string \<rightharpoonup> string" where
  "put_entry m kv = m(fst kv \<mapsto> snd kv)"

lemma put_entry_upd [simp]: "put_entry m (k, v) = m(k \<mapsto> v)"
  by (simp add: put_entry_def)

lemma foldl_put_entry_where:
  "foldl put_entry c (update_where (\<lambda>r. fst r = k) (\<lambda>r. (k, v)) rs) =
     (if k \<in> fst ` set rs then (foldl put_entry c rs)(k \<mapsto> v) else foldl put_entry c rs)"
proof (induction rs rule: rev_induct)
  case (snoc x rs)
  obtain a b where "x = (a, b)" by fastforce
  with snoc show ?case by (cases "a = k") (auto simp: update_where_def fun_upd_twist)
qed (simp add: update_where_def)

definition stored_config :: "database \<Rightarrow> string \<rightharpoonup> string" where
  "stored_config d = foldl put_entry Map.empty (db_config d)"

lemma GetSystemConfig_stored: "GetSystemConfig None d = Inr (stored_config d)"
proof -
  have "(\<lambda>m (k, v). m(k \<mapsto> v)) = put_entry" by (intro ext) (simp add: put_entry_def split_beta)
  then show ?thesis by (simp add: GetSystemConfig_def stored_config_def)
qed

lemma UpdateSystemConfig_stored:
  obtains d' where "UpdateSystemConfig None k v d = (d', None)"
    and "stored_config d' = (stored_config d)(k \<mapsto> v)"
  using that
  by (auto simp: UpdateSystemConfig_def stored_config_def foldl_put_entry_where)

lemma update_config_loop_stored:
  obtains d' where "update_config_loop (\<lambda>_. None) n l d = (d', None)"
    and "stored_config d' = stored_config d ++ map_of (rev l)"
proof -
  have "\<exists>d'. update_config_loop (\<lambda>_. None) n l d = (d', None) \<and> stored_config d' = stored_config d ++ map_of (rev l)"
  proof (induction l arbitrary: n d)
    case (Cons kv l)
    obtain k v where kv: "kv = (k, v)" by fastforce
    obtain d1 where "UpdateSystemConfig None k v d = (d1, None)" and "stored_config d1 = (stored_config d)(k \<mapsto> v)"
      by (rule UpdateSystemConfig_stored)
    moreover obtain d' where "update_config_loop (\<lambda>_. None) (Suc n) l d1 = (d', None)"
        and "stored_config d' = stored_config d1 ++ map_of (rev l)"
      using Cons.IH by blast
    ultimately show ?case using kv by (simp add: map_add_assoc)
  qed simp
  with that show thesis by blast
qed

lemma map_of_same_entries:
  assumes "set l = set m" and "distinct (map fst m)"
  shows "map_of (rev l) = map_of m"
proof
  fix x
  show "map_of (rev l) x = map_of m x"
  proof (cases "map_of (rev l) x")
    case None
    then have "x \<notin> fst ` set m" using assms(1) by (simp add: map_of_eq_None_iff)
    with None show ?thesis by (metis map_of_eq_None_iff)
  next
    case (Some v)
    then have "(x, v) \<in> set m" using assms(1) map_of_SomeD by fastforce
    with Some assms(2) show ?thesis by (simp add: map_of_is_SomeI)
  qed
qed

text \<open>The settings that the reload loop takes over, by the names under which it looks for them.\<close>

definition int_settings :: "(string \<times> (hot_config \<Rightarrow> int)) list" where
  "int_settings =
     [(''worker_count'', hc_WorkerCount), (''queue_max_size'', hc_QueueMaxSize),
      (''circuit_breaker_threshold'', hc_CircuitBreakerThreshold),
      (''circuit_breaker_open_duration_seconds'', hc_CircuitBreakerOpenDuration),
      (''retry_max_attempts'', hc_RetryMaxAttempts), (''retry_base_delay_ms'', hc_RetryBaseDelayMS),
      (''retry_max_delay_ms'', hc_RetryMaxDelayMS)]"

definition float_settings :: "(string \<times> (hot_config \<Rightarrow> f64)) list" where
  "float_settings =
     [(''load_shed_level1'', hc_LoadShedLevel1Threshold), (''load_shed_level2'', hc_LoadShedLevel2Threshold)]"

definition setting_names :: "string list" where
  "setting_names = ''strategy'' # map fst int_settings @ map fst float_settings"

lemma Update_ignores:
  assumes "\<And>k. k \<in> set setting_names \<Longrightarrow> db k = db' k"
  shows "fst (Update parse fmt2 db h) = fst (Update parse fmt2 db' h)"
  using assms
  by (simp add: setting_names_def int_settings_def float_settings_def Update_fst accepted_int_def accepted_float_def
      accepted_strategy_def)

lemma map_of_filter_names: "map_of (filter (\<lambda>kv. fst kv \<in> names) m) k = (if k \<in> names then map_of m k else None)"
  by (induction m) auto



end
