(* ===== verification/Retry_Backoff.thy ===== *)
theory Retry_Backoff
  imports Hot_Config
begin

text \<open>
  The retry policy of \<^verbatim>\<open>internal/worker/retry.go\<close>: \<open>CalculateBackoff\<close> in the floating-point
  arithmetic the code uses, with the value \<open>r\<close> that \<open>rand.Float64\<close> returns as an argument, and
  \<open>ShouldRetry\<close>. The product with a millisecond is the code's 64-bit product.
\<close>

section \<open>The policy\<close>

definition CalculateBackoff :: "rat \<Rightarrow> int \<Rightarrow> hot_config \<Rightarrow> duration" where
  "CalculateBackoff r attempt hot =
     (let cfg = hc_Get hot;
          base = f64_of_int (hc_RetryBaseDelayMS cfg);
          maxDelay = f64_of_int (hc_RetryMaxDelayMS cfg);
          delay = f64_mult base (f64_pow2 attempt);
          delay = (if f64_less maxDelay delay then maxDelay else delay);
          jitter = f64_mult (f64_mult (Fin r) (f64_of_int (hc_RetryBaseDelayMS cfg))) (Fin (1 / 2))
      in i64 (f64_to_i64 (f64_add delay jitter) * Millisecond))"

definition ShouldRetry :: "int \<Rightarrow> hot_config \<Rightarrow> bool" where
  "ShouldRetry currentAttempts hot \<longleftrightarrow> currentAttempts < hc_RetryMaxAttempts (hc_Get hot)"

section \<open>The capped delay and the jitter\<close>

lemma capped_delay:
  assumes "1 \<le> base" "base \<le> 2 ^ 50" "1 \<le> cap" "cap \<le> 2 ^ 50" "0 \<le> a"
  defines "d \<equiv> f64_mult (Fin (of_int base)) (f64_pow2 a)"
  shows "(if f64_less (Fin (of_int cap)) d then Fin (of_int cap) else d) =
    Fin (of_int (min (base * 2 ^ nat a) cap))"
proof (cases "a \<le> 900")
  case True
  have "d = Fin (of_int base * 2 powi a)"
    using True assms f64_round_short [of base a] by (simp add: f64_pow2_def)
  also have "(of_int base :: rat) * 2 powi a = of_int (base * 2 ^ nat a)"
    using assms(5) by (simp add: power_int_nonneg_exp)
  finally have d: "d = Fin (of_int (base * 2 ^ nat a))" .
  show ?thesis unfolding d min_def f64_less.simps of_int_less_iff by simp
next
  case False
  have "(2 :: int) ^ 50 \<le> 2 ^ nat a" using False by (intro power_increasing) simp_all
  then have "cap * 1 \<le> 2 ^ nat a * base" using assms by (intro mult_mono) linarith+
  then have "min (base * 2 ^ nat a) cap = cap" by (simp add: mult.commute)
  moreover have "f64_less (Fin (of_int cap)) d"
  proof (cases "1024 \<le> a")
    case True
    then show ?thesis using assms(1) by (simp add: d_def f64_pow2_def f64_scale_inf_def)
  next
    case small: False
    let ?x = "of_int base * (2 :: rat) powi a"
    have d: "d = f64_round ?x" using False small by (simp add: d_def f64_pow2_def)
    have "1 * (2 :: rat) powi 900 \<le> ?x"
      using assms(1) False by (intro mult_mono) (simp_all only: powi_le_iff, simp_all)
    then have x: "2 powi 900 \<le> ?x" by simp
    have "2 powi 900 \<le> rnd_pos ?x"
      using rnd_pos_mono [OF _ x] short_rnd_pos [OF short_power [of 900]] by simp
    moreover have "(of_int cap :: rat) < 2 powi 900"
    proof -
      have "(of_int cap :: rat) \<le> of_int (2 ^ 50)" using assms(4) by (rule of_int_le_iff [THEN iffD2])
      also have "\<dots> < 2 powi 900" by simp
      finally show ?thesis .
    qed
    ultimately have "of_int cap < rnd_pos ?x" by linarith
    moreover have "0 < ?x" using assms(1) by simp
    ultimately show ?thesis using f64_round_pos [of ?x] d by auto
  qed
  ultimately show ?thesis by simp
qed

lemma jitter_bounds:
  assumes "0 \<le> base" "base \<le> 2 ^ 50" "0 \<le> r" "r \<le> 1"
  obtains j where "f64_mult (f64_mult (Fin r) (Fin (of_int base))) (Fin (1 / 2)) = Fin j"
    and "0 \<le> j" and "j \<le> of_int base / 2" and "r = 0 \<Longrightarrow> j = 0"
proof -
  have s: "short 0" "short (of_int base)" "short (of_int base / 2)"
    using short_of_int [of 0] short_of_int [of base] short_half [of base] assms(1,2) by auto
  have "r * of_int base \<le> 1 * of_int base" using assms by (intro mult_right_mono) simp_all
  then obtain z where z: "f64_round (r * of_int base) = Fin z" "0 \<le> z" "z \<le> of_int base"
    using f64_round_bounds [OF s(1,2), of "r * of_int base"] assms(1,3) by auto
  moreover obtain j where j: "f64_round (z * (1 / 2)) = Fin j" "0 \<le> j" "j \<le> of_int base / 2"
    using f64_round_bounds [OF s(1,3), of "z * (1 / 2)"] z(2,3) by auto
  moreover have "r = 0 \<Longrightarrow> j = 0" using z(1) j(1) by auto
  ultimately show thesis using that [of j] by simp
qed

lemma rat_trunc_between: "of_int b \<le> z \<Longrightarrow> z \<le> of_int b + of_int n / 2 \<Longrightarrow> 0 \<le> b \<Longrightarrow>
    b \<le> rat_trunc z \<and> rat_trunc z \<le> b + n div 2"
proof -
  assume b: "of_int b \<le> z" "0 \<le> b" and z: "z \<le> of_int b + of_int n / 2"
  have "0 \<le> z" using b by (metis of_int_0_le_iff order_trans)
  then have t: "rat_trunc z = floor z" by (simp add: rat_trunc_def)
  have "floor z \<le> floor (of_int (2 * b + n) / of_int 2 :: rat)"
    using z by (intro floor_mono) (simp add: field_simps)
  also have "\<dots> = (2 * b + n) div 2" by (rule floor_divide_of_int_eq)
  finally show ?thesis unfolding t using b(1) by (simp add: le_floor_iff)
qed


section \<open>Properties\<close>

text \<open>C34: the delay before a retry is \<open>min (base * 2 ^ attempt) max\<close> milliseconds plus at most half
  the base delay, for every attempt count however large, and exactly the former without jitter:
  no rounding, overflow or infinity of the floating-point computation shows in the result, as long
  as the two configured delays together fit a duration.\<close>

theorem backoff_bounds:
  assumes base: "1 \<le> hc_RetryBaseDelayMS hot" and cap: "1 \<le> hc_RetryMaxDelayMS hot"
    and fit: "hc_RetryBaseDelayMS hot + hc_RetryMaxDelayMS hot \<le> 9223372036854"
    and attempt: "0 \<le> attempt" and r: "0 \<le> r" "r < 1"
  shows "let d = min (hc_RetryBaseDelayMS hot * 2 ^ nat attempt) (hc_RetryMaxDelayMS hot)
    in d * Millisecond \<le> CalculateBackoff r attempt hot \<and>
       CalculateBackoff r attempt hot \<le> (d + hc_RetryBaseDelayMS hot div 2) * Millisecond \<and>
       (r = 0 \<longrightarrow> CalculateBackoff r attempt hot = d * Millisecond)"
proof -
  define b where "b = hc_RetryBaseDelayMS hot"
  define m where "m = hc_RetryMaxDelayMS hot"
  define d where "d = min (b * 2 ^ nat attempt) m"
  have b: "1 \<le> b" "b \<le> 2 ^ 50" and m: "1 \<le> m" "m \<le> 2 ^ 50" and bm: "b + m \<le> 9223372036854"
    using base cap fit by (simp_all add: b_def m_def)
  have "0 \<le> b * 2 ^ nat attempt" using b by simp
  then have d: "0 \<le> d" "d \<le> m" using m by (simp_all add: d_def)
  obtain j where j: "f64_mult (f64_mult (Fin r) (Fin (of_int b))) (Fin (1 / 2)) = Fin j" "0 \<le> j"
      "j \<le> of_int b / 2" "r = 0 \<Longrightarrow> j = 0"
    using jitter_bounds [of b r] b r by auto
  have "short (of_int d)" "short (of_int (2 * d + b) / 2)"
    using b d m bm short_of_int [of d] short_half [of "2 * d + b"] by simp_all
  moreover have "(0 :: rat) \<le> of_int d" "of_int d \<le> of_int d + j"
      "of_int d + j \<le> of_int (2 * d + b) / 2"
    using j(2,3) d by (simp_all add: field_simps)
  ultimately obtain z where z: "f64_round (of_int d + j) = Fin z" "of_int d \<le> z"
      "z \<le> of_int (2 * d + b) / 2"
    by (rule f64_round_bounds)
  then have t: "d \<le> rat_trunc z" "rat_trunc z \<le> d + b div 2"
    using rat_trunc_between [of d z b] d by (simp_all add: field_simps)
  then have fits: "in_i64 (rat_trunc z)" "in_i64 (rat_trunc z * Millisecond)"
    using b d bm by (auto simp: in_i64_def Millisecond_def)
  have delay: "f64_of_int b = Fin (of_int b)" "f64_of_int m = Fin (of_int m)"
    using b m by (simp_all add: f64_of_int_exact)
  have "CalculateBackoff r attempt hot = i64 (f64_to_i64 (f64_add (Fin (of_int d)) (Fin j)) * Millisecond)"
    unfolding CalculateBackoff_def hc_Get_id Let_def b_def [symmetric] m_def [symmetric] delay
      capped_delay [OF b m attempt] d_def [symmetric] j(1) ..
  also have "\<dots> = rat_trunc z * Millisecond" using z(1) fits by (simp add: i64_id)
  finally have res: "CalculateBackoff r attempt hot = rat_trunc z * Millisecond" .
  have exact: "r = 0 \<longrightarrow> rat_trunc z = d"
    using j(4) z(1) short_round [OF \<open>short (of_int d)\<close>] by auto
  show ?thesis
    unfolding Let_def b_def [symmetric] m_def [symmetric] d_def [symmetric] res
    using t exact by (simp add: Millisecond_def)
qed

theorem backoff_bounds_witness:
  "CalculateBackoff 0 3 example_hot = 8000 * Millisecond"
  using backoff_bounds [of example_hot 3 0] by (simp add: example_hot_def Let_def)

text \<open>The configured maximum is not a bound on the delay: with the default values the sixth
  retry can wait 30.25 seconds where the maximum is 30, because the jitter is added after the cap
  and is half the base delay, whatever the configured jitter maximum.\<close>

theorem backoff_exceeds_maximum:
  "CalculateBackoff (1 / 2) 5 example_hot = 30250 * Millisecond \<and>
   hc_RetryMaxDelayMS example_hot * Millisecond < 30250 * Millisecond"
proof -
  have rounds: "f64_round 500 = Fin 500" "f64_round 250 = Fin 250" "f64_round 30250 = Fin 30250"
    using short_round [OF short_of_int [of 500]] short_round [OF short_of_int [of 250]]
      short_round [OF short_of_int [of 30250]] by simp_all
  have ints: "f64_of_int 1000 = Fin 1000" "f64_of_int 30000 = Fin 30000"
    by (simp_all add: f64_of_int_exact)
  have delay: "(if f64_less (Fin 30000) (f64_mult (Fin 1000) (f64_pow2 5)) then Fin 30000
      else f64_mult (Fin 1000) (f64_pow2 5)) = Fin 30000"
    using capped_delay [of 1000 30000 5, unfolded of_int_numeral] by simp
  have jitter: "f64_mult (f64_mult (Fin (1 / 2)) (Fin 1000)) (Fin (1 / 2)) = Fin 250"
      and sum: "f64_add (Fin 30000) (Fin 250) = Fin 30250"
    by (simp_all add: rounds)
  have "CalculateBackoff (1 / 2) 5 example_hot = i64 (f64_to_i64 (Fin 30250) * Millisecond)"
    unfolding CalculateBackoff_def hc_Get_id Let_def example_hot_def hot_config.simps ints delay
      jitter sum ..
  also have "\<dots> = 30250 * Millisecond"
    using rat_trunc_of_int [of 30250] by (simp add: in_i64_def Millisecond_def i64_def)
  finally show ?thesis by (simp add: example_hot_def Millisecond_def)
qed

end
