(* ===== verification/Worker.thy ===== *)
theory Worker
  imports Key_Manager Key_Crypto Retry_Backoff Http_Client Priority_Queue
begin

text \<open>
  A worker (\<^verbatim>\<open>internal/worker/worker.go\<close>): \<open>processItem\<close> and the operations it is made of, as
  functions on the world a worker sees: the key manager, the database, the HTTP calls made and
  the timers started by \<open>delayedEnqueue\<close> so far. What comes from outside during one call is the
  record \<open>work_env\<close>: driver errors, clock readings, the HTTP client, the random number, and the
  library functions that the code calls. Here an item is processed from start to end; the theory \<open>Worker_Steps\<close> does the
  same access by access, beside other workers. A worker that dereferences a missing strategy panics:
  \<open>None\<close>. Log output is left out.
\<close>

section \<open>The world of a worker\<close>

record world =
  w_mgr :: manager
  w_db :: database
  w_calls :: "http_request list"
  w_timers :: "(item_ref \<times> string \<times> duration) list"

record work_env =
  we_load :: "string option"
  we_status_io :: "string option"
  we_result_io :: "string option"
  we_mark_io :: "string option \<times> string option"
  we_now :: time
  we_allow_clk :: "nat \<Rightarrow> time"
  we_rate_clk :: "nat \<Rightarrow> time"
  we_client :: "http_request \<Rightarrow> string + http_response"
  we_rand :: rat
  we_hot :: hot_config
  we_encKey :: string
  we_open :: "string \<Rightarrow> string \<Rightarrow> string \<Rightarrow> string option"
  we_crypto_text :: "crypto_error \<Rightarrow> string"
  we_unmarshal :: "string \<Rightarrow> (string \<times> string) list option"

section \<open>The pieces of processItem\<close>

definition delayedEnqueue :: "item_ref \<Rightarrow> string \<Rightarrow> duration \<Rightarrow> world \<Rightarrow> world" where
  "delayedEnqueue x requestID delay w = w\<lparr>w_timers := w_timers w @ [(x, requestID, delay)]\<rparr>"

definition requeueWithDelay :: "work_env \<Rightarrow> item_ref \<Rightarrow> request \<Rightarrow> world \<Rightarrow> world" where
  "requeueWithDelay e x req w =
     delayedEnqueue x (rq_ID req) (CalculateBackoff (we_rand e) 0 (we_hot e)) w"

definition persistResult ::
  "work_env \<Rightarrow> string \<Rightarrow> string \<Rightarrow> int \<Rightarrow> string \<Rightarrow> string \<Rightarrow> world \<Rightarrow> world" where
  "persistResult e requestID status responseStatus responseBody lastError w =
     w\<lparr>w_db := fst (UpdateRequestResult (we_result_io e) (we_now e) requestID status responseStatus
         responseBody lastError (we_now e) (w_db w))\<rparr>"

definition w_MarkSuccess :: "work_env \<Rightarrow> key_ref \<Rightarrow> world \<Rightarrow> world" where
  "w_MarkSuccess e k w =
     (let (m, d) = MarkSuccess (we_mark_io e) (we_now e) k (w_mgr w, w_db w)
      in w\<lparr>w_mgr := m, w_db := d\<rparr>)"

definition w_MarkFailed :: "work_env \<Rightarrow> key_ref \<Rightarrow> world \<Rightarrow> world" where
  "w_MarkFailed e k w =
     (let (m, d) = MarkFailed (we_mark_io e) (we_now e) k (w_mgr w, w_db w)
      in w\<lparr>w_mgr := m, w_db := d\<rparr>)"

definition handleSuccess :: "work_env \<Rightarrow> request \<Rightarrow> key_ref \<Rightarrow> http_response \<Rightarrow> world \<Rightarrow> world" where
  "handleSuccess e req k resp w =
     persistResult e (rq_ID req) RequestStatusSuccess (hp_StatusCode resp) (hp_Body resp) ''''
       (w_MarkSuccess e k w)"

definition handleFailure :: "work_env \<Rightarrow> item_ref \<Rightarrow> request \<Rightarrow> string \<Rightarrow> world \<Rightarrow> world" where
  "handleFailure e x req errMsg w =
     (let attempts = i64 (rq_Attempts req + 1)
      in if ShouldRetry attempts (we_hot e)
         then delayedEnqueue x (rq_ID req)
                (CalculateBackoff (we_rand e) (i64 (attempts - 1)) (we_hot e)) w
         else persistResult e (rq_ID req) RequestStatusFailed 0 '''' errMsg w)"

definition release_key :: "key_ref \<Rightarrow> world \<Rightarrow> world" where
  "release_key k w = w\<lparr>w_mgr := ReleaseKey k (w_mgr w)\<rparr>"

definition http_request_of :: "work_env \<Rightarrow> request \<Rightarrow> string \<Rightarrow> http_request" where
  "http_request_of e req decryptedKey =
     \<lparr>hr_Method = rq_Method req, hr_URL = rq_DestinationURL req,
      hr_Headers = (case rq_Headers req of None \<Rightarrow> [] | Some h \<Rightarrow> ParseJSONMap (we_unmarshal e) h),
      hr_Body = (case rq_Payload req of None \<Rightarrow> '''' | Some p \<Rightarrow> p),
      hr_APIKey = decryptedKey\<rparr>"

text \<open>Step 6 of the code: what the response, or the error, leads to.\<close>

definition handle_result ::
  "work_env \<Rightarrow> item_ref \<Rightarrow> request \<Rightarrow> key_ref \<Rightarrow> string + http_response \<Rightarrow> world \<Rightarrow> world" where
  "handle_result e x req k res w =
     (case res of
        Inl err \<Rightarrow> handleFailure e x req err (w_MarkFailed e k w)
      | Inr resp \<Rightarrow>
          if 200 \<le> hp_StatusCode resp \<and> hp_StatusCode resp < 300 then handleSuccess e req k resp w
          else if hp_StatusCode resp = 429 \<or> 500 \<le> hp_StatusCode resp
          then handleFailure e x req (hp_Body resp) (w_MarkFailed e k w)
          else persistResult e (rq_ID req) RequestStatusFailed (hp_StatusCode resp) (hp_Body resp) ''''
                 (w_MarkSuccess e k w))"

text \<open>Steps 3 to 6, with the key in hand.\<close>

definition use_key :: "work_env \<Rightarrow> item_ref \<Rightarrow> request \<Rightarrow> key_ref \<Rightarrow> world \<Rightarrow> world" where
  "use_key e x req k w =
     (let key = m_store (w_mgr w) k;
          w1 = w\<lparr>w_db := fst (UpdateRequestStatus (we_status_io e) (we_now e) (rq_ID req)
                   RequestStatusProcessing (pk_ID key) (i64 (rq_Attempts req + 1)) (w_db w))\<rparr>
      in case Decrypt (we_open e) (pk_KeyEncrypted key) (we_encKey e) of
           Inl err \<Rightarrow>
             handleFailure e x req (''decryption failed: '' @ we_crypto_text e err) (release_key k w1)
         | Inr decryptedKey \<Rightarrow>
             let httpReq = http_request_of e req decryptedKey;
                 res = we_client e httpReq
             in handle_result e x req k res
                  (release_key k (w1\<lparr>w_calls := w_calls w1 @ [httpReq]\<rparr>)))"

definition processItem :: "work_env \<Rightarrow> item_ref \<Rightarrow> item \<Rightarrow> world \<Rightarrow> world option" where
  "processItem e x it w =
     (case GetRequest (we_load e) (it_RequestID it) (w_db w) of
        Inl err \<Rightarrow> Some w
      | Inr req \<Rightarrow>
          if rq_Status req = RequestStatusSuccess \<or> rq_Status req = RequestStatusFailed then Some w
          else let (m, got) = GetKey (we_allow_clk e) (we_rate_clk e) (w_mgr w);
                   w1 = w\<lparr>w_mgr := m\<rparr>
               in case got of
                    NilStrategy \<Rightarrow> None
                  | NoKey \<Rightarrow> Some (requeueWithDelay e x req w1)
                  | GotKey k \<Rightarrow> Some (use_key e x req k w1))"

text \<open>
  The loop of \<open>Start\<close>: it processes what it receives until it receives from the cancelled
  context or from the closed channel (the end of the list).
\<close>

fun worker_loop :: "(work_env \<times> item_ref \<times> item) list \<Rightarrow> world \<Rightarrow> world option" where
  "worker_loop [] w = Some w"
| "worker_loop ((e, x, it) # es) w = Option.bind (processItem e x it w) (worker_loop es)"

section \<open>What the pieces leave alone\<close>

lemma worker_fields [simp]:
  "w_mgr (delayedEnqueue x i t w) = w_mgr w" "w_db (delayedEnqueue x i t w) = w_db w"
  "w_calls (delayedEnqueue x i t w) = w_calls w"
  "w_mgr (persistResult e i s c b r w) = w_mgr w" "w_calls (persistResult e i s c b r w) = w_calls w"
  "w_timers (persistResult e i s c b r w) = w_timers w"
  "w_db (release_key k w) = w_db w" "w_calls (release_key k w) = w_calls w"
  "w_timers (release_key k w) = w_timers w" "w_mgr (release_key k w) = ReleaseKey k (w_mgr w)"
  "w_calls (w_MarkSuccess e k w) = w_calls w" "w_calls (w_MarkFailed e k w) = w_calls w"
  "w_timers (w_MarkSuccess e k w) = w_timers w" "w_timers (w_MarkFailed e k w) = w_timers w"
  "w_mgr (w_MarkSuccess e k w) = fst (MarkSuccess (we_mark_io e) (we_now e) k (w_mgr w, w_db w))"
  "w_mgr (w_MarkFailed e k w) = fst (MarkFailed (we_mark_io e) (we_now e) k (w_mgr w, w_db w))"
  by (simp_all add: delayedEnqueue_def persistResult_def release_key_def w_MarkSuccess_def
      w_MarkFailed_def split_beta)

text \<open>Marking a key writes to the tables of keys and events only.\<close>

lemma mark_requests [simp]:
  "db_requests (snd (MarkSuccess io now k (m, d))) = db_requests d"
  "db_requests (snd (MarkFailed io now k (m, d))) = db_requests d"
  by (auto simp: MarkSuccess_def MarkFailed_def m_logKeyEvent_def key_write_defs CreateKeyEvent_def
      Let_def split: option.splits)

lemma w_mark_requests [simp]:
  "db_requests (w_db (w_MarkSuccess e k w)) = db_requests (w_db w)"
  "db_requests (w_db (w_MarkFailed e k w)) = db_requests (w_db w)"
  by (simp_all add: w_MarkSuccess_def w_MarkFailed_def split_beta)

lemma handleFailure_fields [simp]:
  "w_mgr (handleFailure e x req msg w) = w_mgr w" "w_calls (handleFailure e x req msg w) = w_calls w"
  by (simp_all add: handleFailure_def Let_def)

section \<open>Slots\<close>

text \<open>Every path of \<open>use_key\<close> runs the manager through a release of the key and at most one mark.\<close>

definition only_marks :: "key_ref \<Rightarrow> manager \<Rightarrow> manager \<Rightarrow> bool" where
  "only_marks k m m' \<longleftrightarrow> (\<forall>held. pool_step\<^sup>*\<^sup>* (m, held) (m', held))"

lemma only_marks_intros [simp]:
  "only_marks k m m"
  "only_marks k m (fst (MarkSuccess io now k (m, d)))"
  "only_marks k m (fst (MarkFailed io now k (m, d)))"
  by (simp_all add: only_marks_def r_into_rtranclp mark_success mark_failed)

lemma use_key_marks: "only_marks k (ReleaseKey k (w_mgr w)) (w_mgr (use_key e x req k w))"
  by (simp add: use_key_def Let_def handle_result_def handleSuccess_def split: sum.splits)

lemma use_key_manager:
  assumes "k \<in># held"
  shows "pool_step\<^sup>*\<^sup>* (w_mgr w, held) (w_mgr (use_key e x req k w), held - {#k#})"
proof -
  have "pool_step (w_mgr w, held) (ReleaseKey k (w_mgr w), held - {#k#})" using assms by (rule release)
  moreover have "pool_step\<^sup>*\<^sup>* (ReleaseKey k (w_mgr w), held - {#k#})
      (w_mgr (use_key e x req k w), held - {#k#})"
    using use_key_marks [of k w e x req] unfolding only_marks_def by blast
  ultimately show ?thesis by (rule converse_rtranclp_into_rtranclp)
qed

text \<open>The ways a call of \<open>processItem\<close> can go.\<close>

lemma processItem_cases:
  assumes "processItem e x it w = Some w'"
  obtains (unread) err where "GetRequest (we_load e) (it_RequestID it) (w_db w) = Inl err" and "w' = w"
  | (finished) req where "GetRequest (we_load e) (it_RequestID it) (w_db w) = Inr req" and "w' = w"
      and "rq_Status req = RequestStatusSuccess \<or> rq_Status req = RequestStatusFailed"
  | (no_key) req m where "GetRequest (we_load e) (it_RequestID it) (w_db w) = Inr req"
      and "rq_Status req \<noteq> RequestStatusSuccess" and "rq_Status req \<noteq> RequestStatusFailed"
      and "GetKey (we_allow_clk e) (we_rate_clk e) (w_mgr w) = (m, NoKey)"
      and "w' = requeueWithDelay e x req (w\<lparr>w_mgr := m\<rparr>)"
  | (key) req m k where "GetRequest (we_load e) (it_RequestID it) (w_db w) = Inr req"
      and "rq_Status req \<noteq> RequestStatusSuccess" and "rq_Status req \<noteq> RequestStatusFailed"
      and "GetKey (we_allow_clk e) (we_rate_clk e) (w_mgr w) = (m, GotKey k)"
      and "w' = use_key e x req k (w\<lparr>w_mgr := m\<rparr>)"
proof (cases "GetRequest (we_load e) (it_RequestID it) (w_db w)")
  case (Inl err)
  then have "w' = w" using assms by (simp add: processItem_def)
  with Inl show thesis by (rule unread)
next
  case (Inr req)
  show thesis
  proof (cases "rq_Status req = RequestStatusSuccess \<or> rq_Status req = RequestStatusFailed")
    case True
    then have "w' = w" using assms Inr by (auto simp: processItem_def)
    from Inr this True show thesis by (rule finished)
  next
    case False
    then have st: "rq_Status req \<noteq> RequestStatusSuccess" "rq_Status req \<noteq> RequestStatusFailed" by simp_all
    obtain m got where get: "GetKey (we_allow_clk e) (we_rate_clk e) (w_mgr w) = (m, got)" by fastforce
    have res: "(case got of NilStrategy \<Rightarrow> None | NoKey \<Rightarrow> Some (requeueWithDelay e x req (w\<lparr>w_mgr := m\<rparr>))
        | GotKey k \<Rightarrow> Some (use_key e x req k (w\<lparr>w_mgr := m\<rparr>))) = Some w'"
      using assms Inr st get by (simp add: processItem_def Let_def)
    show thesis
    proof (cases got)
      case (GotKey k)
      with res have "w' = use_key e x req k (w\<lparr>w_mgr := m\<rparr>)" by simp
      from Inr st get [unfolded GotKey] this show thesis by (rule key)
    next
      case NoKey
      with res have "w' = requeueWithDelay e x req (w\<lparr>w_mgr := m\<rparr>)" by simp
      from Inr st get [unfolded NoKey] this show thesis by (rule no_key)
    qed (use res in simp)
  qed
qed

lemma processItem_manager:
  assumes "processItem e x it w = Some w'"
  shows "pool_step\<^sup>*\<^sup>* (w_mgr w, held) (w_mgr w', held)"
  using assms
proof (cases rule: processItem_cases)
  case (no_key req m)
  then show ?thesis using get_nothing [of _ _ "w_mgr w" m held] by (simp add: requeueWithDelay_def r_into_rtranclp)
next
  case (key req m k)
  have "pool_step (w_mgr w, held) (m, add_mset k held)" using key(4) by (rule get_key)
  moreover have "pool_step\<^sup>*\<^sup>* (m, add_mset k held) (w_mgr w', held)"
    using use_key_manager [of k "add_mset k held" "w\<lparr>w_mgr := m\<rparr>" e x req] key(5) by simp
  ultimately show ?thesis by (rule converse_rtranclp_into_rtranclp)
qed simp_all

lemma processItem_total:
  assumes "pool_inv (w_mgr w, held)"
  obtains w' where "processItem e x it w = Some w'" and "pool_inv (w_mgr w', held)"
proof -
  have "m_ok (w_mgr w)" using assms by (simp add: pool_inv_def)
  then have "snd (GetKey (we_allow_clk e) (we_rate_clk e) (w_mgr w)) \<noteq> NilStrategy"
    using GetKey_ok [of "w_mgr w"] by (metis prod.collapse)
  then have "processItem e x it w \<noteq> None"
    by (auto simp: processItem_def Let_def split_beta split: sum.splits get_result.splits)
  then obtain w' where w': "processItem e x it w = Some w'" by blast
  have "pool_step\<^sup>*\<^sup>* (w_mgr w, held) (w_mgr w', held)" using w' by (rule processItem_manager)
  then have "pool_inv (w_mgr w', held)"
    using assms by (induction rule: rtranclp_induct) (auto intro: pool_step_inv)
  with w' that show thesis by blast
qed

section \<open>The row of a request\<close>

lemma request_row_cong: "db_requests d = db_requests d' \<Longrightarrow> request_row d i = request_row d' i"
  by (simp add: request_row_def)

lemma GetRequest_row: "GetRequest io i d = Inr req \<Longrightarrow> request_row d i = Some req \<and> rq_ID req = i"
  by (auto simp: GetRequest_def request_row_def find_Some_iff split: option.splits)

definition result_row :: "work_env \<Rightarrow> string \<Rightarrow> int \<Rightarrow> string \<Rightarrow> string \<Rightarrow> request \<Rightarrow> request" where
  "result_row e st c b err r = r\<lparr>rq_Status := st, rq_ResponseStatus := Some c, rq_ResponseBody := Some b,
     rq_LastError := Some err, rq_CompletedAt := Some (we_now e), rq_UpdatedAt := datetime (we_now e)\<rparr>"

definition started_row :: "work_env \<Rightarrow> string \<Rightarrow> request \<Rightarrow> request" where
  "started_row e k r = r\<lparr>rq_Status := RequestStatusProcessing, rq_AssignedKeyID := Some k,
     rq_Attempts := i64 (rq_Attempts r + 1), rq_UpdatedAt := datetime (we_now e)\<rparr>"

lemma persist_row:
  assumes "we_result_io e = None"
  shows "request_row (w_db (persistResult e i st c b err w)) j =
    (if i = j then map_option (result_row e st c b err) (request_row (w_db w) j)
     else request_row (w_db w) j)"
  using assms sqlite_requests.row_put_result [where s = "w_db w" and j = j]
  by (simp add: persistResult_def result_row_def [abs_def])

lemma request_row_marks [simp]:
  "request_row (w_db (w_MarkSuccess e k w)) i = request_row (w_db w) i"
  "request_row (w_db (w_MarkFailed e k w)) i = request_row (w_db w) i"
  by (rule request_row_cong, simp)+

lemma handleFailure_row:
  assumes "we_result_io e = None"
  shows "request_row (w_db (handleFailure e x req msg w)) j =
    (if rq_ID req = j \<and> \<not> ShouldRetry (i64 (rq_Attempts req + 1)) (we_hot e)
     then map_option (result_row e RequestStatusFailed 0 '''' msg) (request_row (w_db w) j)
     else request_row (w_db w) j)"
  by (auto simp: handleFailure_def Let_def persist_row [OF assms])

text \<open>The row after the attempt: the one \<open>use_key\<close> started, or that with a final result.\<close>

definition finish_row :: "work_env \<Rightarrow> request \<Rightarrow> string + http_response \<Rightarrow> request \<Rightarrow> request" where
  "finish_row e req res r =
     (case res of
        Inl err \<Rightarrow> if ShouldRetry (i64 (rq_Attempts req + 1)) (we_hot e) then r
                   else result_row e RequestStatusFailed 0 '''' err r
      | Inr resp \<Rightarrow>
          if 200 \<le> hp_StatusCode resp \<and> hp_StatusCode resp < 300
          then result_row e RequestStatusSuccess (hp_StatusCode resp) (hp_Body resp) '''' r
          else if hp_StatusCode resp = 429 \<or> 500 \<le> hp_StatusCode resp
          then (if ShouldRetry (i64 (rq_Attempts req + 1)) (we_hot e) then r
                else result_row e RequestStatusFailed 0 '''' (hp_Body resp) r)
          else result_row e RequestStatusFailed (hp_StatusCode resp) (hp_Body resp) '''' r)"

lemma handle_result_row:
  assumes "we_result_io e = None"
  shows "request_row (w_db (handle_result e x req k res w)) j =
    (if rq_ID req = j then map_option (finish_row e req res) (request_row (w_db w) j)
     else request_row (w_db w) j)"
  by (cases "request_row (w_db w) j")
    (auto simp: handle_result_def handleSuccess_def persist_row [OF assms] handleFailure_row [OF assms]
      finish_row_def split: sum.splits)

text \<open>What the key gave: the decryption's failure counts as an error of the attempt.\<close>

definition attempt_result :: "work_env \<Rightarrow> request \<Rightarrow> pool_key \<Rightarrow> string + http_response" where
  "attempt_result e req key =
     (case Decrypt (we_open e) (pk_KeyEncrypted key) (we_encKey e) of
        Inl err \<Rightarrow> Inl (''decryption failed: '' @ we_crypto_text e err)
      | Inr s \<Rightarrow> we_client e (http_request_of e req s))"

definition attempt_calls :: "work_env \<Rightarrow> request \<Rightarrow> pool_key \<Rightarrow> http_request list" where
  "attempt_calls e req key =
     (case Decrypt (we_open e) (pk_KeyEncrypted key) (we_encKey e) of
        Inl err \<Rightarrow> [] | Inr s \<Rightarrow> [http_request_of e req s])"

lemma status_row:
  assumes "we_status_io e = None"
  shows "request_row (fst (UpdateRequestStatus (we_status_io e) (we_now e) i RequestStatusProcessing k n d)) j =
    (if i = j then map_option (\<lambda>r. r\<lparr>rq_Status := RequestStatusProcessing, rq_AssignedKeyID := Some k,
       rq_Attempts := n, rq_UpdatedAt := datetime (we_now e)\<rparr>) (request_row d j) else request_row d j)"
  using assms sqlite_requests.row_put_status [where s = d and j = j] by simp

lemma use_key_row:
  fixes k :: key_ref
  assumes io: "we_status_io e = None" "we_result_io e = None"
    and req: "request_row (w_db w) (rq_ID req) = Some req"
  defines "key \<equiv> m_store (w_mgr w) k"
  shows "request_row (w_db (use_key e x req k w)) j =
    (if rq_ID req = j
     then Some (finish_row e req (attempt_result e req key) (started_row e (pk_ID key) req))
     else request_row (w_db w) j)"
    and "w_calls (use_key e x req k w) = w_calls w @ attempt_calls e req key"
proof -
  have calls: "w_calls (handle_result e x req k res v) = w_calls v" for res v
    by (simp add: handle_result_def handleSuccess_def split: sum.splits)
  show "w_calls (use_key e x req k w) = w_calls w @ attempt_calls e req key"
    by (simp add: use_key_def Let_def calls attempt_calls_def key_def split: sum.splits)
  show "request_row (w_db (use_key e x req k w)) j =
    (if rq_ID req = j
     then Some (finish_row e req (attempt_result e req key) (started_row e (pk_ID key) req))
     else request_row (w_db w) j)"
    using req
    by (auto simp: use_key_def Let_def handle_result_row [OF io(2)] handleFailure_row [OF io(2)]
        status_row [OF io(1)] attempt_result_def key_def started_row_def [symmetric]
        split: sum.splits)
      (simp_all add: finish_row_def started_row_def)
qed

section \<open>The number of calls for one request\<close>

definition terminal :: "request \<Rightarrow> bool" where
  "terminal r \<longleftrightarrow> rq_Status r = RequestStatusSuccess \<or> rq_Status r = RequestStatusFailed"

text \<open>The HTTP calls that a run makes while it processes items of request \<open>i\<close>.\<close>

fun calls_for :: "string \<Rightarrow> (work_env \<times> item_ref \<times> item) list \<Rightarrow> world \<Rightarrow> nat" where
  "calls_for i [] w = 0"
| "calls_for i ((e, x, it) # es) w =
     (case processItem e x it w of
        None \<Rightarrow> 0
      | Some w' \<Rightarrow> (if it_RequestID it = i then length (w_calls w') - length (w_calls w) else 0) +
                   calls_for i es w')"

text \<open>The attempts that a row still allows when the maximum never exceeds \<open>M\<close>.\<close>

definition budget :: "int \<Rightarrow> request \<Rightarrow> nat" where
  "budget M r = (if terminal r then 0 else nat (M - rq_Attempts r))"

definition row_ok :: "int \<Rightarrow> request \<Rightarrow> bool" where
  "row_ok M r \<longleftrightarrow> 0 \<le> rq_Attempts r \<and> (terminal r \<or> rq_Attempts r < M)"

definition env_ok :: "int \<Rightarrow> work_env \<Rightarrow> bool" where
  "env_ok M e \<longleftrightarrow> we_status_io e = None \<and> we_result_io e = None \<and> hc_RetryMaxAttempts (we_hot e) \<le> M"

lemma finish_row_cases:
  "finish_row e req res r = r \<and> ShouldRetry (i64 (rq_Attempts req + 1)) (we_hot e) \<or>
   terminal (finish_row e req res r) \<and> rq_Attempts (finish_row e req res r) = rq_Attempts r"
  by (auto simp: finish_row_def terminal_def result_row_def split: sum.splits)

lemma terminal_started: "\<not> terminal (started_row e k r)"
  by (simp add: terminal_def started_row_def request_status_defs)

lemma attempt_budget:
  fixes k :: string and res :: "string + http_response"
  assumes "\<not> terminal r" and "row_ok M r" and "M < 2 ^ 63" and "hc_RetryMaxAttempts (we_hot e) \<le> M"
  defines "r' \<equiv> finish_row e r res (started_row e k r)"
  shows "row_ok M r' \<and> 1 + budget M r' \<le> budget M r"
proof -
  have a: "0 \<le> rq_Attempts r" "rq_Attempts r < M" using assms(1,2) by (auto simp: row_ok_def)
  then have n: "i64 (rq_Attempts r + 1) = rq_Attempts r + 1" using assms(3) by (intro i64_idI) auto
  then have s: "rq_Attempts (started_row e k r) = rq_Attempts r + 1" by (simp add: started_row_def)
  have step: "nat (M - rq_Attempts r) = Suc (nat (M - (rq_Attempts r + 1)))" using a by arith
  from finish_row_cases [of e r res "started_row e k r"] show ?thesis
  proof
    assume "finish_row e r res (started_row e k r) = started_row e k r \<and>
      ShouldRetry (i64 (rq_Attempts r + 1)) (we_hot e)"
    with a n s assms(4) terminal_started [of e k r] assms(1) show ?thesis
      by (simp add: r'_def row_ok_def budget_def ShouldRetry_def step)
  next
    assume "terminal (finish_row e r res (started_row e k r)) \<and>
      rq_Attempts (finish_row e r res (started_row e k r)) = rq_Attempts (started_row e k r)"
    with a s assms(1) show ?thesis by (simp add: r'_def row_ok_def budget_def)
  qed
qed

lemma attempt_calls_length: "length (attempt_calls e req key) \<le> 1"
  by (simp add: attempt_calls_def split: sum.splits)

lemma processItem_budget:
  assumes M: "M < 2 ^ 63" and e: "env_ok M e" and row: "request_row (w_db w) i = Some r" "row_ok M r"
    and run: "processItem e x it w = Some w'"
  obtains r' where "request_row (w_db w') i = Some r'" and "row_ok M r'"
    and "(if it_RequestID it = i then length (w_calls w') - length (w_calls w) else 0) + budget M r' \<le>
      budget M r"
  using run
proof (cases rule: processItem_cases)
  case (no_key req m)
  with row that [of r] show thesis by (simp add: requeueWithDelay_def)
next
  case (key req m k)
  have io: "we_status_io e = None" "we_result_io e = None" using e by (simp_all add: env_ok_def)
  have req: "request_row (w_db w) (it_RequestID it) = Some req" "rq_ID req = it_RequestID it"
    using GetRequest_row [OF key(1)] by simp_all
  let ?w = "w\<lparr>w_mgr := m\<rparr>" and ?key = "m_store m k"
  let ?r = "finish_row e req (attempt_result e req ?key) (started_row e (pk_ID ?key) req)"
  have new: "request_row (w_db w') i = (if rq_ID req = i then Some ?r else request_row (w_db w) i)"
      "w_calls w' = w_calls w @ attempt_calls e req ?key"
    using use_key_row(1) [OF io, where w = ?w and req = req and x = x and k = k and j = i]
      use_key_row(2) [OF io, where w = ?w and req = req and x = x and k = k] req key(5) by simp_all
  show thesis
  proof (cases "it_RequestID it = i")
    case True
    with req row have "r = req" by simp
    then have "row_ok M ?r \<and> 1 + budget M ?r \<le> budget M r"
      using attempt_budget [where r = req and M = M and e = e and k = "pk_ID ?key" and
          res = "attempt_result e req ?key"] row(2) M e key(2,3)
      by (simp add: env_ok_def terminal_def)
    with True req new that [of ?r] attempt_calls_length [of e req ?key] show thesis by simp
  next
    case False
    with req new row that [of r] show thesis by simp
  qed
qed (use row that in auto)

lemma calls_for_budget:
  assumes "M < 2 ^ 63" and "\<forall>(e, x, it) \<in> set es. env_ok M e"
    and "request_row (w_db w) i = Some r" and "row_ok M r"
  shows "calls_for i es w \<le> budget M r"
  using assms(2-4)
proof (induction es arbitrary: w r)
  case (Cons ev es)
  obtain e x it where ev: "ev = (e, x, it)" by (cases ev) auto
  show ?case
  proof (cases "processItem e x it w")
    case (Some w')
    have "env_ok M e" using Cons.prems(1) ev by simp
    from processItem_budget [OF assms(1) this Cons.prems(2,3) Some] obtain r' where
      r': "request_row (w_db w') i = Some r'" "row_ok M r'"
        "(if it_RequestID it = i then length (w_calls w') - length (w_calls w) else 0) + budget M r' \<le>
          budget M r" by blast
    have "calls_for i es w' \<le> budget M r'" using Cons.IH Cons.prems(1) r'(1,2) by simp
    with r'(3) Some ev show ?thesis by simp
  qed (simp add: ev)
qed simp

section \<open>Other rows\<close>

lemma persist_other: "i \<noteq> j \<Longrightarrow> request_row (w_db (persistResult e i st c b err w)) j = request_row (w_db w) j"
  by (cases "we_result_io e")
    (simp_all add: persist_row, simp add: persistResult_def UpdateRequestResult_def)

lemma handleFailure_other:
  "rq_ID req \<noteq> j \<Longrightarrow> request_row (w_db (handleFailure e x req msg w)) j = request_row (w_db w) j"
  by (simp add: handleFailure_def Let_def persist_other)

lemma use_key_other:
  assumes "rq_ID req \<noteq> j"
  shows "request_row (w_db (use_key e x req k w)) j = request_row (w_db w) j"
proof -
  have "request_row (fst (UpdateRequestStatus (we_status_io e) (we_now e) (rq_ID req) st key n d)) j =
      request_row d j" for st key n d
    using assms by (cases "we_status_io e")
      (simp_all add: status_row sqlite_requests.row_put_status, simp add: UpdateRequestStatus_def)
  with assms show ?thesis
    by (simp add: use_key_def Let_def handle_result_def handleSuccess_def handleFailure_other
        persist_other split: sum.splits)
qed

lemma processItem_finished:
  assumes "processItem e x it w = Some w'" and "request_row (w_db w) i = Some r" and "terminal r"
  shows "request_row (w_db w') i = Some r \<and> (it_RequestID it = i \<longrightarrow> w' = w)"
  using assms(1)
proof (cases rule: processItem_cases)
  case (no_key req m)
  with GetRequest_row [OF no_key(1)] assms(2,3) show ?thesis
    by (auto simp: requeueWithDelay_def terminal_def)
next
  case (key req m k)
  then have "rq_ID req \<noteq> i" using GetRequest_row [OF key(1)] assms(2,3) by (auto simp: terminal_def)
  with key GetRequest_row [OF key(1)] use_key_other [of req i e x k "w\<lparr>w_mgr := m\<rparr>"] assms(2)
  show ?thesis by simp
qed (use assms(2) in simp_all)

section \<open>Properties\<close>

definition toy_key :: string where
  "toy_key = EncodeToString (replicate 12 CHR ''n'' @ ''sk'' @ replicate 12 CHR ''n'')"

definition example_env_for :: "int \<Rightarrow> work_env" where
  "example_env_for code =
     \<lparr>we_load = None, we_status_io = None, we_result_io = None, we_mark_io = (None, None),
      we_now = 7 * Second, we_allow_clk = (\<lambda>_. 100), we_rate_clk = (\<lambda>_. 100),
      we_client = (\<lambda>req. Inr \<lparr>hp_StatusCode = code, hp_Body = hr_APIKey req\<rparr>), we_rand = 0,
      we_hot = example_hot, we_encKey = replicate 64 CHR ''0'', we_open = toy_open,
      we_crypto_text = (\<lambda>_. ''''), we_unmarshal = (\<lambda>_. None)\<rparr>"

definition example_world :: world where
  "example_world =
     \<lparr>w_mgr = modify_key 1 (\<lambda>x. x\<lparr>pk_KeyEncrypted := toy_key\<rparr>) example_manager2, w_db = example_db,
      w_calls = [], w_timers = []\<rparr>"

definition example_item :: item where
  "example_item = \<lparr>it_RequestID = ''a'', it_Priority = 3, it_CreatedAt = 0, it_index = 0\<rparr>"

lemma example_world_ok: "m_ok (w_mgr example_world)"
  using example_manager2_ok unfolding example_world_def modify_key_def
  by (simp, intro m_ok_store) (auto simp: m_ok_def pk_ok_def)

text \<open>A worker never panics on a well-formed pool, and whatever it processes and however each
  item ends (unreadable, finished already, no key, undecryptable key, transport error, any
  status code), it gives back every slot it takes: each key is held exactly as often as before.\<close>

theorem worker_returns_every_slot:
  assumes "pool_inv (w_mgr w, held)"
  shows "\<exists>w'. worker_loop es w = Some w' \<and> m_ok (w_mgr w') \<and>
    (\<forall>r. r \<in> set (m_keys (w_mgr w')) \<or> r \<in># held \<longrightarrow>
       pk_currentConcurrent (m_store (w_mgr w') r) = int (count held r))"
proof -
  have "\<exists>w'. worker_loop es w = Some w' \<and> pool_inv (w_mgr w', held)"
    using assms
  proof (induction es arbitrary: w)
    case (Cons ev es)
    obtain e x it where ev: "ev = (e, x, it)" by (cases ev) auto
    obtain w1 where "processItem e x it w = Some w1" "pool_inv (w_mgr w1, held)"
      by (rule processItem_total [OF Cons.prems])
    with Cons.IH [of w1] ev show ?case by simp
  qed simp
  then show ?thesis by (auto simp: pool_inv_iff)
qed

theorem worker_returns_every_slot_witness:
  "\<exists>w'. worker_loop [(example_env_for 200, 0, example_item), (example_env_for 500, 0, example_item)]
     (example_world\<lparr>w_mgr := example_manager\<rparr>) = Some w' \<and> m_ok (w_mgr w')"
  using worker_returns_every_slot [of "example_world\<lparr>w_mgr := example_manager\<rparr>" "{#}"
      "[(example_env_for 200, 0, example_item), (example_env_for 500, 0, example_item)]"]
    example_manager_inv by auto

text \<open>C13: retries are bounded: as long as the database takes the writes of the worker, all items of
  one request together, however often it is queued and whatever is processed in between, cause
  at most as many HTTP calls as the largest configured number of attempts leaves it.\<close>

theorem attempts_are_bounded:
  assumes "M < 2 ^ 63" and "\<forall>(e, x, it) \<in> set es. env_ok M e"
    and "request_row (w_db w) i = Some r" and "0 \<le> rq_Attempts r" and "rq_Attempts r < M"
  shows "calls_for i es w \<le> nat (M - rq_Attempts r)"
proof -
  have "calls_for i es w \<le> budget M r"
    using assms by (intro calls_for_budget) (simp_all add: row_ok_def)
  also have "\<dots> \<le> nat (M - rq_Attempts r)" by (simp add: budget_def)
  finally show ?thesis .
qed

theorem attempts_are_bounded_witness:
  "calls_for ''a'' (replicate 9 (example_env_for 500, 0, example_item)) example_world \<le> 4"
proof -
  have "\<not> Option.is_none (request_row example_db ''a'')"
      "rq_Attempts (the (request_row example_db ''a'')) = 0" by code_simp+
  then obtain r where "request_row (w_db example_world) ''a'' = Some r" "rq_Attempts r = 0"
    by (auto simp: Option.is_none_def example_world_def)
  moreover have "\<forall>(e, x, it) \<in> set (replicate 9 (example_env_for 500, 0 :: item_ref, example_item)).
      env_ok 4 e" by (auto simp: env_ok_def example_env_for_def example_hot_def)
  ultimately show ?thesis using attempts_are_bounded [of 4 _ example_world "''a''" r] by simp
qed

text \<open>A finished request is never executed again, even if an item for it is still queued or the
  database fails in between: it causes no HTTP call, its items leave the whole world as it is,
  and its row keeps its result.\<close>

theorem finished_requests_are_not_reexecuted:
  assumes "request_row (w_db w) i = Some r" and "terminal r"
  shows "calls_for i es w = 0 \<and> (\<forall>w'. worker_loop es w = Some w' \<longrightarrow> request_row (w_db w') i = Some r)"
  using assms(1)
proof (induction es arbitrary: w)
  case (Cons ev es)
  obtain e x it where ev: "ev = (e, x, it)" by (cases ev) auto
  show ?case
  proof (cases "processItem e x it w")
    case (Some w1)
    from processItem_finished [OF Some Cons.prems assms(2)] Cons.IH [of w1] Some ev
    show ?thesis by auto
  qed (simp add: ev)
qed simp

theorem finished_requests_are_not_reexecuted_witness:
  "calls_for ''a'' [(example_env_for 200, 0, example_item)]
     (example_world\<lparr>w_db := fst (UpdateRequestResult None 9 ''a'' RequestStatusFailed 400 '''' '''' 9
        example_db)\<rparr>) = 0"
proof -
  let ?w = "example_world\<lparr>w_db := fst (UpdateRequestResult None 9 ''a'' RequestStatusFailed 400 '''' '''' 9
        example_db)\<rparr>"
  have "\<not> Option.is_none (request_row (w_db ?w) ''a'')" "terminal (the (request_row (w_db ?w) ''a''))"
    by code_simp+
  then obtain r where "request_row (w_db ?w) ''a'' = Some r" "terminal r"
    by (auto simp: Option.is_none_def)
  then show ?thesis using finished_requests_are_not_reexecuted by blast
qed

section \<open>The outcome of an attempt\<close>

definition retryable :: "string + http_response \<Rightarrow> bool" where
  "retryable res \<longleftrightarrow>
     (case res of Inl err \<Rightarrow> True | Inr resp \<Rightarrow> hp_StatusCode resp = 429 \<or> 500 \<le> hp_StatusCode resp)"

definition failure_text :: "string + http_response \<Rightarrow> string" where
  "failure_text res = (case res of Inl err \<Rightarrow> err | Inr resp \<Rightarrow> hp_Body resp)"

definition retry_timer :: "work_env \<Rightarrow> item_ref \<Rightarrow> request \<Rightarrow> item_ref \<times> string \<times> duration" where
  "retry_timer e x r = (x, rq_ID r, CalculateBackoff (we_rand e) (i64 (i64 (rq_Attempts r + 1) - 1)) (we_hot e))"

lemma use_key_timers:
  fixes e :: work_env and req :: request and w :: world and k :: key_ref
  defines "res \<equiv> attempt_result e req (m_store (w_mgr w) k)"
  shows "w_timers (use_key e x req k w) =
    w_timers w @ (if retryable res \<and> ShouldRetry (i64 (rq_Attempts req + 1)) (we_hot e)
                  then [retry_timer e x req] else [])"
proof -
  have fail: "w_timers (handleFailure e x req msg v) =
      w_timers v @ (if ShouldRetry (i64 (rq_Attempts req + 1)) (we_hot e) then [retry_timer e x req] else [])" for msg v
    by (simp add: handleFailure_def Let_def retry_timer_def delayedEnqueue_def)
  have result: "w_timers (handle_result e x req k res v) = w_timers v @
      (if retryable res \<and> ShouldRetry (i64 (rq_Attempts req + 1)) (we_hot e) then [retry_timer e x req] else [])" for res v
    by (auto simp: handle_result_def handleSuccess_def fail retryable_def split: sum.splits)
  show ?thesis
    by (auto simp: res_def use_key_def Let_def attempt_result_def fail result retryable_def split: sum.splits)
qed

text \<open>C14: What an attempt leads to. When a worker gets a key for an unfinished request and the
  database takes its writes, the request's row counts one more attempt and names the key, and its
  status follows the answer: a 2xx status makes it a success with that status and body; another
  status below 500 except 429 a failure with that status and body, without a retry; 429, 5xx and
  transport or decryption errors leave it in processing with a timer for the next attempt while
  attempts remain, and otherwise make it a failure with the error. Exactly one timer is started in
  the retry case and none otherwise, and no other request's row changes.\<close>

theorem attempt_outcome:
  assumes "processItem e x it w = Some w'" and "we_status_io e = None" and "we_result_io e = None"
    and "GetRequest (we_load e) (it_RequestID it) (w_db w) = Inr r" and "\<not> terminal r"
    and "GetKey (we_allow_clk e) (we_rate_clk e) (w_mgr w) = (m, GotKey k)"
    and "res = attempt_result e r (m_store m k)"
    and "again \<longleftrightarrow> i64 (rq_Attempts r + 1) < hc_RetryMaxAttempts (we_hot e)"
  shows "\<exists>row. request_row (w_db w') (rq_ID r) = Some row \<and>
    rq_Attempts row = i64 (rq_Attempts r + 1) \<and> rq_AssignedKeyID row = Some (pk_ID (m_store m k)) \<and>
    (\<forall>resp. res = Inr resp \<and> 200 \<le> hp_StatusCode resp \<and> hp_StatusCode resp < 300 \<longrightarrow>
       rq_Status row = RequestStatusSuccess \<and> rq_ResponseStatus row = Some (hp_StatusCode resp) \<and>
       rq_ResponseBody row = Some (hp_Body resp) \<and> w_timers w' = w_timers w) \<and>
    (\<forall>resp. res = Inr resp \<and> hp_StatusCode resp < 500 \<and> hp_StatusCode resp \<noteq> 429 \<and>
         \<not> (200 \<le> hp_StatusCode resp \<and> hp_StatusCode resp < 300) \<longrightarrow>
       rq_Status row = RequestStatusFailed \<and> rq_ResponseStatus row = Some (hp_StatusCode resp) \<and>
       rq_ResponseBody row = Some (hp_Body resp) \<and> w_timers w' = w_timers w) \<and>
    (retryable res \<longrightarrow>
       (if again then rq_Status row = RequestStatusProcessing \<and> w_timers w' = w_timers w @ [retry_timer e x r]
        else rq_Status row = RequestStatusFailed \<and> rq_LastError row = Some (failure_text res) \<and>
          w_timers w' = w_timers w)) \<and>
    (\<forall>j. j \<noteq> rq_ID r \<longrightarrow> request_row (w_db w') j = request_row (w_db w) j)"
proof -
  let ?w = "w\<lparr>w_mgr := m\<rparr>" and ?row = "finish_row e r res (started_row e (pk_ID (m_store m k)) r)"
  have w': "w' = use_key e x r k ?w"
    using assms(1,4,5,6) by (simp add: processItem_def terminal_def)
  have id: "request_row (w_db ?w) (rq_ID r) = Some r" using GetRequest_row [OF assms(4)] by simp
  have row: "request_row (w_db w') j = (if rq_ID r = j then Some ?row else request_row (w_db w) j)" for j
    using use_key_row(1) [where w = ?w and k = k, OF assms(2,3) id] by (simp add: w' assms(7))
  have timers: "w_timers w' = w_timers w @ (if retryable res \<and> again then [retry_timer e x r] else [])"
    by (simp add: w' use_key_timers assms(7,8) ShouldRetry_def)
  have again: "ShouldRetry (i64 (rq_Attempts r + 1)) (we_hot e) \<longleftrightarrow> again" by (simp add: assms(8) ShouldRetry_def)
  have "rq_Attempts ?row = i64 (rq_Attempts r + 1)" "rq_AssignedKeyID ?row = Some (pk_ID (m_store m k))"
    by (auto simp: finish_row_def result_row_def started_row_def split: sum.splits)
  moreover have "200 \<le> hp_StatusCode resp \<and> hp_StatusCode resp < 300 \<Longrightarrow> \<not> retryable (Inr resp)" for resp
    by (auto simp: retryable_def)
  ultimately show ?thesis
    using row timers
    by (intro exI [of _ ?row])
      (auto simp: finish_row_def result_row_def started_row_def again retryable_def failure_text_def
        split: sum.splits)
qed

theorem attempt_outcome_witness:
  "\<exists>row w'. processItem (example_env_for 404) 0 example_item example_world = Some w' \<and>
     request_row (w_db w') ''a'' = Some row \<and> rq_Status row = RequestStatusFailed \<and>
     rq_ResponseStatus row = Some 404 \<and> w_timers w' = []"
proof -
  let ?e = "example_env_for 404"
  have "isl (GetRequest None ''a'' example_db) = False" by code_simp
  then obtain r where r: "GetRequest (we_load ?e) (it_RequestID example_item) (w_db example_world) = Inr r"
    by (cases "GetRequest None ''a'' example_db") (auto simp: example_env_for_def example_item_def example_world_def)
  have "terminal (projr (GetRequest (we_load ?e) (it_RequestID example_item) (w_db example_world))) = False"
      "rq_ID (projr (GetRequest (we_load ?e) (it_RequestID example_item) (w_db example_world))) = ''a''" by code_simp+
  then have fresh: "\<not> terminal r" and id: "rq_ID r = ''a''" by (simp_all add: r)
  let ?g = "GetKey (we_allow_clk ?e) (we_rate_clk ?e) (w_mgr example_world)"
  have "snd ?g = GotKey 1" by code_simp
  then have g: "?g = (fst ?g, GotKey 1)" by (metis prod.collapse)
  have "isl (Decrypt (we_open ?e) (pk_KeyEncrypted (m_store (fst ?g) 1)) (we_encKey ?e)) = False" by code_simp
  then obtain s where "Decrypt (we_open ?e) (pk_KeyEncrypted (m_store (fst ?g) 1)) (we_encKey ?e) = Inr s"
    by (cases "Decrypt (we_open ?e) (pk_KeyEncrypted (m_store (fst ?g) 1)) (we_encKey ?e)") auto
  then obtain resp where res: "attempt_result ?e r (m_store (fst ?g) 1) = Inr resp" "hp_StatusCode resp = 404"
    by (simp add: attempt_result_def) (simp add: example_env_for_def)
  have "Option.is_none (processItem ?e 0 example_item example_world) = False" by code_simp
  then obtain w' where w': "processItem ?e 0 example_item example_world = Some w'"
    by (auto simp: Option.is_none_def)
  have io: "we_status_io ?e = None" "we_result_io ?e = None" by (simp_all add: example_env_for_def)
  have tm: "w_timers example_world = []" by (simp add: example_world_def)
  from attempt_outcome [OF w' io r fresh g refl refl] res id w' tm show ?thesis by auto
qed

end
