(* ===== verification/Request_Lifecycle.thy ===== *)
theory Request_Lifecycle
  imports Api_Requests Worker
begin

text \<open>
  The way of a request through the components: from its submission over HTTP, through the
  database and the queue, to the call a worker makes for it and the answer that its submitter
  reads. The handlers and the worker share the database and the key manager; the worker gets the
  item that the handler queued.
\<close>

section \<open>Reading the status\<close>

definition plain_id :: "string \<Rightarrow> bool" where
  "plain_id i \<longleftrightarrow> i \<noteq> '''' \<and> CHR ''/'' \<notin> set i"

definition status_call :: "string \<Rightarrow> api_request" where
  "status_call i = \<lparr>ar_Method = ''GET'', ar_EscapedPath = ''/api/requests/'' @ i, ar_Path = ''/api/requests/'' @ i,
     ar_Authorization = '''', ar_Body = ''''\<rparr>"

lemma extractPathParam_plain:
  assumes "plain_id i"
  shows "extractPathParam (prefix @ i) prefix = i"
proof -
  have "takeWhile (\<lambda>c. c \<noteq> CHR ''/'') i = i" using assms by (auto simp: plain_id_def)
  then show ?thesis by (simp add: extractPathParam_def split2_def)
qed

lemma GetRequestStatus_row:
  assumes "plain_id i" and "ae_io e 0 = None"
  shows "GetRequestStatus e (status_call i) sv =
    (sv, case request_row (sv_db sv) i of
           Some row \<Rightarrow> Reply 200 (requestToResponse e row)
         | None \<Rightarrow> writeError 500 ''database error'')"
proof -
  have "extractPathParam (''/api/requests/'' @ i) ''/api/requests/'' = i"
    by (rule extractPathParam_plain [OF assms(1)])
  with assms show ?thesis
    by (auto simp: GetRequestStatus_def status_call_def GetRequest_def request_row_def plain_id_def Let_def
        split: option.splits)
qed

section \<open>From submission to result\<close>

lemma submitted_request:
  assumes "q_inv (sv_queue sv)" and "ae_ref e \<notin> contents (sv_queue sv)"
    and "SubmitRequest e r sv = (sv', Reply 202 body)"
    and "decodeJSON e (decode_struct submit_fields empty_submit) (ar_Body r) = Inr b0"
  obtains b where "check_submit b0 = Inr b"
    and "request_row (sv_db sv') (ae_uuid e) = Some (stored_request (ae_now e) (new_request e b))"
    and "it_RequestID (pq_heap (q_pq (sv_queue sv')) (ae_ref e)) = ae_uuid e"
    and "sv_mgr sv' = sv_mgr sv"
  using assms(3)
proof (cases rule: SubmitRequest_cases)
  case refused
  then show thesis by (simp add: refusal_def)
next
  case (saved b0' b)
  have b: "check_submit b0 = Inr b" using saved(1,2) assms(4) by simp
  have id: "rq_ID (new_request e b) = ae_uuid e" by (simp add: new_request_def)
  show thesis
  proof (cases rule: save_and_enqueue_cases [OF assms(1,2) saved(4)])
    case (3 d)
    with that [OF b] CreateRequest_row(1) [OF 3(1)] id show thesis by (simp add: queued_def)
  qed (simp_all add: writeError_def)
qed

text \<open>The call that a submission asks for.\<close>

definition asked_call :: "api_env \<Rightarrow> work_env \<Rightarrow> submit_body \<Rightarrow> string \<Rightarrow> http_request" where
  "asked_call e we b secret =
     \<lparr>hr_Method = ToUpper e (sb_Method b), hr_URL = sb_URL b,
      hr_Headers = (if sb_Headers b = [] then []
                    else ParseJSONMap (we_unmarshal we) (ae_marshal e (sb_Headers b))),
      hr_Body = sb_Payload b, hr_APIKey = secret\<rparr>"

text \<open>The first attempt for a stored request, with a key that decrypts.\<close>

lemma first_attempt:
  assumes "request_row (w_db w) (rq_ID req) = Some req" and "it_RequestID it = rq_ID req"
    and "rq_Status req = RequestStatusPending" and "rq_Attempts req = 0"
    and "we_load we = None" and io: "we_status_io we = None" "we_result_io we = None"
    and "GetKey (we_allow_clk we) (we_rate_clk we) (w_mgr w) = (m, GotKey k)"
    and sec: "Decrypt (we_open we) (pk_KeyEncrypted (m_store m k)) (we_encKey we) = Inr secret"
  obtains w' where "processItem we x it w = Some w'"
    and "w_calls w' = w_calls w @ [http_request_of we req secret]"
    and "\<And>resp. we_client we (http_request_of we req secret) = Inr resp \<Longrightarrow>
      200 \<le> hp_StatusCode resp \<Longrightarrow> hp_StatusCode resp < 300 \<Longrightarrow>
      \<exists>row. request_row (w_db w') (rq_ID req) = Some row \<and> rq_ID row = rq_ID req \<and>
        rq_Status row = RequestStatusSuccess \<and> rq_Attempts row = 1 \<and>
        rq_ResponseStatus row = Some (hp_StatusCode resp) \<and> rq_ResponseBody row = Some (hp_Body resp)"
proof -
  let ?w = "w\<lparr>w_mgr := m\<rparr>"
  let ?w' = "use_key we x req k ?w"
  have load: "GetRequest (we_load we) (it_RequestID it) (w_db w) = Inr req"
    using assms(1) by (simp add: GetRequest_def assms(2,5) request_row_def)
  have proc: "processItem we x it w = Some ?w'"
    using load assms(3,8) by (simp add: processItem_def request_status_defs)
  have "request_row (w_db ?w) (rq_ID req) = Some req" by (simp add: assms(1))
  note row = use_key_row [where w = ?w and k = k and e = we and x = x, OF io this]
  have calls: "w_calls ?w' = w_calls w @ [http_request_of we req secret]"
    using row(2) by (simp add: attempt_calls_def sec)
  have "\<exists>row. request_row (w_db ?w') (rq_ID req) = Some row \<and> rq_ID row = rq_ID req \<and>
        rq_Status row = RequestStatusSuccess \<and> rq_Attempts row = 1 \<and>
        rq_ResponseStatus row = Some (hp_StatusCode resp) \<and> rq_ResponseBody row = Some (hp_Body resp)"
    if "we_client we (http_request_of we req secret) = Inr resp" "200 \<le> hp_StatusCode resp"
      "hp_StatusCode resp < 300" for resp
  proof -
    have "i64 1 = 1" by (rule i64_idI) simp_all
    then show ?thesis
      using row(1) [of "rq_ID req"] that assms(4)
      by (simp add: attempt_result_def sec finish_row_def result_row_def started_row_def)
  qed
  with that proc calls show thesis by blast
qed

text \<open>C6: A submitted request is executed as it was asked for. When a submission is accepted and a
  worker takes its item and gets a key that decrypts, the worker makes exactly one call: to the
  submitted URL, with the method in capitals, the payload, the headers as the database keeps them
  and the key's secret. When the answer has a 2xx status, the submitter who then asks for the
  request gets it as a success after one attempt, with the status and the body of the answer.\<close>

theorem submitted_request_is_executed:
  assumes "q_inv (sv_queue sv)" and "ae_ref e \<notin> contents (sv_queue sv)"
    and "decodeJSON e (decode_struct submit_fields empty_submit) (ar_Body r) = Inr b0"
    and "SubmitRequest e r sv = (sv', Reply 202 body)"
    and "w_db w = sv_db sv'" and "w_mgr w = sv_mgr sv'"
    and "we_load we = None" and "we_status_io we = None" and "we_result_io we = None"
    and "GetKey (we_allow_clk we) (we_rate_clk we) (w_mgr w) = (m, GotKey k)"
    and "Decrypt (we_open we) (pk_KeyEncrypted (m_store m k)) (we_encKey we) = Inr secret"
    and "plain_id (ae_uuid e)" and "ae_io e2 0 = None"
  shows "\<exists>b w'. check_submit b0 = Inr b \<and>
    processItem we (ae_ref e) (pq_heap (q_pq (sv_queue sv')) (ae_ref e)) w = Some w' \<and>
    w_calls w' = w_calls w @ [asked_call e we b secret] \<and>
    (\<forall>resp. we_client we (asked_call e we b secret) = Inr resp \<and>
        200 \<le> hp_StatusCode resp \<and> hp_StatusCode resp < 300 \<longrightarrow>
      (\<exists>row. GetRequestStatus e2 (status_call (ae_uuid e)) (sv'\<lparr>sv_db := w_db w'\<rparr>) =
          (sv'\<lparr>sv_db := w_db w'\<rparr>, Reply 200 (requestToResponse e2 row)) \<and>
        rq_ID row = ae_uuid e \<and> rq_Status row = RequestStatusSuccess \<and> rq_Attempts row = 1 \<and>
        rq_ResponseStatus row = Some (hp_StatusCode resp) \<and> rq_ResponseBody row = Some (hp_Body resp)))"
proof -
  obtain b where b: "check_submit b0 = Inr b"
      and stored: "request_row (sv_db sv') (ae_uuid e) = Some (stored_request (ae_now e) (new_request e b))"
      and item: "it_RequestID (pq_heap (q_pq (sv_queue sv')) (ae_ref e)) = ae_uuid e"
    by (rule submitted_request [OF assms(1,2,4,3)])
  let ?req = "stored_request (ae_now e) (new_request e b)"
  have req: "rq_ID ?req = ae_uuid e" "rq_Status ?req = RequestStatusPending" "rq_Attempts ?req = 0"
      and call: "http_request_of we ?req secret = asked_call e we b secret"
    by (simp_all add: http_request_of_def asked_call_def stored_request_def new_request_def)
  have row: "request_row (w_db w) (rq_ID ?req) = Some ?req" using stored by (simp add: req assms(5))
  obtain w' where run: "processItem we (ae_ref e) (pq_heap (q_pq (sv_queue sv')) (ae_ref e)) w = Some w'"
      "w_calls w' = w_calls w @ [asked_call e we b secret]"
      and res: "\<And>resp. we_client we (asked_call e we b secret) = Inr resp \<Longrightarrow> 200 \<le> hp_StatusCode resp \<Longrightarrow>
        hp_StatusCode resp < 300 \<Longrightarrow> \<exists>row. request_row (w_db w') (ae_uuid e) = Some row \<and> rq_ID row = ae_uuid e \<and>
          rq_Status row = RequestStatusSuccess \<and> rq_Attempts row = 1 \<and>
          rq_ResponseStatus row = Some (hp_StatusCode resp) \<and> rq_ResponseBody row = Some (hp_Body resp)"
    using first_attempt [OF row _ req(2,3) assms(7-11)] item unfolding req(1) call by metis
  show ?thesis
  proof (intro exI [of _ b] exI [of _ w'] conjI allI impI b run)
    fix resp
    assume "we_client we (asked_call e we b secret) = Inr resp \<and> 200 \<le> hp_StatusCode resp \<and> hp_StatusCode resp < 300"
    then obtain row where "request_row (w_db w') (ae_uuid e) = Some row" and good: "rq_ID row = ae_uuid e"
        "rq_Status row = RequestStatusSuccess" "rq_Attempts row = 1"
        "rq_ResponseStatus row = Some (hp_StatusCode resp)" "rq_ResponseBody row = Some (hp_Body resp)"
      using res by blast
    then show "\<exists>row. GetRequestStatus e2 (status_call (ae_uuid e)) (sv'\<lparr>sv_db := w_db w'\<rparr>) =
          (sv'\<lparr>sv_db := w_db w'\<rparr>, Reply 200 (requestToResponse e2 row)) \<and>
        rq_ID row = ae_uuid e \<and> rq_Status row = RequestStatusSuccess \<and> rq_Attempts row = 1 \<and>
        rq_ResponseStatus row = Some (hp_StatusCode resp) \<and> rq_ResponseBody row = Some (hp_Body resp)"
      using GetRequestStatus_row [OF assms(12,13), of "sv'\<lparr>sv_db := w_db w'\<rparr>"] good
      by (intro exI [of _ row]) simp
  qed
qed

definition life_server :: server where
  "life_server = example_server\<lparr>sv_mgr := w_mgr example_world\<rparr>"

theorem submitted_request_is_executed_witness:
  "let e = example_api (submission ''k''); we = example_env_for 200; sv' = fst (SubmitRequest e example_submit life_server);
       w = example_world\<lparr>w_db := sv_db sv'\<rparr>
   in \<exists>w' row. processItem we 0 (pq_heap (q_pq (sv_queue sv')) 0) w = Some w' \<and> length (w_calls w') = 1 \<and>
        GetRequestStatus e (status_call ''u1'') (sv'\<lparr>sv_db := w_db w'\<rparr>) =
          (sv'\<lparr>sv_db := w_db w'\<rparr>, Reply 200 (requestToResponse e row)) \<and> rq_Status row = RequestStatusSuccess"
proof -
  let ?e = "example_api (submission ''k'')" and ?we = "example_env_for 200"
  let ?sv = "fst (SubmitRequest ?e example_submit life_server)"
  let ?w = "example_world\<lparr>w_db := sv_db ?sv\<rparr>"
  let ?b = "empty_submit\<lparr>sb_IdempotencyKey := ''k'', sb_Method := ''get'', sb_URL := ''http://x''\<rparr>"
  have q: "q_inv (sv_queue life_server)" "ae_ref ?e \<notin> contents (sv_queue life_server)"
    by (simp_all add: life_server_def example_server_def NewQueue_inv)
  have dec: "decodeJSON ?e (decode_struct submit_fields empty_submit) (ar_Body example_submit) = Inr ?b" by code_simp
  have "case snd (SubmitRequest ?e example_submit life_server) of Reply c body \<Rightarrow> c = 202 | _ \<Rightarrow> False" by code_simp
  then obtain body where "snd (SubmitRequest ?e example_submit life_server) = Reply 202 body"
    by (auto split: reply.splits)
  then have sub: "SubmitRequest ?e example_submit life_server = (?sv, Reply 202 body)" by (metis prod.collapse)
  have "sv_mgr ?sv = w_mgr example_world"
    by (rule submitted_request [OF q sub dec]) (simp add: life_server_def)
  then have world: "w_db ?w = sv_db ?sv" "w_mgr ?w = sv_mgr ?sv" by simp_all
  have io: "we_load ?we = None" "we_status_io ?we = None" "we_result_io ?we = None" by (simp_all add: example_env_for_def)
  let ?g = "GetKey (we_allow_clk ?we) (we_rate_clk ?we) (w_mgr ?w)"
  have "snd (GetKey (we_allow_clk ?we) (we_rate_clk ?we) (w_mgr example_world)) = GotKey 1" by code_simp
  then have g: "?g = (fst ?g, GotKey 1)" by (simp add: prod_eq_iff)
  have "isl (Decrypt (we_open ?we) (pk_KeyEncrypted (m_store (fst (GetKey (we_allow_clk ?we) (we_rate_clk ?we)
      (w_mgr example_world))) 1)) (we_encKey ?we)) = False" by code_simp
  then obtain s where s: "Decrypt (we_open ?we) (pk_KeyEncrypted (m_store (fst ?g) 1)) (we_encKey ?we) = Inr s"
    by (cases "Decrypt (we_open ?we) (pk_KeyEncrypted (m_store (fst ?g) 1)) (we_encKey ?we)") auto
  have uuid: "plain_id (ae_uuid ?e)" "ae_io ?e 0 = None" by (simp_all add: example_api_def plain_id_def)
  from submitted_request_is_executed [OF q dec sub world io g s uuid]
  obtain w' row where "processItem ?we (ae_ref ?e) (pq_heap (q_pq (sv_queue ?sv)) (ae_ref ?e)) ?w = Some w'"
      and "\<exists>c. w_calls w' = w_calls ?w @ [c]"
      and "GetRequestStatus ?e (status_call (ae_uuid ?e)) (?sv\<lparr>sv_db := w_db w'\<rparr>) =
        (?sv\<lparr>sv_db := w_db w'\<rparr>, Reply 200 (requestToResponse ?e row))" and "rq_Status row = RequestStatusSuccess"
    by (auto simp: example_env_for_def)
  moreover have "ae_ref ?e = 0" "ae_uuid ?e = ''u1''" "w_calls ?w = []"
    by (simp_all add: example_api_def example_world_def)
  ultimately show ?thesis unfolding Let_def by (metis append_Nil length_Cons list.size(3) One_nat_def)
qed

end
