(* ===== verification/Queue_Dispatch.thy ===== *)
theory Queue_Dispatch
  imports Request_Queue
begin

text \<open>
  The goroutine \<open>dispatchLoop\<close> of \<^verbatim>\<open>internal/queue/queue.go\<close> beside the callers of \<open>Enqueue\<close> and
  \<open>Close\<close>: an inductive step relation whose steps are the atomic pieces of the code. A piece is
  what runs under the queue's mutex, one channel operation of a \<open>select\<close>, or one channel close;
  any interleaving of the pieces of the three kinds of goroutines is a path of the relation.

  The \<open>dequeue\<close> channel is unbuffered: a send is a hand-over to a worker that receives. The lists
  \<open>d_accepted\<close>, \<open>d_sent\<close>, \<open>d_dropped\<close>, \<open>d_evicted\<close> and \<open>d_vanished\<close> are the history of the run
  and are read by no step: the items for which \<open>Enqueue\<close> returned nil, those handed to a worker,
  those dropped with a log line at shutdown, those preempted, and those the loop held in its hand
  when it saw \<open>done\<close>, which it neither sends nor logs.
\<close>

section \<open>States and steps\<close>

datatype loop_pc = Waiting | Looping | Sending item_ref | Stopped

record dispatcher =
  d_q :: queue
  d_pc :: loop_pc
  d_accepted :: "item_ref list"
  d_sent :: "item_ref list"
  d_dropped :: "item_ref list"
  d_evicted :: "item_ref list"
  d_vanished :: "item_ref list"

definition start_dispatch :: "queue \<Rightarrow> dispatcher" where
  "start_dispatch q = \<lparr>d_q = q, d_pc = Waiting, d_accepted = [], d_sent = [], d_dropped = [],
     d_evicted = [], d_vanished = []\<rparr>"

text \<open>\<open>drainRemaining\<close> followed by \<open>close(q.dequeue)\<close> and the return.\<close>

definition shut_down :: "(nat \<Rightarrow> bool) \<Rightarrow> item_ref list \<Rightarrow> dispatcher \<Rightarrow> dispatcher" where
  "shut_down ready inhand d =
     (let (q', sent, dropped) = drainRemaining ready (d_q d)
      in d\<lparr>d_q := q', d_pc := Stopped, d_sent := d_sent d @ sent,
           d_dropped := d_dropped d @ dropped, d_vanished := d_vanished d @ inhand\<rparr>)"

inductive loop_step :: "dispatcher \<Rightarrow> dispatcher \<Rightarrow> bool" where
  wake: "d_pc d = Waiting \<Longrightarrow> q_notify (d_q d) \<Longrightarrow>
    loop_step d (d\<lparr>d_q := (d_q d)\<lparr>q_notify := False\<rparr>, d_pc := Looping\<rparr>)"
| done_waiting: "d_pc d = Waiting \<Longrightarrow> q_done (d_q d) \<Longrightarrow> loop_step d (shut_down ready [] d)"
| heap_empty: "d_pc d = Looping \<Longrightarrow> Size (d_q d) = 0 \<Longrightarrow> loop_step d (d\<lparr>d_pc := Waiting\<rparr>)"
| pop_item: "d_pc d = Looping \<Longrightarrow> pq_heapPop (q_pq (d_q d)) = Some (p, x) \<Longrightarrow>
    loop_step d (d\<lparr>d_q := (d_q d)\<lparr>q_pq := p\<rparr>, d_pc := Sending x\<rparr>)"
| send_item: "d_pc d = Sending x \<Longrightarrow>
    loop_step d (d\<lparr>d_pc := Looping, d_sent := d_sent d @ [x]\<rparr>)"
| done_sending: "d_pc d = Sending x \<Longrightarrow> q_done (d_q d) \<Longrightarrow> loop_step d (shut_down ready [x] d)"

text \<open>
  A call of \<open>Enqueue\<close>. The caller owns the pointer it passes: the API handler has just allocated
  it, and a worker that re-queues an item got it from the \<open>dequeue\<close> channel. So the item was
  handed over as often as it was accepted.
\<close>

definition owned :: "dispatcher \<Rightarrow> item_ref \<Rightarrow> bool" where
  "owned d x \<longleftrightarrow> count_list (d_accepted d) x = count_list (d_sent d) x"

definition record_enqueue :: "dispatcher \<Rightarrow> item_ref \<Rightarrow> dispatcher" where
  "record_enqueue d x =
     (let (q', res) = Enqueue (d_q d) x;
          gone = filter (\<lambda>r. r \<notin> contents q') (pq_refs (q_pq (d_q d)))
      in d\<lparr>d_q := q', d_evicted := d_evicted d @ gone,
           d_accepted := (if res = QOk then d_accepted d @ [x] else d_accepted d)\<rparr>)"

inductive env_step :: "dispatcher \<Rightarrow> dispatcher \<Rightarrow> bool" where
  call_enqueue: "owned d x \<Longrightarrow> env_step d (record_enqueue d x)"
| once_mark: "\<not> q_once (d_q d) \<Longrightarrow>
    env_step d (d\<lparr>d_q := close_mark ((d_q d)\<lparr>q_once := True\<rparr>)\<rparr>)"
| once_close: "q_once (d_q d) \<Longrightarrow> q_closed (d_q d) \<Longrightarrow> \<not> q_done (d_q d) \<Longrightarrow>
    env_step d (d\<lparr>d_q := close_done (d_q d)\<rparr>)"

definition dispatch_step :: "dispatcher \<Rightarrow> dispatcher \<Rightarrow> bool" where
  "dispatch_step d d' \<longleftrightarrow> loop_step d d' \<or> env_step d d'"

abbreviation reachable :: "(item_ref \<Rightarrow> item) \<Rightarrow> int \<Rightarrow> bool \<Rightarrow> dispatcher \<Rightarrow> bool" where
  "reachable h m p d \<equiv> dispatch_step\<^sup>*\<^sup>* (start_dispatch (NewQueue h m p)) d"

inductive_cases loop_stepE: "loop_step d d'"
inductive_cases env_stepE: "env_step d d'"

section \<open>The invariant\<close>

fun in_hand :: "loop_pc \<Rightarrow> item_ref list" where
  "in_hand (Sending x) = [x]"
| "in_hand _ = []"

text \<open>The accepted items that no worker has been given.\<close>

definition outstanding :: "dispatcher \<Rightarrow> item_ref list" where
  "outstanding d = pq_refs (q_pq (d_q d)) @ in_hand (d_pc d) @ d_dropped d @ d_evicted d @ d_vanished d"

definition disp_inv :: "dispatcher \<Rightarrow> bool" where
  "disp_inv d \<longleftrightarrow> q_inv (d_q d) \<and> distinct (outstanding d) \<and>
     mset (d_accepted d) = mset (d_sent d) + mset (outstanding d) \<and>
     (d_pc d = Waiting \<and> contents (d_q d) \<noteq> {} \<longrightarrow> q_notify (d_q d)) \<and>
     (q_done (d_q d) \<longrightarrow> q_closed (d_q d)) \<and>
     (d_pc d = Stopped \<longrightarrow> q_done (d_q d) \<and> contents (d_q d) = {})"

lemma start_inv: "disp_inv (start_dispatch (NewQueue h m p))"
  using NewQueue_inv [of h m p]
  by (simp add: disp_inv_def start_dispatch_def outstanding_def) (simp add: NewQueue_def)

text \<open>A step that moves the outstanding items around, or hands some over, keeps the account.\<close>

lemma account_moved:
  assumes "disp_inv d" and "d_accepted d' = d_accepted d" and "d_sent d' = d_sent d @ xs"
    and "mset (outstanding d) = mset (outstanding d') + mset xs"
  shows "distinct (outstanding d')" and "mset (d_accepted d') = mset (d_sent d') + mset (outstanding d')"
proof -
  have "mset (outstanding d) = mset (outstanding d' @ xs)" using assms(4) by simp
  moreover have "distinct (outstanding d)" using assms(1) by (simp add: disp_inv_def)
  ultimately have "distinct (outstanding d' @ xs)" by (metis mset_eq_imp_distinct_iff)
  then show "distinct (outstanding d')" by simp
  show "mset (d_accepted d') = mset (d_sent d') + mset (outstanding d')"
    using assms by (simp add: disp_inv_def)
qed

lemma shut_down_inv:
  assumes inv: "disp_inv d" and don: "q_done (d_q d)" and hand: "in_hand (d_pc d) = xs"
  shows "disp_inv (shut_down ready xs d)"
proof -
  have q: "q_inv (d_q d)" using inv by (simp add: disp_inv_def)
  obtain p sent lost where dr: "drainRemaining ready (d_q d) = ((d_q d)\<lparr>q_pq := p\<rparr>, sent, lost)"
      and ok: "drain_ok (q_pq (d_q d)) (p, sent, lost)"
    by (rule drainRemaining_spec [OF q])
  then have refs: "pq_refs p = []" and ms: "mset (pq_refs (q_pq (d_q d))) = mset lost + mset sent"
    by (simp_all add: drain_ok_def add.commute)
  have "q_inv ((d_q d)\<lparr>q_pq := p\<rparr>)" using refs by (simp add: q_inv_def pq_inv_empty pq_Len_def)
  moreover have "mset (outstanding d) = mset (outstanding (shut_down ready xs d)) + mset sent"
    using ms hand refs by (simp add: outstanding_def shut_down_def dr)
  note account_moved [OF inv _ _ this]
  ultimately show ?thesis
    using inv don refs by (simp add: disp_inv_def shut_down_def dr)
qed

lemma loop_step_inv:
  assumes "loop_step d d'" and inv: "disp_inv d"
  shows "disp_inv d'"
  using assms(1)
proof (cases rule: loop_step.cases)
  case wake
  with inv show ?thesis by (auto simp: disp_inv_def outstanding_def q_inv_def)
next
  case (done_waiting ready)
  with inv shut_down_inv [of d "[]" ready] show ?thesis by simp
next
  case heap_empty
  with inv show ?thesis by (auto simp: disp_inv_def outstanding_def Size_def pq_Len_def)
next
  case (pop_item p x)
  have pq: "pq_inv (q_pq (d_q d))" using inv by (simp add: disp_inv_def q_inv_def)
  have ne: "pq_refs (q_pq (d_q d)) \<noteq> []"
    using pop_item(3) by (auto simp: pq_heapPop_def heap_Pop_def pq_Len_def)
  obtain p' x' where "pq_heapPop (q_pq (d_q d)) = Some (p', x')" and "taken_out (q_pq (d_q d)) x' p'"
    by (rule pq_heapPop_spec [OF pq ne])
  with pop_item(3) have out: "taken_out (q_pq (d_q d)) x p" by simp
  then have "mset (pq_refs (q_pq (d_q d))) = add_mset x (mset (pq_refs p))"
    using pq by (intro taken_out_mset) (simp_all add: pq_inv_def pq_wf_def)
  then have "mset (outstanding d) = mset (outstanding d') + mset []"
    using pop_item(1,2) by (simp add: outstanding_def)
  note account_moved [OF inv _ _ this]
  with pop_item(1,2) inv out show ?thesis
    by (simp add: disp_inv_def q_inv_def taken_out_def pq_Len_def)
next
  case (send_item x)
  then have "mset (outstanding d) = mset (outstanding d') + mset [x]" by (simp add: outstanding_def)
  note account_moved [OF inv _ _ this]
  with send_item inv show ?thesis by (simp add: disp_inv_def)
next
  case (done_sending x ready)
  with inv shut_down_inv [of d "[x]" ready] show ?thesis by simp
qed

lemma mset_replaced:
  assumes "set ys \<subseteq> insert x (set xs)" and "x \<in> set ys" and "distinct xs" and "distinct ys"
    and "x \<notin> set xs"
  shows "mset ys + mset (filter (\<lambda>r. r \<notin> set ys) xs) = add_mset x (mset xs)"
proof -
  have "distinct (ys @ filter (\<lambda>r. r \<notin> set ys) xs)" "distinct (x # xs)"
      "set (ys @ filter (\<lambda>r. r \<notin> set ys) xs) = set (x # xs)"
    using assms by auto
  then have "mset (ys @ filter (\<lambda>r. r \<notin> set ys) xs) = mset (x # xs)"
    by (simp only: set_eq_iff_mset_eq_distinct)
  then show ?thesis by simp
qed

lemma record_enqueue_inv:
  assumes inv: "disp_inv d" and x: "owned d x"
  shows "disp_inv (record_enqueue d x)"
proof -
  let ?q = "d_q d"
  obtain q' res where enq: "Enqueue ?q x = (q', res)" by (cases "Enqueue ?q x")
  have q: "q_inv ?q" and m: "mset (d_accepted d) = mset (d_sent d) + mset (outstanding d)"
    using inv by (simp_all add: disp_inv_def)
  have "count (mset (outstanding d)) x = 0"
    using x arg_cong [OF m, of "\<lambda>M. count M x"] by (simp add: owned_def count_mset)
  then have new: "x \<notin> set (outstanding d)" by (simp add: count_eq_zero_iff)
  then have x': "x \<notin> contents ?q" by (simp add: outstanding_def)
  have ok: "enqueue_ok ?q x q' res" by (rule Enqueue_ok [OF q x' enq])
  have flags: "q_done q' = q_done ?q" "q_closed q' = q_closed ?q" "res = QOk \<Longrightarrow> q_notify q'"
      "res \<noteq> QOk \<Longrightarrow> q' = ?q" "res = QOk \<Longrightarrow> \<not> q_closed ?q"
    using enq by (auto simp: Enqueue_def Let_def push_and_notify_def split: if_splits option.splits)
  have dist: "distinct (pq_refs (q_pq ?q))" "distinct (pq_refs (q_pq q'))"
    using q ok by (simp_all add: enqueue_ok_def q_inv_def pq_inv_def pq_wf_def)
  show ?thesis
  proof (cases "res = QOk")
    case False
    with flags inv enq show ?thesis by (simp add: record_enqueue_def disp_inv_def outstanding_def)
  next
    case True
    have "contents q' \<subseteq> insert x (contents ?q)" "x \<in> contents q'"
      using ok True by (auto simp: enqueue_ok_def enqueue_spec_def split: if_splits)
    then have "mset (pq_refs (q_pq q')) + mset (filter (\<lambda>r. r \<notin> contents q') (pq_refs (q_pq ?q))) =
        add_mset x (mset (pq_refs (q_pq ?q)))"
      by (intro mset_replaced dist x')
    then have out: "mset (outstanding (record_enqueue d x)) = mset (x # outstanding d)"
      by (simp add: record_enqueue_def enq outstanding_def)
    have "distinct (x # outstanding d)" using new inv by (simp add: disp_inv_def)
    then have "distinct (outstanding (record_enqueue d x))"
      using out by (metis mset_eq_imp_distinct_iff)
    with True flags(1-3,5) inv ok enq out show ?thesis
      by (auto simp: record_enqueue_def disp_inv_def enqueue_ok_def)
  qed
qed


lemma env_step_inv: "env_step d d' \<Longrightarrow> disp_inv d \<Longrightarrow> disp_inv d'"
proof (erule env_stepE)
  fix x assume "disp_inv d" "d' = record_enqueue d x" "owned d x"
  then show "disp_inv d'" using record_enqueue_inv by simp
qed (auto simp: disp_inv_def outstanding_def q_inv_def close_mark_def close_done_def)

lemma reachable_inv: "reachable h m p d \<Longrightarrow> disp_inv d"
  by (induction rule: rtranclp_induct)
    (auto simp: start_inv dispatch_step_def intro: loop_step_inv env_step_inv)

section \<open>Progress of the loop\<close>

lemma step_pop_send:
  assumes inv: "disp_inv d" and pc: "d_pc d = Looping" and ne: "pq_refs (q_pq (d_q d)) \<noteq> []"
  obtains p x where "taken_out (q_pq (d_q d)) x p"
    and "\<forall>r \<in> contents (d_q d). q_rank (d_q d) x \<le> q_rank (d_q d) r"
    and "loop_step\<^sup>*\<^sup>* d (d\<lparr>d_q := (d_q d)\<lparr>q_pq := p\<rparr>, d_sent := d_sent d @ [x]\<rparr>)"
proof -
  have pq: "pq_inv (q_pq (d_q d))" using inv by (simp add: disp_inv_def q_inv_def)
  obtain p x where pop: "pq_heapPop (q_pq (d_q d)) = Some (p, x)"
      and out: "taken_out (q_pq (d_q d)) x p"
      and least: "\<forall>r \<in> contents (d_q d). q_rank (d_q d) x \<le> q_rank (d_q d) r"
    by (rule pq_heapPop_spec [OF pq ne])
  let ?d1 = "d\<lparr>d_q := (d_q d)\<lparr>q_pq := p\<rparr>, d_pc := Sending x\<rparr>"
  let ?d2 = "d\<lparr>d_q := (d_q d)\<lparr>q_pq := p\<rparr>, d_sent := d_sent d @ [x]\<rparr>"
  have "loop_step d ?d1" using pc pop by (rule pop_item)
  moreover have "loop_step ?d1 (?d1\<lparr>d_pc := Looping, d_sent := d_sent ?d1 @ [x]\<rparr>)"
    by (rule send_item) simp
  moreover have "?d1\<lparr>d_pc := Looping, d_sent := d_sent ?d1 @ [x]\<rparr> = ?d2" using pc by simp
  ultimately have "loop_step\<^sup>*\<^sup>* d ?d2" by (metis rtranclp.simps)
  with that out least show thesis by blast
qed

lemma looping_delivers:
  assumes "disp_inv d" and "d_pc d = Looping"
  shows "\<exists>d' xs. loop_step\<^sup>*\<^sup>* d d' \<and> d_pc d' = Waiting \<and> pq_refs (q_pq (d_q d')) = [] \<and>
    d_sent d' = d_sent d @ xs \<and> mset xs = mset (pq_refs (q_pq (d_q d))) \<and>
    sorted (map (q_rank (d_q d)) xs)"
  using assms
proof (induction "length (pq_refs (q_pq (d_q d)))" arbitrary: d)
  case 0
  then have "loop_step d (d\<lparr>d_pc := Waiting\<rparr>)" by (intro heap_empty) (simp_all add: Size_def pq_Len_def)
  with 0 show ?case by (intro exI [of _ "d\<lparr>d_pc := Waiting\<rparr>"] exI [of _ "[]"]) auto
next
  case (Suc n)
  then have ne: "pq_refs (q_pq (d_q d)) \<noteq> []" by auto
  obtain p x where out: "taken_out (q_pq (d_q d)) x p"
      and least: "\<forall>r \<in> contents (d_q d). q_rank (d_q d) x \<le> q_rank (d_q d) r"
      and steps: "loop_step\<^sup>*\<^sup>* d (d\<lparr>d_q := (d_q d)\<lparr>q_pq := p\<rparr>, d_sent := d_sent d @ [x]\<rparr>)"
    by (rule step_pop_send [OF Suc.prems ne])
  let ?d1 = "d\<lparr>d_q := (d_q d)\<lparr>q_pq := p\<rparr>, d_sent := d_sent d @ [x]\<rparr>"
  have inv1: "disp_inv ?d1"
    using steps Suc.prems(1) by (induction rule: rtranclp_induct) (auto intro: loop_step_inv)
  have "n = length (pq_refs (q_pq (d_q ?d1)))" using Suc.hyps(2) out by (simp add: taken_out_def)
  from Suc.hyps(1) [OF this inv1] obtain d' xs where d': "loop_step\<^sup>*\<^sup>* ?d1 d'" "d_pc d' = Waiting"
      "pq_refs (q_pq (d_q d')) = []" "d_sent d' = d_sent d @ x # xs" "mset xs = mset (pq_refs p)"
      "sorted (map (ref_rank p) xs)"
    using Suc.prems(2) by auto
  have "distinct (pq_refs (q_pq (d_q d)))"
    using Suc.prems(1) by (simp add: disp_inv_def q_inv_def pq_inv_def pq_wf_def)
  then have ms: "mset (x # xs) = mset (pq_refs (q_pq (d_q d)))"
    using taken_out_mset [OF out] d'(5) by simp
  have "ref_rank p r = q_rank (d_q d) r" for r
    using out by (intro same_but_index_rank) (simp add: taken_out_def)
  moreover have "\<forall>r \<in> set xs. q_rank (d_q d) x \<le> q_rank (d_q d) r"
    using least mset_eq_setD [OF ms] by auto
  ultimately have "sorted (map (q_rank (d_q d)) (x # xs))" using d'(6) by simp
  moreover have "loop_step\<^sup>*\<^sup>* d d'" using steps d'(1) by (rule rtranclp_trans)
  ultimately show ?case using d'(2-4) ms by blast
qed

text \<open>A call that has returned leaves the history of accepted items growing only.\<close>

lemma closed_step:
  assumes "dispatch_step d d'" and "q_closed (d_q d)"
  shows "q_closed (d_q d') \<and> d_accepted d' = d_accepted d \<and> d_evicted d' = d_evicted d"
  using assms unfolding dispatch_step_def
  by (auto elim!: loop_stepE env_stepE simp: shut_down_def drainRemaining_def record_enqueue_def
      Enqueue_def Let_def close_mark_def close_done_def split: prod.splits)

section \<open>Properties\<close>

text \<open>C10: no accepted item is lost track of: in every state that any interleaving of the dispatch
  loop with callers of \<open>Enqueue\<close> and \<open>Close\<close> can reach, each success of \<open>Enqueue\<close> is accounted
  for once: the item is in the heap, in the hand of the loop, handed to a worker, evicted by a
  more important one, dropped with a log line at shutdown, or abandoned in hand at shutdown. No
  item is in two of these places other than the hand-overs, so none is handed over again without
  a new \<open>Enqueue\<close>, an evicted item never comes back, and the heap keeps its bound throughout.\<close>

theorem items_are_conserved:
  assumes "reachable h m p d"
  shows "mset (d_accepted d) = mset (d_sent d) + mset (pq_refs (q_pq (d_q d))) +
      mset (in_hand (d_pc d)) + mset (d_dropped d) + mset (d_evicted d) + mset (d_vanished d) \<and>
    distinct (pq_refs (q_pq (d_q d)) @ in_hand (d_pc d) @ d_dropped d @ d_evicted d @ d_vanished d) \<and>
    q_inv (d_q d)"
  using reachable_inv [OF assms] by (simp add: disp_inv_def outstanding_def)

definition example_run :: dispatcher where
  "example_run = (let d1 = record_enqueue (start_dispatch (NewQueue example_items 2 True)) 1;
     d2 = d1\<lparr>d_q := (d_q d1)\<lparr>q_notify := False\<rparr>, d_pc := Looping\<rparr>
     in d2\<lparr>d_q := (d_q d2)\<lparr>q_pq := fst (the (pq_heapPop (q_pq (d_q d2))))\<rparr>, d_pc := Sending 1\<rparr>)"

lemma example_run_reachable: "reachable example_items 2 True example_run"
proof -
  let ?d0 = "start_dispatch (NewQueue example_items 2 True)"
  let ?d1 = "record_enqueue ?d0 1"
  let ?d2 = "?d1\<lparr>d_q := (d_q ?d1)\<lparr>q_notify := False\<rparr>, d_pc := Looping\<rparr>"
  have "env_step ?d0 ?d1" by (rule call_enqueue) (simp add: start_dispatch_def owned_def)
  moreover have "loop_step ?d1 ?d2" by (rule wake) code_simp+
  moreover have "\<not> Option.is_none (pq_heapPop (q_pq (d_q ?d2)))"
      "snd (the (pq_heapPop (q_pq (d_q ?d2)))) = 1"
    by code_simp+
  then have "pq_heapPop (q_pq (d_q ?d2)) = Some (fst (the (pq_heapPop (q_pq (d_q ?d2)))), 1)"
    by (auto simp: Option.is_none_def)
  then have "loop_step ?d2 example_run"
    unfolding example_run_def Let_def by (intro pop_item) simp_all
  ultimately show ?thesis
    unfolding dispatch_step_def by (metis (no_types, lifting) rtranclp.simps)
qed

theorem items_are_conserved_witness:
  "mset (d_accepted example_run) = {#1#} \<and> in_hand (d_pc example_run) = [1] \<and>
   distinct (outstanding example_run)"
proof (intro conjI)
  show "in_hand (d_pc example_run) = [1]" by code_simp
  have "d_accepted example_run = [1]" by code_simp
  then show "mset (d_accepted example_run) = {#1#}" by simp
  show "distinct (outstanding example_run)"
    using items_are_conserved [OF example_run_reachable] unfolding outstanding_def by blast
qed

text \<open>C11: no wake-up is lost and queued items are served: in every reachable state whose heap holds
  items, unless the loop has stopped, the loop can go on alone (with workers that receive) until
  it has handed over everything it held, in hand first and then the whole heap in order of
  priority and age. The one-slot notify channel therefore never leaves work behind.\<close>

theorem queued_items_are_delivered:
  assumes "reachable h m p d" and "contents (d_q d) \<noteq> {}"
  shows "\<exists>d' xs. loop_step\<^sup>*\<^sup>* d d' \<and> d_pc d' = Waiting \<and> contents (d_q d') = {} \<and>
    d_sent d' = d_sent d @ in_hand (d_pc d) @ xs \<and> mset xs = mset (pq_refs (q_pq (d_q d))) \<and>
    sorted (map (q_rank (d_q d)) xs)"
proof -
  have inv: "disp_inv d" using assms(1) by (rule reachable_inv)
  obtain d1 where d1: "loop_step\<^sup>*\<^sup>* d d1" "d_pc d1 = Looping" "q_pq (d_q d1) = q_pq (d_q d)"
      "d_sent d1 = d_sent d @ in_hand (d_pc d)"
  proof (cases "d_pc d")
    case Waiting
    with inv assms(2) have "q_notify (d_q d)" by (simp add: disp_inv_def)
    then have "loop_step d (d\<lparr>d_q := (d_q d)\<lparr>q_notify := False\<rparr>, d_pc := Looping\<rparr>)"
      by (rule wake [OF Waiting])
    then show thesis
      using that [of "d\<lparr>d_q := (d_q d)\<lparr>q_notify := False\<rparr>, d_pc := Looping\<rparr>"] Waiting by auto
  next
    case Looping
    with that [of d] show thesis by simp
  next
    case (Sending x)
    then have "loop_step d (d\<lparr>d_pc := Looping, d_sent := d_sent d @ [x]\<rparr>)" by (rule send_item)
    then show thesis using that [of "d\<lparr>d_pc := Looping, d_sent := d_sent d @ [x]\<rparr>"] Sending by auto
  next
    case Stopped
    with inv assms(2) show thesis by (simp add: disp_inv_def)
  qed
  have "disp_inv d1"
    using d1(1) inv by (induction rule: rtranclp_induct) (auto intro: loop_step_inv)
  from looping_delivers [OF this d1(2)] obtain d' xs where "loop_step\<^sup>*\<^sup>* d1 d'" "d_pc d' = Waiting"
      "pq_refs (q_pq (d_q d')) = []" "d_sent d' = d_sent d1 @ xs"
      "mset xs = mset (pq_refs (q_pq (d_q d)))" "sorted (map (q_rank (d_q d)) xs)"
    unfolding d1(3) by blast
  with d1(1,4) show ?thesis by (intro exI [of _ d'] exI [of _ xs]) auto
qed

text \<open>Two items are waiting, and the one that was enqueued later, of higher priority, goes first.\<close>

theorem queued_items_are_delivered_witness:
  "\<exists>d'. loop_step\<^sup>*\<^sup>* (record_enqueue (record_enqueue (start_dispatch (NewQueue example_items 2 True)) 1) 3) d' \<and>
     d_pc d' = Waiting \<and> contents (d_q d') = {} \<and> d_sent d' = [3, 1]"
proof -
  let ?d1 = "record_enqueue (start_dispatch (NewQueue example_items 2 True)) 1"
  let ?d = "record_enqueue ?d1 3"
  have "env_step (start_dispatch (NewQueue example_items 2 True)) ?d1"
    by (rule call_enqueue) (simp add: start_dispatch_def owned_def)
  moreover have "d_accepted ?d1 = [1]" "d_sent ?d1 = []" by code_simp+
  then have "env_step ?d1 ?d" by (intro call_enqueue) (simp add: owned_def)
  ultimately have reach: "reachable example_items 2 True ?d"
    unfolding dispatch_step_def by (metis (no_types, lifting) rtranclp.simps)
  have start: "d_sent ?d = []" "in_hand (d_pc ?d) = []" "mset (pq_refs (q_pq (d_q ?d))) = mset [1, 3]"
      "sorted (map (q_rank (d_q ?d)) [1, 3]) = False" by code_simp+
  then have "contents (d_q ?d) \<noteq> {}" by auto
  from queued_items_are_delivered [OF reach this] obtain d' xs where d': "loop_step\<^sup>*\<^sup>* ?d d'" "d_pc d' = Waiting"
      "contents (d_q d') = {}" "d_sent d' = xs" and xs: "mset xs = mset [1, 3]" "sorted (map (q_rank (d_q ?d)) xs)"
    unfolding start by auto
  have "length xs = 2" "set xs = {1, 3}" using mset_eq_length [OF xs(1)] mset_eq_setD [OF xs(1)] by simp_all
  then obtain a b where ab: "xs = [a, b]" "{a, b} = {1, 3}"
    by (metis (no_types) One_nat_def Suc_1 length_0_conv length_Suc_conv list.simps(15) empty_set)
  then have "xs = [1, 3] \<or> xs = [3, 1]" using doubleton_eq_iff [of a b 1 3] by blast
  with xs(2) start(4) have "xs = [3, 1]" by auto
  with d' show ?thesis by blast
qed

text \<open>After \<open>Close\<close> has marked the queue, nothing is accepted and nothing is evicted any more,
  whatever the goroutines do from then on.\<close>

theorem closed_queue_accepts_nothing:
  assumes "dispatch_step\<^sup>*\<^sup>* d d'" and "q_closed (d_q d)"
  shows "q_closed (d_q d') \<and> d_accepted d' = d_accepted d \<and> d_evicted d' = d_evicted d"
  using assms(1)
proof (induction rule: rtranclp_induct)
  case (step d1 d2)
  with closed_step [of d1 d2] show ?case by simp
qed (use assms(2) in simp)

theorem closed_queue_accepts_nothing_witness:
  "d_accepted (record_enqueue (start_dispatch (Close (NewQueue example_items 2 True))) 1) = []"
proof -
  let ?d = "start_dispatch (Close (NewQueue example_items 2 True))"
  have "dispatch_step\<^sup>*\<^sup>* ?d (record_enqueue ?d 1)"
    by (intro r_into_rtranclp) (simp add: dispatch_step_def call_enqueue start_dispatch_def owned_def)
  moreover have "q_closed (d_q ?d)" "d_accepted ?d = []" by code_simp+
  ultimately show ?thesis
    using closed_queue_accepts_nothing [of ?d "record_enqueue ?d 1"] by simp
qed

text \<open>C40: the item in the loop's hand can be lost at shutdown: there is a run in which an item is
  accepted and popped, the queue is closed while the loop offers it, and the loop stops without
  handing it over and without the log line that \<open>drainRemaining\<close> writes for the items it drops.\<close>

theorem shutdown_loses_the_item_in_hand:
  "\<exists>d. reachable example_items 2 True d \<and> d_pc d = Stopped \<and> d_accepted d = [1] \<and>
     d_sent d = [] \<and> d_dropped d = [] \<and> d_vanished d = [1]"
proof -
  let ?e = "example_run"
  let ?m = "?e\<lparr>d_q := close_mark ((d_q ?e)\<lparr>q_once := True\<rparr>)\<rparr>"
  let ?c = "?m\<lparr>d_q := close_done (d_q ?m)\<rparr>"
  let ?s = "shut_down (\<lambda>_. True) [1] ?c"
  have "env_step ?e ?m" by (rule once_mark) code_simp
  moreover have "env_step ?m ?c" by (rule once_close) code_simp+
  moreover have "loop_step ?c ?s" by (rule done_sending) code_simp+
  ultimately have "reachable example_items 2 True ?s"
    using example_run_reachable unfolding dispatch_step_def
    by (metis (no_types, lifting) rtranclp.simps)
  moreover have "d_pc ?s = Stopped" "d_accepted ?s = [1]" "d_sent ?s = []" "d_dropped ?s = []"
      "d_vanished ?s = [1]"
    by code_simp+
  ultimately show ?thesis by blast
qed

end
