(* ===== verification/Shared_State.thy ===== *)
theory Shared_State
  imports Request_Lifecycle Queue_Dispatch
begin

text \<open>
  What the HTTP handlers do to the state they share with the workers: their effect on the database
  is a sequence of single writes of the adapter, each of which keeps the constraints of the schema,
  the ranges of the key limits and the rows of the requests that are stored; their effect on the
  queue is at most one \<open>Enqueue\<close> of an item that no one else has; and they leave the key manager alone.
\<close>

section \<open>Single writes\<close>

text \<open>The limits of a key come from an \<open>int\<close> of Go and stay in its range.\<close>

definition in_range_write :: "db_write \<Rightarrow> bool" where
  "in_range_write w \<longleftrightarrow> (case w of CreateAPIKeyCall k \<Rightarrow> limits_ok k | _ \<Rightarrow> True)"

definition db_step :: "database \<Rightarrow> database \<Rightarrow> bool" where
  "db_step d d' \<longleftrightarrow> (\<exists>io now w. in_range_write w \<and> d' = fst (exec_write io now w d))"

abbreviation db_path :: "database \<Rightarrow> database \<Rightarrow> bool" where
  "db_path \<equiv> db_step\<^sup>*\<^sup>*"

definition db_inv :: "database \<Rightarrow> bool" where
  "db_inv d \<longleftrightarrow> db_ok d \<and> key_limits_ok d"

lemma db_stepI: "in_range_write w \<Longrightarrow> db_step d (fst (exec_write io now w d))"
  by (auto simp: db_step_def)

lemma db_step_calls:
  "limits_ok k \<Longrightarrow> db_step d (fst (CreateAPIKey io now k d))"
  "db_step d (fst (UpdateAPIKeyWeight io now i n d))"
  "db_step d (fst (UpdateAPIKeyHealth io now i h n s d))"
  "db_step d (fst (UpdateAPIKeyLastUsed io now i d))"
  "db_step d (fst (DeleteAPIKey io i d))"
  "db_step d (fst (ResetAPIKeyCircuit io now i d))"
  "db_step d (fst (CreateRequest io now r d))"
  "db_step d (fst (UpdateRequestStatus io now i s i2 n d))"
  "db_step d (fst (UpdateRequestResult io now i s c b err t d))"
  "db_step d (fst (CreateKeyEvent io now ev d))"
  "db_step d (fst (UpdateSystemConfig io k' v d))"
  using db_stepI [of "CreateAPIKeyCall k" d io now] db_stepI [of "UpdateAPIKeyWeightCall i n" d io now]
    db_stepI [of "UpdateAPIKeyHealthCall i h n s" d io now] db_stepI [of "UpdateAPIKeyLastUsedCall i" d io now]
    db_stepI [of "DeleteAPIKeyCall i" d io now] db_stepI [of "ResetAPIKeyCircuitCall i" d io now]
    db_stepI [of "CreateRequestCall r" d io now] db_stepI [of "UpdateRequestStatusCall i s i2 n" d io now]
    db_stepI [of "UpdateRequestResultCall i s c b err t" d io now] db_stepI [of "CreateKeyEventCall ev" d io now]
    db_stepI [of "UpdateSystemConfigCall k' v" d io now]
  by (simp_all add: in_range_write_def)

lemmas db_path_call = r_into_rtranclp [of db_step, OF db_step_calls(1)]
  db_step_calls(2-) [THEN r_into_rtranclp [of db_step]]

text \<open>The invariant of the database.\<close>

lemma key_limits_write:
  assumes "key_limits_ok d" and "in_range_write w"
  shows "key_limits_ok (fst (exec_write io now w d))"
proof (cases io)
  case (Some err)
  with assms show ?thesis by (cases w) (simp_all add: key_write_defs other_write_defs)
next
  case None
  then show ?thesis
  proof (cases w)
    case (CreateAPIKeyCall k)
    with assms None show ?thesis
      by (auto simp: CreateAPIKey_def key_limits_ok_def in_range_write_def limits_ok_def)
  qed (use assms None in \<open>auto simp: key_write_defs other_write_defs key_limits_ok_def update_where_def set_key_def\<close>)
qed

lemma db_step_inv: "db_step d d' \<Longrightarrow> db_inv d \<Longrightarrow> db_inv d'"
  by (auto simp: db_step_def db_inv_def exec_write_ok key_limits_write)

lemma db_path_inv: "db_path d d' \<Longrightarrow> db_inv d \<Longrightarrow> db_inv d'"
  by (induction rule: rtranclp_induct) (auto simp: db_step_inv)

lemma db_path_trans: "db_path d d1 \<Longrightarrow> db_path d1 d2 \<Longrightarrow> db_path d d2"
  by (rule rtranclp_trans)

section \<open>Writes that keep the requests\<close>

text \<open>
  Only \<open>UpdateRequestStatus\<close> and \<open>UpdateRequestResult\<close> change the row of a request; all other
  writes leave the rows that there are as they are.
\<close>

definition keeps_requests :: "db_write \<Rightarrow> bool" where
  "keeps_requests w \<longleftrightarrow>
     (case w of UpdateRequestStatusCall i st k n \<Rightarrow> False | UpdateRequestResultCall i st c b err t \<Rightarrow> False
      | _ \<Rightarrow> True)"

definition keep_step :: "database \<Rightarrow> database \<Rightarrow> bool" where
  "keep_step d d' \<longleftrightarrow> (\<exists>io now w. in_range_write w \<and> keeps_requests w \<and> d' = fst (exec_write io now w d))"

abbreviation keep_path :: "database \<Rightarrow> database \<Rightarrow> bool" where
  "keep_path \<equiv> keep_step\<^sup>*\<^sup>*"

lemma keep_stepI: "in_range_write w \<Longrightarrow> keeps_requests w \<Longrightarrow> keep_step d (fst (exec_write io now w d))"
  by (auto simp: keep_step_def)

lemma keep_step_calls:
  "limits_ok k \<Longrightarrow> keep_step d (fst (CreateAPIKey io now k d))"
  "keep_step d (fst (UpdateAPIKeyWeight io now i n d))"
  "keep_step d (fst (UpdateAPIKeyHealth io now i h n s d))"
  "keep_step d (fst (UpdateAPIKeyLastUsed io now i d))"
  "keep_step d (fst (DeleteAPIKey io i d))"
  "keep_step d (fst (ResetAPIKeyCircuit io now i d))"
  "keep_step d (fst (CreateRequest io now r d))"
  "keep_step d (fst (CreateKeyEvent io now ev d))"
  "keep_step d (fst (UpdateSystemConfig io k' v d))"
  using keep_stepI [of "CreateAPIKeyCall k" d io now] keep_stepI [of "UpdateAPIKeyWeightCall i n" d io now]
    keep_stepI [of "UpdateAPIKeyHealthCall i h n s" d io now] keep_stepI [of "UpdateAPIKeyLastUsedCall i" d io now]
    keep_stepI [of "DeleteAPIKeyCall i" d io now] keep_stepI [of "ResetAPIKeyCircuitCall i" d io now]
    keep_stepI [of "CreateRequestCall r" d io now] keep_stepI [of "CreateKeyEventCall ev" d io now]
    keep_stepI [of "UpdateSystemConfigCall k' v" d io now]
  by (simp_all add: in_range_write_def keeps_requests_def)

lemmas keep_path_call = r_into_rtranclp [of keep_step, OF keep_step_calls(1)]
  keep_step_calls(2-) [THEN r_into_rtranclp [of keep_step]]

lemma keep_step_db_step: "keep_step d d' \<Longrightarrow> db_step d d'"
  by (auto simp: keep_step_def db_step_def)

lemma keep_path_db_path: "keep_path d d' \<Longrightarrow> db_path d d'"
  by (rule mono_rtranclp [rule_format, of keep_step db_step]) (simp_all add: keep_step_db_step)

lemma keep_step_row:
  assumes "keep_step d d'" and "request_row d i = Some r"
  shows "request_row d' i = Some r"
proof -
  obtain io now w where w: "keeps_requests w" "d' = fst (exec_write io now w d)"
    using assms(1) by (auto simp: keep_step_def)
  show ?thesis
  proof (cases w)
    case (CreateRequestCall r')
    obtain d1 err where c: "CreateRequest io now r' d = (d1, err)" by fastforce
    with CreateRequest_row(2) [OF c, of i] assms(2) w CreateRequestCall show ?thesis by simp
  qed (use assms(2) w in \<open>auto simp: keeps_requests_def key_write_defs CreateKeyEvent_def UpdateSystemConfig_def
      request_row_def split: option.splits\<close>)
qed

lemma keep_path_row: "keep_path d d' \<Longrightarrow> request_row d i = Some r \<Longrightarrow> request_row d' i = Some r"
  by (induction rule: rtranclp_induct) (auto intro: keep_step_row)

section \<open>The handlers\<close>

definition writes_only :: "(server \<Rightarrow> server \<times> reply) \<Rightarrow> bool" where
  "writes_only h \<longleftrightarrow> (\<forall>sv. keep_path (sv_db sv) (sv_db (fst (h sv))) \<and>
     sv_queue (fst (h sv)) = sv_queue sv \<and> sv_mgr (fst (h sv)) = sv_mgr sv)"

lemma writes_only_const: "writes_only (\<lambda>sv. (sv, rep))"
  by (simp add: writes_only_def)

lemma writes_only_if: "writes_only h1 \<Longrightarrow> writes_only h2 \<Longrightarrow> writes_only (\<lambda>sv. if b then h1 sv else h2 sv)"
  by (simp add: writes_only_def)

lemma writes_only_sum:
  "(\<And>x. s = Inl x \<Longrightarrow> writes_only (h1 x)) \<Longrightarrow> (\<And>y. s = Inr y \<Longrightarrow> writes_only (h2 y)) \<Longrightarrow>
   writes_only (\<lambda>sv. case s of Inl x \<Rightarrow> h1 x sv | Inr y \<Rightarrow> h2 y sv)"
  by (cases s) simp_all

lemma writes_only_option:
  "writes_only h1 \<Longrightarrow> (\<And>y. writes_only (h2 y)) \<Longrightarrow>
   writes_only (\<lambda>sv. case s of None \<Rightarrow> h1 sv | Some y \<Rightarrow> h2 y sv)"
  by (cases s) simp_all

lemma writes_only_write:
  "(\<And>d. keep_path d (fst (op d))) \<Longrightarrow>
   writes_only (\<lambda>sv. (sv\<lparr>sv_db := fst (op (sv_db sv))\<rparr>, case snd (op (sv_db sv)) of None \<Rightarrow> a | Some x \<Rightarrow> b x))"
  by (simp add: writes_only_def)

lemmas writes_only_intros = writes_only_const writes_only_if writes_only_sum writes_only_option writes_only_write

lemma update_config_loop_path: "keep_path d (fst (update_config_loop io n m d))"
proof (induction io n m d rule: update_config_loop.induct)
  case (2 io n k v rest d)
  obtain d' err where u: "UpdateSystemConfig (io n) k v d = (d', err)" by fastforce
  then have "keep_step d d'" using keep_step_calls(9) [of d "io n" k v] by simp
  with u 2 show ?case by (cases err) (auto intro: converse_rtranclp_into_rtranclp)
qed simp

text \<open>The integers of a decoded key are in range, and so are the defaults.\<close>

lemma into_struct_keeps:
  assumes "into_struct fs ms b = Inr b'" and "P b"
    and "\<And>f b v b'. f \<in> set fs \<Longrightarrow> P b \<Longrightarrow> snd f b v = Inr b' \<Longrightarrow> P b'"
  shows "P b'"
  using assms(1,2)
proof (induction ms arbitrary: b)
  case (Cons m ms)
  obtain name v where m: "m = (name, v)" by (cases m)
  with Cons.prems(1) obtain f where f: "find_field fs name = Some f" by (auto split: option.splits)
  then have mem: "f \<in> set fs" by (auto simp: find_field_def find_Some_iff split: option.splits)
  obtain b1 where b1: "snd f b v = Inr b1" and rest: "into_struct fs ms b1 = Inr b'"
    using Cons.prems(1) m f by (cases f) (auto split: sum.splits)
  have "P b1" by (rule assms(3) [OF mem Cons.prems(2) b1])
  with Cons.IH [OF rest] show ?case .
qed simp

definition body_in_range :: "key_body \<Rightarrow> bool" where
  "body_in_range b \<longleftrightarrow> in_i64 (kb_RateLimitPerMinute b) \<and> in_i64 (kb_RateLimitPerDay b) \<and>
     in_i64 (kb_ConcurrentLimit b)"

lemma decoded_key_in_range:
  assumes "decodeJSON e (decode_struct key_fields empty_key_body) text = Inr b"
  shows "body_in_range b"
proof -
  have zero: "body_in_range empty_key_body"
    by (simp add: body_in_range_def empty_key_body_def in_i64_def)
  have step: "body_in_range b'"
    if "f \<in> set key_fields" "body_in_range b" "snd f b v = Inr b'" for f b v b'
    using that Atoi_in_range
    by (auto simp: key_fields_def body_in_range_def into_string_def into_int_def
        split: json.splits option.splits)
  have "body_in_range b" if "into_struct key_fields ms empty_key_body = Inr b" for ms
    by (rule into_struct_keeps [where P = body_in_range, OF that zero]) (rule step)
  with assms zero show ?thesis
    by (auto simp: decodeJSON_def decode_struct_def split: option.splits json.splits)
qed

lemma new_key_limits: "body_in_range b \<Longrightarrow> limits_ok (new_key e c (key_defaults b))"
  by (simp add: body_in_range_def limits_ok_def new_key_def key_defaults_def in_i64_def)

lemma writes_only_handlers:
  "writes_only HealthCheck" "writes_only (GetRequestStatus e r)" "writes_only (ListKeys e r)"
  "writes_only (PoolHealth r)" "writes_only (GetConfig e r)" "writes_only (AddKey e cfg r)"
  "writes_only (DeleteKey e r)" "writes_only (UpdateKeyWeight e r)" "writes_only (ResetKeyCircuit e r)"
  "writes_only (UpdateConfig e r)"
proof -
  show "writes_only HealthCheck" "writes_only (GetRequestStatus e r)" "writes_only (ListKeys e r)"
    "writes_only (PoolHealth r)" "writes_only (GetConfig e r)"
    by (auto simp: writes_only_def HealthCheck_def GetRequestStatus_def ListKeys_def PoolHealth_def
        GetConfig_def Let_def split: sum.splits)
  show "writes_only (AddKey e cfg r)"
    unfolding AddKey_def Let_def logged_aborts case_write
    by (intro writes_only_intros keep_path_call new_key_limits decoded_key_in_range)
  show "writes_only (DeleteKey e r)" "writes_only (UpdateKeyWeight e r)" "writes_only (ResetKeyCircuit e r)"
    "writes_only (UpdateConfig e r)"
    unfolding DeleteKey_def UpdateKeyWeight_def ResetKeyCircuit_def UpdateConfig_def
      Let_def logged_aborts case_write
    by (intro writes_only_intros keep_path_call update_config_loop_path)+
qed

section \<open>Submissions\<close>

text \<open>Every item refers to a stored request, and no write removes a request.\<close>

definition item_request :: "queue \<Rightarrow> item_ref \<Rightarrow> string" where
  "item_request q x = it_RequestID (pq_heap (q_pq q) x)"

lemma exec_write_keeps_rows:
  "request_row d i \<noteq> None \<Longrightarrow> request_row (fst (exec_write io now w d)) i \<noteq> None"
proof -
  assume row: "request_row d i \<noteq> None"
  show ?thesis
  proof (cases io)
    case (Some err)
    with row show ?thesis by (cases w) (simp_all add: key_write_defs other_write_defs)
  next
    case None
    then show ?thesis
    proof (cases w)
      case (CreateRequestCall r)
      obtain d' err where c: "CreateRequest io now r d = (d', err)" by fastforce
      from CreateRequest_row(2) [OF c row] row show ?thesis by (simp add: CreateRequestCall c)
    next
      case (UpdateRequestStatusCall j st k n)
      with row None show ?thesis by (simp add: UpdateRequestStatus_def request_row_update)
    next
      case (UpdateRequestResultCall j st c b err t)
      with row None show ?thesis by (simp add: UpdateRequestResult_def request_row_update)
    qed (use row None in \<open>simp_all add: key_write_defs other_write_defs request_row_def\<close>)
  qed
qed

lemma db_path_keeps_rows: "db_path d d' \<Longrightarrow> request_row d i \<noteq> None \<Longrightarrow> request_row d' i \<noteq> None"
proof (induction rule: rtranclp_induct)
  case (step y z)
  from step(2) obtain io now w where "z = fst (exec_write io now w y)" by (auto simp: db_step_def)
  with step(3,4) exec_write_keeps_rows show ?case by simp
qed

lemma Enqueue_effect:
  assumes "q_inv q" and "x \<notin> contents q" and "Enqueue q x = (q', res)"
  shows "q_inv q'" and "contents q' \<subseteq> insert x (contents q)" and "item_request q' = item_request q"
    and "res \<noteq> QPanic" and "q_maxSize q' = q_maxSize q"
    and "\<not> is_full q \<Longrightarrow> \<not> q_closed q \<Longrightarrow> contents q' = insert x (contents q)"
proof -
  have ok: "enqueue_ok q x q' res" using assms by (rule Enqueue_ok)
  then have spec: "enqueue_spec q x res (contents q')" and "q_inv q'"
      and same: "same_but_index (q_pq q) (q_pq q')" by (simp_all add: enqueue_ok_def)
  then show "q_inv q'" by simp
  show "contents q' \<subseteq> insert x (contents q)" "res \<noteq> QPanic"
    using spec by (auto simp: enqueue_spec_def split: if_splits)
  show "contents q' = insert x (contents q)" if "\<not> is_full q" "\<not> q_closed q"
    using spec that by (simp add: enqueue_spec_def)
  show "item_request q' = item_request q"
    by (rule ext) (simp add: item_request_def same_but_index_item(1) [OF same])
  show "q_maxSize q' = q_maxSize q" using assms(3)
    by (auto simp: Enqueue_def push_and_notify_def Let_def split: if_splits option.splits prod.splits)
qed

text \<open>What a handler may do to the shared state, when \<open>x\<close> is the reference at which it allocates.\<close>

definition handler_effect :: "item_ref \<Rightarrow> server \<Rightarrow> server \<Rightarrow> bool" where
  "handler_effect x sv sv' \<longleftrightarrow> keep_path (sv_db sv) (sv_db sv') \<and> sv_mgr sv' = sv_mgr sv \<and>
     q_inv (sv_queue sv') \<and> q_maxSize (sv_queue sv') = q_maxSize (sv_queue sv) \<and>
     contents (sv_queue sv') \<subseteq> insert x (contents (sv_queue sv)) \<and>
     (\<not> is_full (sv_queue sv) \<and> \<not> q_closed (sv_queue sv) \<longrightarrow> contents (sv_queue sv) \<subseteq> contents (sv_queue sv')) \<and>
     (\<forall>y. y \<noteq> x \<longrightarrow> item_request (sv_queue sv') y = item_request (sv_queue sv) y) \<and>
     (x \<in> contents (sv_queue sv') \<longrightarrow> request_row (sv_db sv) (item_request (sv_queue sv') x) = None \<and>
        request_row (sv_db sv') (item_request (sv_queue sv') x) \<noteq> None)"

lemma handler_effect_writes:
  "writes_only h \<Longrightarrow> q_inv (sv_queue sv) \<Longrightarrow> x \<notin> contents (sv_queue sv) \<Longrightarrow>
   handler_effect x sv (fst (h sv))"
  by (auto simp: writes_only_def handler_effect_def)

lemma save_and_enqueue_effect:
  assumes "q_inv (sv_queue sv)" and "ae_ref e \<notin> contents (sv_queue sv)"
  shows "handler_effect (ae_ref e) sv (fst (save_and_enqueue e req sv))"
proof -
  obtain d err where cr: "CreateRequest (ae_io e 1) (ae_now e) req (sv_db sv) = (d, err)" by fastforce
  then have path: "keep_path (sv_db sv) d" using keep_path_call(7) [of "sv_db sv"] by (metis fst_conv)
  let ?q = "alloc_item (ae_ref e) (new_item e req) (sv_queue sv)"
  obtain q res where enq: "Enqueue ?q (ae_ref e) = (q, res)" by fastforce
  show ?thesis
  proof (cases err)
    case (Some er)
    with cr path assms show ?thesis by (simp add: save_and_enqueue_def handler_effect_def subset_insertI)
  next
    case None
    have q: "q_inv ?q" "ae_ref e \<notin> contents ?q" using alloc_item_inv [OF assms] assms(2) by simp_all
    have "item_request ?q y = (if y = ae_ref e then rq_ID req else item_request (sv_queue sv) y)"
        "q_maxSize ?q = q_maxSize (sv_queue sv)" "is_full ?q = is_full (sv_queue sv)" for y
      by (simp_all add: item_request_def alloc_item_def new_item_def is_full_def)
    moreover have "request_row d (rq_ID req) \<noteq> None" using CreateRequest_row(1) [OF cr None] by simp
    moreover have "request_row (sv_db sv) (rq_ID req) = None"
    proof -
      have "rq_ID req \<notin> rq_ID ` set (db_requests (sv_db sv))"
        using cr None by (auto simp: CreateRequest_def split: option.splits if_splits)
      then show ?thesis by (auto simp: request_row_def find_None_iff intro: rev_image_eqI)
    qed
    ultimately show ?thesis
      using cr enq None path Enqueue_effect [OF q enq]
      by (simp add: save_and_enqueue_def handler_effect_def subset_insertI)
  qed
qed

lemma SubmitRequest_effect:
  assumes "q_inv (sv_queue sv)" and "ae_ref e \<notin> contents (sv_queue sv)"
  shows "handler_effect (ae_ref e) sv (fst (SubmitRequest e r sv))"
proof -
  obtain sv' rep where s: "SubmitRequest e r sv = (sv', rep)" by fastforce
  then show ?thesis
  proof (cases rule: SubmitRequest_cases)
    case refused
    with s assms show ?thesis by (simp add: handler_effect_def subset_insertI)
  next
    case (saved b0 b)
    with s save_and_enqueue_effect [OF assms] show ?thesis by (metis fst_conv)
  qed
qed

lemma serve_effect:
  assumes "q_inv (sv_queue sv)" and "ae_ref e \<notin> contents (sv_queue sv)"
  shows "handler_effect (ae_ref e) sv (fst (serve e cfg r sv))"
proof -
  note writes = handler_effect_writes [OF _ assms]
  note handlers = writes_only_handlers [THEN writes] writes [OF writes_only_const]
  have route: "handler_effect (ae_ref e) sv (fst (handle_route e cfg r rt sv))" for rt
    using handlers SubmitRequest_effect [OF assms] 
    by (cases rt) (simp_all add: routeAdminKeys_def routeAdminKeysList_def routeAdminConfig_def)
  show ?thesis
    using route handlers(11) by (simp add: serve_def split: option.split)
qed

section \<open>The events of a key\<close>

lemma m_logKeyEvent_step: "keep_step d (m_logKeyEvent io now i t msg d)"
  unfolding m_logKeyEvent_def by (rule keep_step_calls)

end
