(* ===== verification/Worker_Steps.thy ===== *)
theory Worker_Steps
  imports Key_Updates Shared_State
begin

text \<open>
  \<open>processItem\<close> of \<^verbatim>\<open>internal/worker/worker.go\<close> at the granularity of its accesses to shared data.
  Between two accesses a worker is at one of the points of \<open>worker_pc\<close>, with the local variables it
  has there; its next access is one step of \<open>work_step\<close>. Undisturbed, the steps are the function
  \<open>processItem\<close>; with any number of workers beside each other they keep the invariants that the
  last section states for one step.
\<close>

section \<open>The points of a worker and its steps\<close>

text \<open>What the attempt gave: the text of a decryption error, or the answer of the HTTP client.\<close>

datatype outcome = Undecrypted string | Answered "string + http_response"

datatype worker_pc =
    Waiting
  | Stopped
  | Loading item_ref
  | Locking item_ref request
  | Choosing item_ref request getter
  | Starting item_ref request key_ref
  | Calling item_ref request key_ref
  | Giving item_ref request key_ref outcome
  | Marking item_ref request key_ref outcome marking
  | Deciding item_ref request string
  | Delaying item_ref request int
  | Storing item_ref request string int string string

definition success_status :: "http_response \<Rightarrow> bool" where
  "success_status resp \<longleftrightarrow> 200 \<le> hp_StatusCode resp \<and> hp_StatusCode resp < 300"

definition retry_status :: "http_response \<Rightarrow> bool" where
  "retry_status resp \<longleftrightarrow> hp_StatusCode resp = 429 \<or> 500 \<le> hp_StatusCode resp"

text \<open>After the release: which mark, and what follows it.\<close>

fun after_release :: "item_ref \<Rightarrow> request \<Rightarrow> key_ref \<Rightarrow> outcome \<Rightarrow> worker_pc" where
  "after_release x req k (Undecrypted msg) = Deciding x req msg"
| "after_release x req k (Answered (Inl err)) = Marking x req k (Answered (Inl err)) FailStart"
| "after_release x req k (Answered (Inr resp)) =
     Marking x req k (Answered (Inr resp))
       (if success_status resp then SuccessStart else if retry_status resp then FailStart else SuccessStart)"

fun after_mark :: "item_ref \<Rightarrow> request \<Rightarrow> outcome \<Rightarrow> worker_pc" where
  "after_mark x req (Undecrypted msg) = Deciding x req msg"
| "after_mark x req (Answered (Inl err)) = Deciding x req err"
| "after_mark x req (Answered (Inr resp)) =
     (if success_status resp then Storing x req RequestStatusSuccess (hp_StatusCode resp) (hp_Body resp) ''''
      else if retry_status resp then Deciding x req (hp_Body resp)
      else Storing x req RequestStatusFailed (hp_StatusCode resp) (hp_Body resp) '''')"

text \<open>
  \<open>e\<close> holds what this access gets from outside, \<open>t\<close> the clock reading of \<open>GetKey\<close>'s accesses;
  \<open>None\<close> is the panic on a missing strategy.
\<close>

fun work_step ::
  "work_env \<Rightarrow> time \<Rightarrow> (item_ref \<Rightarrow> item) \<Rightarrow> worker_pc \<Rightarrow> world \<Rightarrow> (worker_pc \<times> world) option" where
  "work_step e t heap Waiting w = Some (Waiting, w)"
| "work_step e t heap Stopped w = Some (Stopped, w)"
| "work_step e t heap (Loading x) w =
     (case GetRequest (we_load e) (it_RequestID (heap x)) (w_db w) of
        Inl err \<Rightarrow> Some (Waiting, w)
      | Inr req \<Rightarrow> Some (if terminal req then Waiting else Locking x req, w))"
| "work_step e t heap (Locking x req) w = Some (Choosing x req (get_start (w_mgr w)), w)"
| "work_step e t heap (Choosing x req g) w =
     (case g of
        Returning NilStrategy \<Rightarrow> None
      | Returning NoKey \<Rightarrow> Some (Delaying x req 0, w)
      | Returning (GotKey k) \<Rightarrow> Some (Starting x req k, w)
      | _ \<Rightarrow> let (g', m) = get_step t g (w_mgr w) in Some (Choosing x req g', w\<lparr>w_mgr := m\<rparr>))"
| "work_step e t heap (Starting x req k) w =
     Some (Calling x req k,
       w\<lparr>w_db := fst (UpdateRequestStatus (we_status_io e) (we_now e) (rq_ID req)
           RequestStatusProcessing (pk_ID (m_store (w_mgr w) k)) (i64 (rq_Attempts req + 1)) (w_db w))\<rparr>)"
| "work_step e t heap (Calling x req k) w =
     Some (case Decrypt (we_open e) (pk_KeyEncrypted (m_store (w_mgr w) k)) (we_encKey e) of
             Inl err \<Rightarrow> (Giving x req k (Undecrypted (''decryption failed: '' @ we_crypto_text e err)), w)
           | Inr decryptedKey \<Rightarrow>
               let httpReq = http_request_of e req decryptedKey
               in (Giving x req k (Answered (we_client e httpReq)), w\<lparr>w_calls := w_calls w @ [httpReq]\<rparr>))"
| "work_step e t heap (Giving x req k oc) w = Some (after_release x req k oc, release_key k w)"
| "work_step e t heap (Marking x req k oc mk) w =
     (if mk = Marked then Some (after_mark x req oc, w)
      else let (mk', m, d) = mark_step (we_mark_io e) (we_now e) k (mk, w_mgr w, w_db w)
           in Some (Marking x req k oc mk', w\<lparr>w_mgr := m, w_db := d\<rparr>))"
| "work_step e t heap (Deciding x req msg) w =
     (let attempts = i64 (rq_Attempts req + 1)
      in Some (if ShouldRetry attempts (we_hot e) then Delaying x req (i64 (attempts - 1))
               else Storing x req RequestStatusFailed 0 '''' msg, w))"
| "work_step e t heap (Delaying x req n) w =
     Some (Waiting, delayedEnqueue x (rq_ID req) (CalculateBackoff (we_rand e) n (we_hot e)) w)"
| "work_step e t heap (Storing x req status code body err) w =
     Some (Waiting, persistResult e (rq_ID req) status code body err w)"

section \<open>An undisturbed worker runs processItem\<close>

text \<open>What is left of \<open>processItem\<close> at each point.\<close>

definition settle :: "work_env \<Rightarrow> item_ref \<Rightarrow> request \<Rightarrow> outcome \<Rightarrow> world \<Rightarrow> world" where
  "settle e x req oc w =
     (case oc of
        Undecrypted msg \<Rightarrow> handleFailure e x req msg w
      | Answered (Inl err) \<Rightarrow> handleFailure e x req err w
      | Answered (Inr resp) \<Rightarrow>
          if success_status resp
          then persistResult e (rq_ID req) RequestStatusSuccess (hp_StatusCode resp) (hp_Body resp) '''' w
          else if retry_status resp then handleFailure e x req (hp_Body resp) w
          else persistResult e (rq_ID req) RequestStatusFailed (hp_StatusCode resp) (hp_Body resp) '''' w)"

definition marks_done :: "work_env \<Rightarrow> key_ref \<Rightarrow> marking \<Rightarrow> world \<Rightarrow> world" where
  "marks_done e k mk w =
     (let (_, m, d) = mark_rest (we_mark_io e) (we_now e) k (mk, w_mgr w, w_db w) in w\<lparr>w_mgr := m, w_db := d\<rparr>)"

definition conclude :: "work_env \<Rightarrow> item_ref \<Rightarrow> request \<Rightarrow> key_ref \<Rightarrow> outcome \<Rightarrow> world \<Rightarrow> world" where
  "conclude e x req k oc w =
     (case oc of Undecrypted msg \<Rightarrow> handleFailure e x req msg w | Answered res \<Rightarrow> handle_result e x req k res w)"

definition call_client :: "work_env \<Rightarrow> item_ref \<Rightarrow> request \<Rightarrow> key_ref \<Rightarrow> world \<Rightarrow> world" where
  "call_client e x req k w =
     (case Decrypt (we_open e) (pk_KeyEncrypted (m_store (w_mgr w) k)) (we_encKey e) of
        Inl err \<Rightarrow> handleFailure e x req (''decryption failed: '' @ we_crypto_text e err) (release_key k w)
      | Inr decryptedKey \<Rightarrow>
          let httpReq = http_request_of e req decryptedKey
          in handle_result e x req k (we_client e httpReq) (release_key k (w\<lparr>w_calls := w_calls w @ [httpReq]\<rparr>)))"

definition got_key :: "work_env \<Rightarrow> item_ref \<Rightarrow> request \<Rightarrow> get_result \<Rightarrow> world \<Rightarrow> world option" where
  "got_key e x req got w =
     (case got of
        NilStrategy \<Rightarrow> None
      | NoKey \<Rightarrow> Some (requeueWithDelay e x req w)
      | GotKey k \<Rightarrow> Some (use_key e x req k w))"

fun w_finish ::
  "(nat \<Rightarrow> time) \<Rightarrow> (nat \<Rightarrow> time) \<Rightarrow> work_env \<Rightarrow> (item_ref \<Rightarrow> item) \<Rightarrow> worker_pc \<Rightarrow> world \<Rightarrow> world option" where
  "w_finish ac rc e heap Waiting w = Some w"
| "w_finish ac rc e heap Stopped w = Some w"
| "w_finish ac rc e heap (Loading x) w =
     processItem (e\<lparr>we_allow_clk := ac, we_rate_clk := rc\<rparr>) x (heap x) w"
| "w_finish ac rc e heap (Locking x req) w =
     (let (m, got) = GetKey ac rc (w_mgr w) in got_key e x req got (w\<lparr>w_mgr := m\<rparr>))"
| "w_finish ac rc e heap (Choosing x req g) w =
     (let (m, got) = finish ac rc g (w_mgr w) in got_key e x req got (w\<lparr>w_mgr := m\<rparr>))"
| "w_finish ac rc e heap (Starting x req k) w = Some (use_key e x req k w)"
| "w_finish ac rc e heap (Calling x req k) w = Some (call_client e x req k w)"
| "w_finish ac rc e heap (Giving x req k oc) w = Some (conclude e x req k oc (release_key k w))"
| "w_finish ac rc e heap (Marking x req k oc mk) w = Some (settle e x req oc (marks_done e k mk w))"
| "w_finish ac rc e heap (Deciding x req msg) w = Some (handleFailure e x req msg w)"
| "w_finish ac rc e heap (Delaying x req n) w =
     Some (delayedEnqueue x (rq_ID req) (CalculateBackoff (we_rand e) n (we_hot e)) w)"
| "w_finish ac rc e heap (Storing x req status code body err) w =
     Some (persistResult e (rq_ID req) status code body err w)"

text \<open>The rest does not depend on the clocks of \<open>GetKey\<close>.\<close>

lemma accesses_clocks [simp]:
  "persistResult (e\<lparr>we_allow_clk := ac, we_rate_clk := rc\<rparr>) = persistResult e"
  "w_MarkSuccess (e\<lparr>we_allow_clk := ac, we_rate_clk := rc\<rparr>) = w_MarkSuccess e"
  "w_MarkFailed (e\<lparr>we_allow_clk := ac, we_rate_clk := rc\<rparr>) = w_MarkFailed e"
  "http_request_of (e\<lparr>we_allow_clk := ac, we_rate_clk := rc\<rparr>) = http_request_of e"
  "requeueWithDelay (e\<lparr>we_allow_clk := ac, we_rate_clk := rc\<rparr>) = requeueWithDelay e"
  by (intro ext, simp add: persistResult_def w_MarkSuccess_def w_MarkFailed_def http_request_of_def
      requeueWithDelay_def cong: option.case_cong)+

lemma handlers_clocks [simp]:
  "handleFailure (e\<lparr>we_allow_clk := ac, we_rate_clk := rc\<rparr>) = handleFailure e"
  "handleSuccess (e\<lparr>we_allow_clk := ac, we_rate_clk := rc\<rparr>) = handleSuccess e"
  by (intro ext, simp add: handleFailure_def handleSuccess_def Let_def)+

lemma use_key_clocks [simp]: "use_key (e\<lparr>we_allow_clk := ac, we_rate_clk := rc\<rparr>) x req k w = use_key e x req k w"
proof -
  have "handle_result (e\<lparr>we_allow_clk := ac, we_rate_clk := rc\<rparr>) = handle_result e"
    by (intro ext) (simp add: handle_result_def split: sum.split)
  then show ?thesis by (simp add: use_key_def Let_def split: sum.split)
qed

lemma processItem_clocks:
  "processItem (e\<lparr>we_allow_clk := ac, we_rate_clk := rc\<rparr>) x it w =
     (case GetRequest (we_load e) (it_RequestID it) (w_db w) of
        Inl err \<Rightarrow> Some w
      | Inr req \<Rightarrow>
          if terminal req then Some w
          else let (m, got) = GetKey ac rc (w_mgr w) in got_key e x req got (w\<lparr>w_mgr := m\<rparr>))"
  by (simp add: processItem_def terminal_def got_key_def Let_def split_beta
      split: sum.split get_result.split)

fun w_reading :: "(nat \<Rightarrow> time) \<Rightarrow> (nat \<Rightarrow> time) \<Rightarrow> worker_pc \<Rightarrow> time" where
  "w_reading ac rc (Choosing x req g) = reading ac rc g"
| "w_reading ac rc pc = 0"

fun w_later :: "(nat \<Rightarrow> time) \<Rightarrow> worker_pc \<Rightarrow> nat \<Rightarrow> time" where
  "w_later ac (Choosing x req g) = later ac g"
| "w_later ac pc = ac"

definition idle :: "worker_pc \<Rightarrow> bool" where
  "idle pc \<longleftrightarrow> pc = Waiting \<or> pc = Stopped"

lemma conclude_after_release:
  "Some (conclude e x req k oc w) = w_finish ac rc e heap (after_release x req k oc) w"
proof (cases oc)
  case (Answered res)
  then show ?thesis
    by (cases res) (auto simp: conclude_def handle_result_def handleSuccess_def settle_def marks_done_def
        mark_rest_methods w_MarkSuccess_def w_MarkFailed_def success_status_def retry_status_def Let_def split_beta)
qed (simp add: conclude_def)

lemma settle_after_mark: "Some (settle e x req oc w) = w_finish ac rc e heap (after_mark x req oc) w"
  by (cases "(x, req, oc)" rule: after_mark.cases) (simp_all add: settle_def)

lemma marks_done_step:
  assumes "mark_step (we_mark_io e) (we_now e) k (mk, w_mgr w, w_db w) = (mk', m, d)"
  shows "marks_done e k mk w = marks_done e k mk' (w\<lparr>w_mgr := m, w_db := d\<rparr>)"
  using mark_rest_step [of "we_mark_io e" "we_now e" k mk "w_mgr w" "w_db w"] assms
  by (simp add: marks_done_def Let_def split_beta)

lemma marks_done_Marked [simp]: "marks_done e k Marked w = w"
  by (simp add: marks_done_def)

lemma use_key_calls:
  "use_key e x req k w = call_client e x req k
     (w\<lparr>w_db := fst (UpdateRequestStatus (we_status_io e) (we_now e) (rq_ID req)
         RequestStatusProcessing (pk_ID (m_store (w_mgr w) k)) (i64 (rq_Attempts req + 1)) (w_db w))\<rparr>)"
  by (simp add: use_key_def call_client_def Let_def split: sum.split)

lemma choosing_step:
  assumes "\<forall>r. g \<noteq> Returning r"
  shows "work_step e t heap (Choosing x req g) w =
    (let (g', m) = get_step t g (w_mgr w) in Some (Choosing x req g', w\<lparr>w_mgr := m\<rparr>))"
  using assms by (cases g) simp_all

lemma w_finish_step:
  assumes "\<not> idle pc"
  shows "w_finish ac rc e heap pc w =
    Option.bind (work_step e (w_reading ac rc pc) heap pc w) (\<lambda>(pc', w'). w_finish (w_later ac pc) rc e heap pc' w')"
proof (cases pc)
  case (Choosing x req g)
  show ?thesis
  proof (cases "\<exists>r. g = Returning r")
    case True
    then obtain r where "g = Returning r" by blast
    with Choosing show ?thesis by (cases r) (simp_all add: got_key_def requeueWithDelay_def)
  next
    case False
    with Choosing choosing_step [of g] finish_step [of ac rc g "w_mgr w"] show ?thesis
      by (simp add: Let_def split_beta)
  qed
next
  case (Marking x req k oc mk)
  obtain mk' m d where "mark_step (we_mark_io e) (we_now e) k (mk, w_mgr w, w_db w) = (mk', m, d)"
    by (metis prod_cases3)
  with marks_done_step [OF this] Marking settle_after_mark [of e x req oc w] show ?thesis by auto
next
  case (Giving x req k oc)
  with conclude_after_release [of e x req k oc "release_key k w"] show ?thesis by simp
next
  case (Calling x req k)
  then show ?thesis
    by (simp add: call_client_def conclude_def Let_def split: sum.split)
qed (use assms in \<open>simp_all add: idle_def processItem_clocks finish_start use_key_calls handleFailure_def Let_def
    split: sum.split\<close>)

text \<open>The steps of one worker alone; \<open>e\<close> is what it gets from outside during the item.\<close>

inductive work_move ::
  "work_env \<Rightarrow> (item_ref \<Rightarrow> item) \<Rightarrow> worker_pc \<times> world \<Rightarrow> worker_pc \<times> world \<Rightarrow> bool" for e heap where
  "\<not> idle pc \<Longrightarrow> work_step e t heap pc w = Some pw \<Longrightarrow> work_move e heap (pc, w) pw"

abbreviation work_path ::
  "work_env \<Rightarrow> (item_ref \<Rightarrow> item) \<Rightarrow> worker_pc \<times> world \<Rightarrow> worker_pc \<times> world \<Rightarrow> bool" where
  "work_path e heap \<equiv> (work_move e heap)\<^sup>*\<^sup>*"

text \<open>A worker comes to an end: the stage of the code, and within a stage the steps of a call.\<close>

fun stage :: "worker_pc \<Rightarrow> nat" where
  "stage (Loading x) = 9" | "stage (Locking x req) = 8" | "stage (Choosing x req g) = 7"
| "stage (Starting x req k) = 6" | "stage (Calling x req k) = 5" | "stage (Giving x req k oc) = 4"
| "stage (Marking x req k oc mk) = 3" | "stage (Deciding x req msg) = 2" | "stage (Delaying x req n) = 1"
| "stage (Storing x req st c b err) = 1" | "stage _ = 0"

fun stage_left :: "worker_pc \<Rightarrow> nat" where
  "stage_left (Choosing x req g) = left g"
| "stage_left (Marking x req k oc mk) = marks_left mk"
| "stage_left _ = 0"

lemma work_step_progress:
  assumes "\<not> idle pc" and "work_step e t heap pc w = Some (pc', w')"
  shows "(pc', pc) \<in> measures [stage, stage_left]"
proof (cases pc)
  case (Choosing x req g)
  show ?thesis
  proof (cases "\<exists>r. g = Returning r")
    case True
    then obtain r where "g = Returning r" by blast
    with assms Choosing show ?thesis by (cases r) auto
  next
    case False
    then have "pc' = Choosing x req (fst (get_step t g (w_mgr w)))"
      using assms(2) Choosing choosing_step [of g e t heap x req w]
      by (simp add: split_beta Let_def del: work_step.simps)
    with Choosing False left_step [of g t "w_mgr w"] show ?thesis by simp
  qed
next
  case (Marking x req k oc mk)
  show ?thesis
  proof (cases "mk = Marked")
    case True
    have "stage (after_mark x req oc) < 3" by (cases "(x, req, oc)" rule: after_mark.cases) simp_all
    with True assms(2) Marking show ?thesis by auto
  next
    case False
    with assms(2) Marking marks_left_step [OF False, of "we_mark_io e" "we_now e" k "w_mgr w" "w_db w"]
    show ?thesis by (auto simp: split_beta Let_def)
  qed
next
  case (Giving x req k oc)
  have "stage (after_release x req k oc) < 4" by (cases "(x, req, k, oc)" rule: after_release.cases) simp_all
  with assms(2) Giving show ?thesis by auto
qed (use assms in \<open>auto simp: idle_def Let_def split: sum.splits if_splits\<close>)

lemma work_step_runs_on:
  assumes "\<not> idle pc" and "work_step e t heap pc w = Some (pc', w')"
  shows "pc' \<noteq> Stopped"
proof (cases pc)
  case (Choosing x req g)
  with assms(2) show ?thesis
    by (cases "(t, g, w_mgr w)" rule: get_step.cases) (auto simp: Let_def split_beta split: get_result.splits)
next
  case (Giving x req k oc)
  with assms(2) show ?thesis by (cases "(x, req, k, oc)" rule: after_release.cases) auto
next
  case (Marking x req k oc mk)
  with assms(2) show ?thesis
    by (cases "(x, req, oc)" rule: after_mark.cases) (auto simp: Let_def split_beta split: if_splits)
qed (use assms in \<open>auto simp: idle_def Let_def split: sum.splits if_splits\<close>)

lemma w_finish_reaches:
  assumes "w_finish ac rc e heap pc w = Some w'" and "pc \<noteq> Stopped"
  shows "work_path e heap (pc, w) (Waiting, w')"
proof -
  have "wf (measures [stage, stage_left])" by simp
  then show ?thesis using assms
  proof (induction pc arbitrary: ac w rule: wf_induct_rule)
    case (less pc)
    show ?case
    proof (cases "idle pc")
      case True
      with less.prems show ?thesis by (auto simp: idle_def)
    next
      case False
      obtain pc1 w1 where s: "work_step e (w_reading ac rc pc) heap pc w = Some (pc1, w1)"
          and rest: "w_finish (w_later ac pc) rc e heap pc1 w1 = Some w'"
        using w_finish_step [OF False, of ac rc e heap w] less.prems(1)
        by (cases "work_step e (w_reading ac rc pc) heap pc w") auto
      note progress = work_step_progress [OF False s] work_step_runs_on [OF False s]
      have "work_path e heap (pc1, w1) (Waiting, w')" by (rule less.IH [OF progress(1) rest progress(2)])
      with work_move.intros [OF False s] show ?thesis by (rule converse_rtranclp_into_rtranclp)
    qed
  qed
qed

lemma w_finish_any_step:
  assumes "\<not> idle pc" and "work_step e t heap pc w = Some (pc', w')"
  shows "\<exists>ac' rc'. w_finish ac' rc' e heap pc w = w_finish ac rc e heap pc' w'"
proof (cases "\<exists>x req g. pc = Choosing x req g \<and> (\<forall>r. g \<noteq> Returning r)")
  case True
  then obtain x req g where pc: "pc = Choosing x req g" "\<forall>r. g \<noteq> Returning r" by blast
  obtain g' m where s: "get_step t g (w_mgr w) = (g', m)" by fastforce
  obtain ac' rc' where "finish ac' rc' g (w_mgr w) = finish ac rc g' m"
    using finish_any_step [OF pc(2), of "w_mgr w" t ac rc] s by auto
  moreover have "pc' = Choosing x req g'" "w' = w\<lparr>w_mgr := m\<rparr>"
    using assms(2) choosing_step [OF pc(2), of e t heap x req w] s pc(1) by (simp_all del: work_step.simps)
  ultimately have "w_finish ac' rc' e heap pc w = w_finish ac rc e heap pc' w'" using pc(1) by simp
  then show ?thesis by blast
next
  case False
  have "work_step e (w_reading ac rc pc) heap pc w = work_step e t heap pc w"
    using False by (cases pc) (auto split: getter.splits get_result.splits)
  moreover have "w_later ac pc = ac"
    using False by (cases "(ac, pc)" rule: w_later.cases) (auto elim: later.elims)
  ultimately show ?thesis using w_finish_step [OF assms(1), of ac rc e heap w] assms(2) by auto
qed

lemma work_path_finishes:
  "work_path e heap pw pw' \<Longrightarrow> pw' = (Waiting, w') \<Longrightarrow> \<exists>ac rc. w_finish ac rc e heap (fst pw) (snd pw) = Some w'"
proof (induction rule: converse_rtranclp_induct)
  case base
  then show ?case by simp
next
  case (step y z)
  then obtain ac rc where z: "w_finish ac rc e heap (fst z) (snd z) = Some w'" by blast
  from step(1) show ?case
  proof (cases rule: work_move.cases)
    case (1 pc t w)
    with w_finish_any_step [of pc e t heap w "fst z" "snd z" ac rc] z show ?thesis by auto
  qed
qed

section \<open>A worker beside others\<close>

text \<open>
  What a worker has at each point: its item, the slot it holds, the request it loaded; and what it
  relies on there: the pool its \<open>GetKey\<close> works on, and a row of the request that is not final.
\<close>

fun pc_items :: "worker_pc \<Rightarrow> item_ref list" where
  "pc_items Waiting = []" | "pc_items Stopped = []" | "pc_items (Loading x) = [x]"
| "pc_items (Locking x req) = [x]" | "pc_items (Choosing x req g) = [x]"
| "pc_items (Starting x req k) = [x]" | "pc_items (Calling x req k) = [x]"
| "pc_items (Giving x req k oc) = [x]" | "pc_items (Marking x req k oc mk) = [x]"
| "pc_items (Deciding x req msg) = [x]" | "pc_items (Delaying x req n) = [x]"
| "pc_items (Storing x req st c b err) = [x]"

fun pc_slot :: "worker_pc \<Rightarrow> key_ref multiset" where
  "pc_slot (Choosing x req g) = getter_slot g"
| "pc_slot (Starting x req k) = {#k#}"
| "pc_slot (Calling x req k) = {#k#}"
| "pc_slot (Giving x req k oc) = {#k#}"
| "pc_slot _ = {#}"

fun pc_request :: "worker_pc \<Rightarrow> request option" where
  "pc_request Waiting = None" | "pc_request Stopped = None" | "pc_request (Loading x) = None"
| "pc_request (Locking x req) = Some req" | "pc_request (Choosing x req g) = Some req"
| "pc_request (Starting x req k) = Some req" | "pc_request (Calling x req k) = Some req"
| "pc_request (Giving x req k oc) = Some req" | "pc_request (Marking x req k oc mk) = Some req"
| "pc_request (Deciding x req msg) = Some req" | "pc_request (Delaying x req n) = Some req"
| "pc_request (Storing x req st c b err) = Some req"

fun pc_getter :: "worker_pc \<Rightarrow> getter option" where
  "pc_getter (Choosing x req g) = Some g"
| "pc_getter _ = None"

fun pc_result :: "worker_pc \<Rightarrow> string option" where
  "pc_result (Storing x req st c b err) = Some st"
| "pc_result _ = None"

text \<open>The read lock is held throughout \<open>GetKey\<close>.\<close>

abbreviation reads_pool :: "worker_pc \<Rightarrow> bool" where
  "reads_pool pc \<equiv> pc_getter pc \<noteq> None"

definition unfinished :: "database \<Rightarrow> string \<Rightarrow> bool" where
  "unfinished d i \<longleftrightarrow> (\<exists>r. request_row d i = Some r \<and> \<not> terminal r)"

definition pc_ok :: "(item_ref \<Rightarrow> item) \<Rightarrow> manager \<Rightarrow> database \<Rightarrow> worker_pc \<Rightarrow> bool" where
  "pc_ok heap m d pc \<longleftrightarrow>
     (\<forall>g. pc_getter pc = Some g \<longrightarrow> getter_ok m g) \<and>
     (\<forall>req. pc_request pc = Some req \<longrightarrow>
        rq_ID req = it_RequestID (heap (hd (pc_items pc))) \<and> unfinished d (rq_ID req)) \<and>
     (\<forall>st. pc_result pc = Some st \<longrightarrow> st = RequestStatusSuccess \<or> st = RequestStatusFailed)"

definition others_kept :: "string \<Rightarrow> database \<Rightarrow> database \<Rightarrow> bool" where
  "others_kept i d d' \<longleftrightarrow> db_path d d' \<and> (\<forall>j. j \<noteq> i \<longrightarrow> request_row d' j = request_row d j)"

text \<open>What one step of the worker does to what it shares.\<close>

definition work_effect ::
  "(item_ref \<Rightarrow> item) \<Rightarrow> key_ref multiset \<Rightarrow> worker_pc \<Rightarrow> world \<Rightarrow> worker_pc \<Rightarrow> world \<Rightarrow> bool" where
  "work_effect heap held pc w pc' w' \<longleftrightarrow>
     pool_inv (w_mgr w', held - pc_slot pc + pc_slot pc') \<and> same_pool (w_mgr w) (w_mgr w') \<and>
     pc_ok heap (w_mgr w') (w_db w') pc' \<and>
     others_kept (it_RequestID (heap (hd (pc_items pc)))) (w_db w) (w_db w') \<and>
     (if pc_items pc' = [] then \<exists>i n. w_timers w' = w_timers w \<or> w_timers w' = w_timers w @ [(hd (pc_items pc), i, n)]
      else pc_items pc' = pc_items pc \<and> w_timers w' = w_timers w)"

lemma others_kept_refl [simp]: "others_kept i d d"
  by (simp add: others_kept_def)

lemma keep_step_other:
  assumes "keep_step d d'" and "db_requests d' = db_requests d"
  shows "others_kept i d d'"
  using assms keep_step_db_step by (auto simp: others_kept_def request_row_def)

lemma same_pool_refl [simp]: "same_pool m m"
  by (simp add: same_pool_def)

lemma mark_writes_requests [simp]:
  "db_requests (m_logKeyEvent io now i t msg d) = db_requests d"
  "db_requests (fst (UpdateAPIKeyLastUsed io now i d)) = db_requests d"
  "db_requests (fst (UpdateAPIKeyHealth io now i h n st d)) = db_requests d"
  by (simp_all add: m_logKeyEvent_def CreateKeyEvent_def key_write_defs split: option.split)

lemma mark_step_database:
  assumes "mark_step io now k (mk, m, d) = (mk', m', d')"
  shows "db_requests d' = db_requests d" and "d' = d \<or> keep_step d d'"
proof -
  have "db_requests d' = db_requests d \<and> (d' = d \<or> keep_step d d')"
    using assms m_logKeyEvent_step keep_step_calls(3,4)
    by (cases "(io, now, k, mk, m, d)" rule: mark_step.cases)
      (auto split: option.splits if_splits)
  then show "db_requests d' = db_requests d" and "d' = d \<or> keep_step d d'" by blast+
qed

text \<open>The rows under the two writes of a worker.\<close>

lemma starting_row:
  fixes e d i k n
  defines "d' \<equiv> fst (UpdateRequestStatus (we_status_io e) (we_now e) i RequestStatusProcessing k n d)"
  shows "others_kept i d d'" and "unfinished d i \<Longrightarrow> unfinished d' i"
proof -
  have row: "request_row d' j = (if i = j \<and> we_status_io e = None
      then map_option (\<lambda>r. r\<lparr>rq_Status := RequestStatusProcessing, rq_AssignedKeyID := Some k,
        rq_Attempts := n, rq_UpdatedAt := datetime (we_now e)\<rparr>) (request_row d j) else request_row d j)" for j
    by (cases "we_status_io e") (simp_all add: d'_def UpdateRequestStatus_def request_row_update)
  then show "others_kept i d d'" by (simp add: others_kept_def d'_def db_step_calls(8) r_into_rtranclp)
  show "unfinished d i \<Longrightarrow> unfinished d' i"
    using row [of i] by (auto simp: unfinished_def terminal_def request_status_defs)
qed

lemma storing_row: "others_kept i (w_db w) (w_db (persistResult e i st c b err w))"
  using persist_other [of i _ e st c b err w]
  by (auto simp: others_kept_def persistResult_def db_step_calls(9) r_into_rtranclp)

lemma pc_ok_mono:
  assumes "pc_ok heap m d pc" and "same_pool m m'"
    and "\<And>req. pc_request pc = Some req \<Longrightarrow> unfinished d (rq_ID req) \<Longrightarrow> unfinished d' (rq_ID req)"
  shows "pc_ok heap m' d' pc"
  using assms getter_ok_same by (auto simp: pc_ok_def)

lemma work_effectI:
  assumes "pool_inv (w_mgr w', held - pc_slot pc + pc_slot pc')" and "same_pool (w_mgr w) (w_mgr w')"
    and "pc_ok heap (w_mgr w') (w_db w') pc'"
    and "others_kept (it_RequestID (heap (hd (pc_items pc)))) (w_db w) (w_db w')"
    and "pc_items pc' = [] \<Longrightarrow>
      \<exists>i n. w_timers w' = w_timers w \<or> w_timers w' = w_timers w @ [(hd (pc_items pc), i, n)]"
    and "pc_items pc' \<noteq> [] \<Longrightarrow> pc_items pc' = pc_items pc \<and> w_timers w' = w_timers w"
  shows "work_effect heap held pc w pc' w'"
  using assms by (simp add: work_effect_def)

lemma choosing_effect:
  assumes inv: "pool_inv (w_mgr w, held)" and slot: "getter_slot g \<subseteq># held"
    and ok: "pc_ok heap (w_mgr w) (w_db w) (Choosing x req g)"
    and s: "work_step e t heap (Choosing x req g) w = Some (pc', w')"
  shows "work_effect heap held (Choosing x req g) w pc' w'"
proof (cases "\<exists>r. g = Returning r")
  case True
  then obtain r where r: "g = Returning r" by blast
  have same: "held - {#k#} + {#k#} = held" if "r = GotKey k" for k using slot r that by simp
  from r s ok inv same show ?thesis by (cases r) (auto simp: work_effect_def pc_ok_def)
next
  case False
  obtain g' m where g: "get_step t g (w_mgr w) = (g', m)" by fastforce
  have "getter_ok (w_mgr w) g" using ok by (simp add: pc_ok_def)
  then have "get_step_ok held g (w_mgr w) (g', m)" using get_step_inv [OF inv _ slot, of t] g by simp
  moreover have "pc' = Choosing x req g'" "w' = w\<lparr>w_mgr := m\<rparr>"
    using choosing_step [of g e t heap x req w] False s g by (simp_all del: work_step.simps)
  ultimately show ?thesis using ok by (auto simp: get_step_ok_def work_effect_def pc_ok_def)
qed

lemma starting_effect:
  assumes inv: "pool_inv (w_mgr w, held)" and slot: "k \<in># held"
    and ok: "pc_ok heap (w_mgr w) (w_db w) (Starting x req k)"
    and s: "work_step e t heap (Starting x req k) w = Some (pc', w')"
  shows "work_effect heap held (Starting x req k) w pc' w'"
proof -
  have "rq_ID req = it_RequestID (heap x)" using ok by (simp add: pc_ok_def)
  then show ?thesis
    using s ok inv slot starting_row [where e = e and d = "w_db w" and i = "rq_ID req"]
    by (auto simp: work_effect_def pc_ok_def)
qed

lemma giving_effect:
  assumes inv: "pool_inv (w_mgr w, held)" and slot: "k \<in># held"
    and ok: "pc_ok heap (w_mgr w) (w_db w) (Giving x req k oc)"
    and s: "work_step e t heap (Giving x req k oc) w = Some (pc', w')"
  shows "work_effect heap held (Giving x req k oc) w pc' w'"
proof -
  have "pc_slot (after_release x req k oc) = {#}" "pc_items (after_release x req k oc) = [x]"
      "pc_request (after_release x req k oc) = Some req" "pc_getter (after_release x req k oc) = None"
      "pc_result (after_release x req k oc) = None"
    by (cases "(x, req, k, oc)" rule: after_release.cases; simp)+
  with pool_inv_release [OF inv slot] s ok show ?thesis
    by (auto simp: work_effect_def pc_ok_def ReleaseKey_def)
qed

lemma marking_effect:
  assumes inv: "pool_inv (w_mgr w, held)" and ok: "pc_ok heap (w_mgr w) (w_db w) (Marking x req k oc mk)"
    and s: "work_step e t heap (Marking x req k oc mk) w = Some (pc', w')"
  shows "work_effect heap held (Marking x req k oc mk) w pc' w'"
proof (cases "mk = Marked")
  case True
  have "pc_slot (after_mark x req oc) = {#}" "pc_items (after_mark x req oc) = [x]"
      "pc_request (after_mark x req oc) = Some req" "pc_getter (after_mark x req oc) = None"
      "pc_result (after_mark x req oc) \<in> {None, Some RequestStatusSuccess, Some RequestStatusFailed}"
    by (cases "(x, req, oc)" rule: after_mark.cases; simp)+
  with True s ok inv show ?thesis by (auto simp: work_effect_def pc_ok_def)
next
  case False
  obtain mk' m d where m: "mark_step (we_mark_io e) (we_now e) k (mk, w_mgr w, w_db w) = (mk', m, d)"
    by (metis prod_cases3)
  note mgr = mark_step_manager [OF inv m] and db = mark_step_database [OF m]
  have "request_row d j = request_row (w_db w) j" for j using db(1) by (simp add: request_row_def)
  then have "others_kept i (w_db w) d" "unfinished d i \<longleftrightarrow> unfinished (w_db w) i" for i
    using db(2) keep_step_other [OF _ db(1)] by (auto simp: unfinished_def)
  with False s m ok mgr show ?thesis by (auto simp: work_effect_def pc_ok_def)
qed

lemma loading_effect:
  assumes inv: "pool_inv (w_mgr w, held)" and s: "work_step e t heap (Loading x) w = Some (pc', w')"
  shows "work_effect heap held (Loading x) w pc' w'"
proof (cases "GetRequest (we_load e) (it_RequestID (heap x)) (w_db w)")
  case (Inl err)
  with s inv show ?thesis by (auto simp: work_effect_def pc_ok_def)
next
  case (Inr req)
  with GetRequest_row [OF this] s inv show ?thesis
    by (cases "terminal req") (auto simp: work_effect_def pc_ok_def unfinished_def)
qed

text \<open>No step panics, and each has the effect above.\<close>

lemma work_step_runs: "pc_ok heap (w_mgr w) (w_db w) pc \<Longrightarrow> work_step e t heap pc w \<noteq> None"
  by (cases pc) (auto simp: pc_ok_def Let_def split_beta split: sum.split getter.split get_result.split)

lemma work_step_effect:
  assumes inv: "pool_inv (w_mgr w, held)" and slot: "pc_slot pc \<subseteq># held"
    and ok: "pc_ok heap (w_mgr w) (w_db w) pc" and s: "work_step e t heap pc w = Some (pc', w')"
  shows "work_effect heap held pc w pc' w'"
proof (cases pc)
  case (Choosing x req g)
  show ?thesis unfolding Choosing
    by (rule choosing_effect [OF inv _ ok [unfolded Choosing] s [unfolded Choosing]]) (use slot Choosing in simp)
next
  case (Loading x)
  show ?thesis unfolding Loading by (rule loading_effect [OF inv s [unfolded Loading]])
next
  case (Calling x req k)
  with slot inv ok s show ?thesis
    by (cases "Decrypt (we_open e) (pk_KeyEncrypted (m_store (w_mgr w) k)) (we_encKey e)")
      (auto simp: work_effect_def pc_ok_def Let_def)
next
  case (Starting x req k)
  show ?thesis unfolding Starting
    by (rule starting_effect [OF inv _ ok [unfolded Starting] s [unfolded Starting]]) (use slot Starting in simp)
next
  case (Giving x req k oc)
  show ?thesis unfolding Giving
    by (rule giving_effect [OF inv _ ok [unfolded Giving] s [unfolded Giving]]) (use slot Giving in simp)
next
  case (Marking x req k oc mk)
  show ?thesis unfolding Marking by (rule marking_effect [OF inv ok [unfolded Marking] s [unfolded Marking]])
next
  case (Storing x req st c b err)
  with inv ok s storing_row [of "rq_ID req" w e st c b err] show ?thesis
    by (auto simp: work_effect_def pc_ok_def)
next
  case (Delaying x req n)
  with inv s show ?thesis by (auto simp: work_effect_def pc_ok_def delayedEnqueue_def)
next
  case (Locking x req)
  with inv ok s getter_ok_start show ?thesis by (auto simp: work_effect_def pc_ok_def)
next
  case (Deciding x req msg)
  with inv ok s show ?thesis by (auto simp: work_effect_def pc_ok_def Let_def split: if_splits)
qed (use inv s in \<open>auto simp: work_effect_def pc_ok_def\<close>)

text \<open>
  A worker that gives its item up without a timer leaves a final result, unless its access to the
  database failed.
\<close>

lemma work_step_gives_up:
  assumes s: "work_step e t heap pc w = Some (pc', w')" and x: "pc_items pc = [x]" "pc_items pc' = []"
    and timers: "w_timers w' = w_timers w" and io: "we_load e = None" "we_result_io e = None"
    and ok: "pc_ok heap m (w_db w) pc" and row: "request_row (w_db w) (it_RequestID (heap x)) \<noteq> None"
  shows "\<exists>r. request_row (w_db w') (it_RequestID (heap x)) = Some r \<and> terminal r"
proof (cases pc)
  case (Loading y)
  obtain r where r: "request_row (w_db w) (it_RequestID (heap x)) = Some r" using row by blast
  then have "GetRequest None (it_RequestID (heap x)) (w_db w) = Inr (scanRequest r)"
    by (simp add: GetRequest_def request_row_def)
  then show ?thesis using GetRequest_row s x Loading io by (auto split: if_splits)
next
  case (Storing y req st c b err)
  then have "request_row (w_db w') (rq_ID req) = map_option (result_row e st c b err) (request_row (w_db w) (rq_ID req))"
    using s persist_row [OF io(2), of "rq_ID req" st c b err w "rq_ID req"] by auto
  moreover have "rq_ID req = it_RequestID (heap x)" "st = RequestStatusSuccess \<or> st = RequestStatusFailed"
    using ok Storing x(1) by (auto simp: pc_ok_def)
  ultimately show ?thesis using row by (auto simp: result_row_def terminal_def)
next
  case (Choosing y req g)
  with s x(2) show ?thesis
    by (cases "(t, g, w_mgr w)" rule: get_step.cases) (auto simp: Let_def split_beta split: get_result.splits)
next
  case (Giving y req k oc)
  with s x(2) show ?thesis by (cases "(y, req, k, oc)" rule: after_release.cases) auto
next
  case (Marking y req k oc mk)
  with s x(2) show ?thesis
    by (cases "(y, req, oc)" rule: after_mark.cases) (auto simp: Let_def split_beta split: if_splits)
qed (use s x timers in \<open>auto simp: delayedEnqueue_def Let_def split: sum.splits if_splits\<close>)

section \<open>Properties\<close>

text \<open>C7: the steps of a worker that no one disturbs are exactly the function \<open>processItem\<close>: from the receipt
  of an item its own steps can bring it back to the wait for the next one, with the world in a
  given state, if and only if \<open>processItem\<close> gives that state for some clock readings of \<open>GetKey\<close>.\<close>

theorem work_steps_are_processItem:
  "(\<exists>ac rc. processItem (e\<lparr>we_allow_clk := ac, we_rate_clk := rc\<rparr>) x (heap x) w = Some w') \<longleftrightarrow>
   work_path e heap (Loading x, w) (Waiting, w')"
proof
  assume "\<exists>ac rc. processItem (e\<lparr>we_allow_clk := ac, we_rate_clk := rc\<rparr>) x (heap x) w = Some w'"
  then show "work_path e heap (Loading x, w) (Waiting, w')"
    using w_finish_reaches [where pc = "Loading x"] by auto
next
  assume "work_path e heap (Loading x, w) (Waiting, w')"
  from work_path_finishes [OF this refl]
  show "\<exists>ac rc. processItem (e\<lparr>we_allow_clk := ac, we_rate_clk := rc\<rparr>) x (heap x) w = Some w'" by simp
qed

end
