(* ===== verification/Worker_Pool.thy ===== *)
theory Worker_Pool
  imports Go_Base "HOL-Library.Multiset"
begin

text \<open>
  The pool of workers of \<^verbatim>\<open>internal/worker/pool.go\<close>. \<open>Start\<close> launches the workers one by one with a
  delay between them. It is described twice: by its effect over time, where a timer fires exactly
  after its duration and the context ends at some time or never, and as a step relation in which
  the workers it has launched return at any moment, for what \<open>Wait\<close> promises.
\<close>

section \<open>Workers\<close>

text \<open>What a worker holds of its own; the rest of its fields point to what all workers share.\<close>

record worker =
  wk_id :: int
  wk_encKey :: string

definition NewWorker :: "int \<Rightarrow> string \<Rightarrow> worker" where
  "NewWorker i encKey = \<lparr>wk_id = i, wk_encKey = encKey\<rparr>"

record pool =
  wp_workers :: "worker list"

definition NewPool :: "int \<Rightarrow> string \<Rightarrow> pool" where
  "NewPool n encKey = \<lparr>wp_workers = map (\<lambda>i. NewWorker i encKey) [0..n - 1]\<rparr>"

section \<open>Starting over time\<close>

text \<open>Division of Go's integers truncates towards zero; the divisor is a positive length here.\<close>

definition go_div :: "int \<Rightarrow> int \<Rightarrow> int" where
  "go_div a b = sgn a * (\<bar>a\<bar> div b)"

definition warmup_delay :: "nat \<Rightarrow> duration \<Rightarrow> duration" where
  "warmup_delay n warmupPeriod = (if n > 1 then go_div warmupPeriod (int n) else 0)"

text \<open>
  The select between the context, which ends at \<open>ctx\<close>, and a timer that was started at \<open>t\<close>. When
  both are ready at once, the runtime chooses: \<open>tie\<close>.
\<close>

definition ctx_first :: "time option \<Rightarrow> bool \<Rightarrow> time \<Rightarrow> duration \<Rightarrow> bool" where
  "ctx_first ctx tie t delay =
     (case ctx of None \<Rightarrow> False | Some c \<Rightarrow> c < t + delay \<or> (c = t + delay \<and> tie))"

text \<open>The launched workers with their times, when the loop ended, and whether it was not cut off.\<close>

fun start_loop ::
  "time option \<Rightarrow> (nat \<Rightarrow> bool) \<Rightarrow> duration \<Rightarrow> nat \<Rightarrow> time \<Rightarrow> worker list \<Rightarrow> (worker \<times> time) list \<times> time \<times> bool" where
  "start_loop ctx tie delay i t [] = ([], t, True)"
| "start_loop ctx tie delay i t (w # ws) =
     (if ws \<noteq> [] \<and> 0 < delay then
        if ctx_first ctx (tie i) t delay then ([(w, t)], max t (the ctx), False)
        else let (started, t', all_started) = start_loop ctx tie delay (Suc i) (t + delay) ws
             in ((w, t) # started, t', all_started)
      else let (started, t', all_started) = start_loop ctx tie delay (Suc i) t ws
           in ((w, t) # started, t', all_started))"

definition pool_Start ::
  "time option \<Rightarrow> (nat \<Rightarrow> bool) \<Rightarrow> duration \<Rightarrow> time \<Rightarrow> pool \<Rightarrow> (worker \<times> time) list \<times> time \<times> bool" where
  "pool_Start ctx tie warmupPeriod t p =
     start_loop ctx tie (warmup_delay (length (wp_workers p)) warmupPeriod) 0 t (wp_workers p)"

section \<open>The wait group\<close>

text \<open>
  \<open>Adding\<close>: the next thing \<open>Start\<close> does is \<open>wg.Add(1)\<close> for the first worker of the list;
  \<open>Spawning\<close>: the \<open>go\<close> statement; \<open>Pausing\<close>: the select between two launches.
\<close>

datatype start_pc = Adding | Spawning | Pausing | Returned

record pool_run =
  pr_todo :: "worker list"
  pr_pc :: start_pc
  pr_running :: "worker list"
  pr_ended :: "worker list"
  pr_wg :: int

definition start_run :: "pool \<Rightarrow> pool_run" where
  "start_run p = \<lparr>pr_todo = wp_workers p, pr_pc = Adding, pr_running = [], pr_ended = [], pr_wg = 0\<rparr>"

inductive run_step :: "duration \<Rightarrow> pool_run \<Rightarrow> pool_run \<Rightarrow> bool" for delay where
  nothing_left: "pr_pc s = Adding \<Longrightarrow> pr_todo s = [] \<Longrightarrow> run_step delay s (s\<lparr>pr_pc := Returned\<rparr>)"
| wg_add: "pr_pc s = Adding \<Longrightarrow> pr_todo s \<noteq> [] \<Longrightarrow>
    run_step delay s (s\<lparr>pr_pc := Spawning, pr_wg := pr_wg s + 1\<rparr>)"
| go_worker: "pr_pc s = Spawning \<Longrightarrow> pr_todo s = w # ws \<Longrightarrow>
    run_step delay s (s\<lparr>pr_todo := ws, pr_running := pr_running s @ [w],
      pr_pc := (if ws \<noteq> [] \<and> 0 < delay then Pausing else Adding)\<rparr>)"
| timer: "pr_pc s = Pausing \<Longrightarrow> run_step delay s (s\<lparr>pr_pc := Adding\<rparr>)"
| cancelled: "pr_pc s = Pausing \<Longrightarrow> run_step delay s (s\<lparr>pr_pc := Returned\<rparr>)"
| wg_done: "w \<in> set (pr_running s) \<Longrightarrow>
    run_step delay s (s\<lparr>pr_running := remove1 w (pr_running s), pr_ended := w # pr_ended s,
      pr_wg := pr_wg s - 1\<rparr>)"

inductive_cases run_stepE: "run_step delay s s'"

text \<open>\<open>Wait\<close> can return when the counter of the wait group is zero.\<close>

definition wait_returns :: "pool_run \<Rightarrow> bool" where
  "wait_returns s \<longleftrightarrow> pr_wg s = 0"

section \<open>Lemmas\<close>

lemma NewPool_workers:
  "length (wp_workers (NewPool n encKey)) = nat n"
  "map wk_id (wp_workers (NewPool n encKey)) = [0..n - 1]"
  by (simp_all add: NewPool_def NewWorker_def comp_def)

lemma warmup_delay_bounds:
  assumes "0 \<le> warmupPeriod"
  shows "0 \<le> warmup_delay n warmupPeriod" and "int (n - 1) * warmup_delay n warmupPeriod \<le> warmupPeriod"
proof -
  have eq: "warmup_delay n warmupPeriod = (if n > 1 then warmupPeriod div int n else 0)"
    using assms by (cases "warmupPeriod = 0") (simp_all add: warmup_delay_def go_div_def)
  show "0 \<le> warmup_delay n warmupPeriod" using assms by (simp add: eq pos_imp_zdiv_nonneg_iff)
  then have "int (n - 1) * warmup_delay n warmupPeriod \<le> int n * warmup_delay n warmupPeriod"
    by (intro mult_right_mono) auto
  also have "\<dots> \<le> warmupPeriod"
  proof (cases "n > 1")
    case True
    then have "0 \<le> warmupPeriod mod int n" by simp
    with minus_mod_eq_mult_div [of warmupPeriod "int n"]
    have "int n * (warmupPeriod div int n) \<le> warmupPeriod" by linarith
    with True show ?thesis by (simp add: eq)
  qed (use assms in \<open>simp add: eq\<close>)
  finally show "int (n - 1) * warmup_delay n warmupPeriod \<le> warmupPeriod" .
qed

text \<open>The times at which the workers of a list are launched when nothing cuts the loop off.\<close>

definition launches :: "duration \<Rightarrow> time \<Rightarrow> worker list \<Rightarrow> (worker \<times> time) list" where
  "launches delay t ws = map (\<lambda>i. (ws ! i, t + int i * delay)) [0..<length ws]"

lemma launches_Cons: "launches delay t (w # ws) = (w, t) # launches delay (t + delay) ws"
  by (simp add: launches_def upt_conv_Cons map_Suc_upt [symmetric] comp_def algebra_simps del: upt_Suc)

text \<open>What the loop yields for the workers \<open>ws\<close> from the time \<open>t\<close> on.\<close>

definition start_ok ::
  "time option \<Rightarrow> duration \<Rightarrow> time \<Rightarrow> worker list \<Rightarrow> (worker \<times> time) list \<times> time \<times> bool \<Rightarrow> bool" where
  "start_ok ctx delay t ws r \<longleftrightarrow> (case r of (started, t', all_started) \<Rightarrow>
     started = take (length started) (launches delay t ws) \<and> (ws \<noteq> [] \<longrightarrow> started \<noteq> []) \<and>
     (all_started \<longrightarrow> length started = length ws \<and> t' = t + int (length ws - 1) * delay) \<and>
     (\<not> all_started \<longrightarrow> length started < length ws \<and>
        (\<exists>c. ctx = Some c \<and> c \<le> t + int (length ws - 1) * delay)))"

lemma start_ok_Nil [simp]: "start_ok ctx delay t [] ([], t, True)"
  by (simp add: start_ok_def)

lemma start_ok_one [simp]: "start_ok ctx delay t [w] ([(w, t)], t, True)"
  by (simp add: start_ok_def launches_def)

lemma start_ok_cut: "ctx = Some c \<Longrightarrow> c \<le> t + delay \<Longrightarrow> ws \<noteq> [] \<Longrightarrow> 0 \<le> delay \<Longrightarrow>
    start_ok ctx delay t (w # ws) ([(w, t)], t', False)"
proof -
  assume c: "ctx = Some c" "c \<le> t + delay" and ws: "ws \<noteq> []" "0 \<le> delay"
  then have "1 * delay \<le> int (length ws) * delay" by (intro mult_right_mono) (auto simp: Suc_le_eq)
  with c ws show ?thesis by (simp add: start_ok_def launches_Cons)
qed

lemma start_ok_Cons: "start_ok ctx delay (t + delay) ws (st, t', al) \<Longrightarrow> ws \<noteq> [] \<Longrightarrow>
    start_ok ctx delay t (w # ws) ((w, t) # st, t', al)"
  by (cases ws) (auto simp: start_ok_def launches_Cons algebra_simps)

lemma start_loop_ok: "0 \<le> delay \<Longrightarrow> start_ok ctx delay t ws (start_loop ctx tie delay i t ws)"
proof (induction ws arbitrary: i t)
  case (Cons w ws)
  show ?case
  proof (cases "ws = []")
    case False
    obtain st t' al where nxt: "start_loop ctx tie delay (Suc i) (t + delay) ws = (st, t', al)"
      by (metis prod.collapse)
    have rec: "start_ok ctx delay t (w # ws)
        (let (st, t', al) = start_loop ctx tie delay (Suc i) (t + delay) ws in ((w, t) # st, t', al))"
      using start_ok_Cons [OF _ False] Cons.IH [OF Cons.prems, of "t + delay" "Suc i"] by (simp add: nxt)
    show ?thesis
    proof (cases "0 < delay \<and> ctx_first ctx (tie i) t delay")
      case True
      then obtain c where "ctx = Some c" "c \<le> t + delay" by (auto simp: ctx_first_def split: option.splits)
      with True False start_ok_cut [of ctx c t delay ws w] show ?thesis by simp
    next
      case no_cut: False
      have "start_loop ctx tie delay i t (w # ws) =
          (let (st, t', al) = start_loop ctx tie delay (Suc i) (t + delay) ws in ((w, t) # st, t', al))"
        using no_cut False Cons.prems by (cases "0 < delay") simp_all
      with rec show ?thesis by simp
    qed
  qed simp
qed simp

definition pool_run_ok :: "worker list \<Rightarrow> pool_run \<Rightarrow> bool" where
  "pool_run_ok ws s \<longleftrightarrow> pr_wg s = int (length (pr_running s)) + (if pr_pc s = Spawning then 1 else 0) \<and>
     mset (pr_running s) + mset (pr_ended s) + mset (pr_todo s) = mset ws \<and>
     (pr_pc s = Spawning \<longrightarrow> pr_todo s \<noteq> [])"

lemma run_step_ok: "run_step delay s s' \<Longrightarrow> pool_run_ok ws s \<Longrightarrow> pool_run_ok ws s'"
proof (induction rule: run_step.induct)
  case (wg_done w s)
  have "0 < length (pr_running s)" using wg_done(1) by (rule length_pos_if_in_set)
  with wg_done show ?case by (auto simp: pool_run_ok_def length_remove1 of_nat_diff Suc_leI)
qed (auto simp: pool_run_ok_def)

lemma NewPool_launches: "launches delay t (wp_workers (NewPool n encKey)) =
    map (\<lambda>i. (NewWorker (int i) encKey, t + int i * delay)) [0..<nat n]"
  by (simp add: launches_def NewPool_def)

section \<open>Properties\<close>

text \<open>The start of the pool is spread over the warm-up period: the worker number i is launched i
  delays after the first, for a delay that is the period divided by the number of workers. If the
  context does not end meanwhile, all workers are launched and \<open>Start\<close> returns within the period;
  otherwise those launched are the first ones, and at least one.\<close>

theorem workers_start_staggered:
  assumes "pool_Start ctx tie warmupPeriod t (NewPool n encKey) = (started, t', all_started)"
    and "0 \<le> warmupPeriod" and "0 < n"
  shows "\<exists>k. 1 \<le> k \<and> k \<le> nat n \<and>
    started = map (\<lambda>i. (NewWorker (int i) encKey, t + int i * warmup_delay (nat n) warmupPeriod)) [0..<k] \<and>
    (all_started \<longleftrightarrow> k = nat n) \<and> (all_started \<longrightarrow> t' \<le> t + warmupPeriod) \<and>
    (\<not> all_started \<longrightarrow> (\<exists>c. ctx = Some c \<and> c \<le> t + warmupPeriod))"
proof -
  let ?ws = "wp_workers (NewPool n encKey)" and ?d = "warmup_delay (nat n) warmupPeriod"
  note d = warmup_delay_bounds [OF assms(2), of "nat n"]
  have len: "length ?ws = nat n" by (simp add: NewPool_workers)
  then have "start_ok ctx ?d t ?ws (started, t', all_started)"
    using start_loop_ok [OF d(1), of ctx t ?ws tie 0] assms(1) by (simp add: pool_Start_def)
  moreover have "?ws \<noteq> []" using len assms(3) by auto
  ultimately have ok: "started = take (length started) (launches ?d t ?ws)" "started \<noteq> []"
      "all_started \<longrightarrow> length started = nat n \<and> t' = t + int (nat n - 1) * ?d"
      "\<not> all_started \<longrightarrow> length started < nat n \<and> (\<exists>c. ctx = Some c \<and> c \<le> t + int (nat n - 1) * ?d)"
    by (simp_all add: start_ok_def len)
  then have "1 \<le> length started" "length started \<le> nat n" by (auto simp: Suc_le_eq)
  moreover from this ok(1) have "started =
      map (\<lambda>i. (NewWorker (int i) encKey, t + int i * ?d)) [0..<length started]"
    by (simp add: NewPool_launches take_map)
  ultimately show ?thesis using ok(3,4) d(2) by (intro exI [of _ "length started"]) force
qed

theorem workers_start_staggered_witness:
  "map (\<lambda>(w, t). (wk_id w, t)) (fst (pool_Start None (\<lambda>_. True) 30 0 (NewPool 3 ''key''))) =
     [(0, 0), (1, 10), (2, 20)]"
proof -
  let ?r = "pool_Start None (\<lambda>_. True) 30 0 (NewPool 3 ''key'')"
  have "?r = (fst ?r, fst (snd ?r), snd (snd ?r))" by simp
  from workers_start_staggered [OF this] obtain k where
    "fst ?r = map (\<lambda>i. (NewWorker (int i) ''key'', 0 + int i * warmup_delay (nat 3) 30)) [0..<k]"
    and "snd (snd ?r) \<longleftrightarrow> k = 3" and "snd (snd ?r)" by auto
  moreover from this have "k = 3" by simp
  moreover have "[0..<3] = [0, 1, 2::nat]" "warmup_delay (nat 3) 30 = 10" by code_simp+
  ultimately show ?thesis by (simp add: NewWorker_def)
qed

text \<open>C30: \<open>Wait\<close> returns exactly when no launched worker is running and none is about to be. At any
  moment of the start and the run of the pool every worker is waiting for its launch, running or
  ended, and the counter of the wait group, which panics below zero, is never negative.\<close>

theorem wait_returns_after_the_workers:
  assumes "(run_step delay)\<^sup>*\<^sup>* (start_run (NewPool n encKey)) s"
  shows "(wait_returns s \<longleftrightarrow> pr_running s = [] \<and> pr_pc s \<noteq> Spawning) \<and> 0 \<le> pr_wg s \<and>
    mset (pr_running s) + mset (pr_ended s) + mset (pr_todo s) = mset (wp_workers (NewPool n encKey))"
proof -
  have "pool_run_ok (wp_workers (NewPool n encKey)) s"
    using assms
  proof (induction rule: rtranclp_induct)
    case base
    show ?case by (simp add: pool_run_ok_def start_run_def)
  next
    case (step y z)
    then show ?case by (simp add: run_step_ok)
  qed
  then show ?thesis by (auto simp: pool_run_ok_def wait_returns_def)
qed

theorem wait_returns_after_the_workers_witness:
  "\<exists>s. (run_step 10)\<^sup>*\<^sup>* (start_run (NewPool 1 ''key'')) s \<and> wait_returns s \<and> pr_ended s = [NewWorker 0 ''key'']"
proof -
  let ?w = "NewWorker 0 ''key''"
  let ?s = "\<lambda>todo pc run fin wg. \<lparr>pr_todo = todo, pr_pc = pc, pr_running = run, pr_ended = fin, pr_wg = wg\<rparr>"
  have "NewPool 1 ''key'' = \<lparr>wp_workers = [?w]\<rparr>" by (simp add: NewPool_def)
  then have "start_run (NewPool 1 ''key'') = ?s [?w] Adding [] [] 0" by (simp add: start_run_def)
  moreover have "run_step 10 (?s [?w] Adding [] [] 0) (?s [?w] Spawning [] [] 1)"
    using wg_add [of "?s [?w] Adding [] [] 0" 10] by simp
  moreover have "run_step 10 (?s [?w] Spawning [] [] 1) (?s [] Adding [?w] [] 1)"
    using go_worker [of "?s [?w] Spawning [] [] 1" ?w "[]" 10] by simp
  moreover have "run_step 10 (?s [] Adding [?w] [] 1) (?s [] Adding [] [?w] 0)"
    using wg_done [of ?w "?s [] Adding [?w] [] 1" 10] by simp
  ultimately have run: "(run_step 10)\<^sup>*\<^sup>* (start_run (NewPool 1 ''key'')) (?s [] Adding [] [?w] 0)"
    by (simp add: converse_rtranclp_into_rtranclp)
  from wait_returns_after_the_workers [OF run] have "wait_returns (?s [] Adding [] [?w] 0)" by simp
  with run show ?thesis by (intro exI [of _ "?s [] Adding [] [?w] 0"]) simp
qed

end
