(* ===== verification/Service_Metrics.thy ===== *)
theory Service_Metrics
  imports Go_Strings Go_Float
begin

text \<open>
  The counters and gauges of \<^verbatim>\<open>internal/metrics/metrics.go\<close>. \<open>StatusCodes\<close> maps a code to a pointer to
  its counter, so counters live in a store. \<open>RecordStatusCode\<close> looks its code up under the read
  lock, lets go of it, and takes the write lock only when there is no counter yet; callers
  interleave between these sections, which a step relation over their program points says.
\<close>

section \<open>State\<close>

type_synonym counter_ref = nat

record metrics =
  mt_RequestsSubmitted :: int
  mt_RequestsCompleted :: int
  mt_RequestsFailed :: int
  mt_RequestsRetried :: int
  mt_QueueSize :: int
  mt_ActiveWorkers :: int
  mt_TotalWorkers :: int
  mt_TotalKeys :: int
  mt_HealthyKeys :: int
  mt_StatusCodes :: "int \<rightharpoonup> counter_ref"
  mt_counters :: "counter_ref \<Rightarrow> int"
  mt_next :: counter_ref
  mt_totalLatencyMs :: int
  mt_latencyCount :: int
  mt_startTime :: time

definition New :: "time \<Rightarrow> metrics" where
  "New now = \<lparr>mt_RequestsSubmitted = 0, mt_RequestsCompleted = 0, mt_RequestsFailed = 0,
     mt_RequestsRetried = 0, mt_QueueSize = 0, mt_ActiveWorkers = 0, mt_TotalWorkers = 0,
     mt_TotalKeys = 0, mt_HealthyKeys = 0, mt_StatusCodes = Map.empty, mt_counters = (\<lambda>_. 0),
     mt_next = 0, mt_totalLatencyMs = 0, mt_latencyCount = 0, mt_startTime = now\<rparr>"

section \<open>Recording\<close>

text \<open>The program points of a call of \<open>RecordStatusCode\<close>.\<close>

datatype record_pc = Lookup | Found counter_ref | Missing | Recorded

definition add_one :: "counter_ref \<Rightarrow> metrics \<Rightarrow> metrics" where
  "add_one r m = m\<lparr>mt_counters := (mt_counters m)(r := i64 (mt_counters m r + 1))\<rparr>"

text \<open>The section under the write lock, with its second check.\<close>

definition insert_counter :: "int \<Rightarrow> metrics \<Rightarrow> metrics \<times> record_pc" where
  "insert_counter code m =
     (case mt_StatusCodes m code of
        Some r \<Rightarrow> (m, Found r)
      | None \<Rightarrow>
          (m\<lparr>mt_counters := (mt_counters m)(mt_next m := 1),
             mt_StatusCodes := (mt_StatusCodes m)(code \<mapsto> mt_next m), mt_next := Suc (mt_next m)\<rparr>,
           Recorded))"

text \<open>One section of a call.\<close>

fun record_section :: "int \<Rightarrow> record_pc \<Rightarrow> metrics \<Rightarrow> metrics \<times> record_pc" where
  "record_section code Lookup m =
     (m, case mt_StatusCodes m code of Some r \<Rightarrow> Found r | None \<Rightarrow> Missing)"
| "record_section code (Found r) m = (add_one r m, Recorded)"
| "record_section code Missing m = insert_counter code m"
| "record_section code Recorded m = (m, Recorded)"

text \<open>A call that runs alone: it is through after at most three sections.\<close>

definition RecordStatusCode :: "int \<Rightarrow> metrics \<Rightarrow> metrics" where
  "RecordStatusCode code m =
     (let (m1, pc1) = record_section code Lookup m; (m2, pc2) = record_section code pc1 m1
      in fst (record_section code pc2 m2))"

definition RecordLatency :: "int \<Rightarrow> metrics \<Rightarrow> metrics" where
  "RecordLatency ms m =
     m\<lparr>mt_totalLatencyMs := i64 (mt_totalLatencyMs m + ms), mt_latencyCount := i64 (mt_latencyCount m + 1)\<rparr>"

section \<open>The exposition\<close>

text \<open>
  The handler's text. \<open>fmt2\<close> is the verb \<open>%.2f\<close>, \<open>codes\<close> the order in which the loop meets the
  codes of the map, and \<open>now\<close> the clock.
\<close>

definition help_type :: "string \<Rightarrow> string \<Rightarrow> string \<Rightarrow> string" where
  "help_type name help kind =
     ''# HELP '' @ name @ '' '' @ help @ [CHR 0x0A] @ ''# TYPE '' @ name @ '' '' @ kind @ [CHR 0x0A]"

definition metric_int :: "string \<Rightarrow> string \<Rightarrow> string \<Rightarrow> int \<Rightarrow> string" where
  "metric_int name help kind v =
     help_type name help kind @ name @ '' '' @ show_int v @ [CHR 0x0A, CHR 0x0A]"

definition code_line :: "metrics \<Rightarrow> int \<Rightarrow> string" where
  "code_line m code =
     ''keypool_http_response_status_total{code='' @ [CHR 0x22] @ show_int code @ [CHR 0x22] @ ''} '' @
     show_int (mt_counters m (the (mt_StatusCodes m code))) @ [CHR 0x0A]"

definition f64_div :: "f64 \<Rightarrow> f64 \<Rightarrow> f64" where
  "f64_div x y = (case (x, y) of (Fin a, Fin b) \<Rightarrow> if b = 0 then NaN else f64_round (a / b) | _ \<Rightarrow> NaN)"

definition Handler :: "(f64 \<Rightarrow> string) \<Rightarrow> int list \<Rightarrow> f64 \<Rightarrow> metrics \<Rightarrow> string" where
  "Handler fmt2 codes uptime m =
     help_type ''keypool_uptime_seconds'' ''Time since service started.'' ''gauge'' @
     ''keypool_uptime_seconds '' @ fmt2 uptime @ [CHR 0x0A, CHR 0x0A] @
     metric_int ''keypool_requests_submitted_total'' ''Total requests submitted.'' ''counter''
       (mt_RequestsSubmitted m) @
     metric_int ''keypool_requests_completed_total'' ''Total requests completed successfully.'' ''counter''
       (mt_RequestsCompleted m) @
     metric_int ''keypool_requests_failed_total'' ''Total requests failed permanently.'' ''counter''
       (mt_RequestsFailed m) @
     metric_int ''keypool_requests_retried_total'' ''Total request retries.'' ''counter''
       (mt_RequestsRetried m) @
     metric_int ''keypool_queue_size'' ''Current queue depth.'' ''gauge'' (mt_QueueSize m) @
     metric_int ''keypool_workers_active'' ''Currently active workers.'' ''gauge'' (mt_ActiveWorkers m) @
     metric_int ''keypool_workers_total'' ''Total worker count.'' ''gauge'' (mt_TotalWorkers m) @
     metric_int ''keypool_keys_total'' ''Total API keys in pool.'' ''gauge'' (mt_TotalKeys m) @
     metric_int ''keypool_keys_healthy'' ''Healthy API keys in pool.'' ''gauge'' (mt_HealthyKeys m) @
     (if codes \<noteq> [] then
        help_type ''keypool_http_response_status_total'' ''HTTP response status codes from upstream.'' ''counter'' @
        concat (map (code_line m) codes) @ [CHR 0x0A]
      else '''') @
     (if 0 < mt_latencyCount m then
        help_type ''keypool_request_latency_avg_ms'' ''Average request latency in milliseconds.'' ''gauge'' @
        ''keypool_request_latency_avg_ms '' @
        fmt2 (f64_div (f64_of_int (mt_totalLatencyMs m)) (f64_of_int (mt_latencyCount m))) @ [CHR 0x0A]
      else '''')"

section \<open>Concurrent calls\<close>

record recording =
  rc_metrics :: metrics
  rc_calls :: "(int \<times> record_pc) list"

inductive record_step :: "recording \<Rightarrow> recording \<Rightarrow> bool" where
  call: "record_step s (s\<lparr>rc_calls := rc_calls s @ [(code, Lookup)]\<rparr>)"
| advance: "i < length (rc_calls s) \<Longrightarrow> rc_calls s ! i = (code, pc) \<Longrightarrow>
    record_section code pc (rc_metrics s) = (m, pc') \<Longrightarrow>
    record_step s (s\<lparr>rc_metrics := m, rc_calls := (rc_calls s)[i := (code, pc')]\<rparr>)"

inductive_cases record_stepE: "record_step s s'"

text \<open>What a scrape would report for a code.\<close>

definition reported :: "metrics \<Rightarrow> int \<Rightarrow> int" where
  "reported m code = (case mt_StatusCodes m code of None \<Rightarrow> 0 | Some r \<Rightarrow> mt_counters m r)"

definition done_for :: "int \<Rightarrow> (int \<times> record_pc) list \<Rightarrow> nat" where
  "done_for code calls = count_list calls (code, Recorded)"

definition rec_inv :: "recording \<Rightarrow> bool" where
  "rec_inv s \<longleftrightarrow>
     (\<forall>c r. mt_StatusCodes (rc_metrics s) c = Some r \<longrightarrow> r < mt_next (rc_metrics s)) \<and>
     (\<forall>c c' r. mt_StatusCodes (rc_metrics s) c = Some r \<and> mt_StatusCodes (rc_metrics s) c' = Some r \<longrightarrow> c = c') \<and>
     (\<forall>c r. (c, Found r) \<in> set (rc_calls s) \<longrightarrow> mt_StatusCodes (rc_metrics s) c = Some r) \<and>
     (\<forall>c. mt_StatusCodes (rc_metrics s) c = None \<longrightarrow> done_for c (rc_calls s) = 0) \<and>
     (\<forall>c. reported (rc_metrics s) c = i64 (int (done_for c (rc_calls s))))"

lemma count_list_update:
  assumes "i < length xs"
  shows "count_list (xs[i := y]) x = count_list xs x - (if xs ! i = x then 1 else 0) + (if y = x then 1 else 0)"
proof -
  have "count_list xs x = count_list (take i xs @ xs ! i # drop (Suc i) xs) x"
    by (rule arg_cong [OF id_take_nth_drop [OF assms]])
  also have "\<dots> = count_list (take i xs) x + (if xs ! i = x then 1 else 0) + count_list (drop (Suc i) xs) x"
    by simp
  finally have "count_list xs x = count_list (take i xs) x + (if xs ! i = x then 1 else 0) + count_list (drop (Suc i) xs) x" .
  moreover have "count_list (xs[i := y]) x =
      count_list (take i xs) x + (if y = x then 1 else 0) + count_list (drop (Suc i) xs) x"
    using assms by (simp add: upd_conv_take_nth_drop)
  ultimately show ?thesis by simp
qed

lemma reported_add:
  assumes "\<And>c c' r. mt_StatusCodes m c = Some r \<Longrightarrow> mt_StatusCodes m c' = Some r \<Longrightarrow> c = c'"
    and "mt_StatusCodes m code = Some r"
  shows "reported (add_one r m) c = (if c = code then i64 (reported m c + 1) else reported m c)"
  using assms by (auto simp: reported_def add_one_def split: option.splits)

lemma reported_insert:
  assumes "\<And>c r. mt_StatusCodes m c = Some r \<Longrightarrow> r < mt_next m" and "mt_StatusCodes m code = None"
  shows "reported (fst (insert_counter code m)) c = (if c = code then 1 else reported m c)"
  using assms by (fastforce simp: reported_def insert_counter_def split: option.splits)

text \<open>What one section has to establish for the invariant to go on.\<close>

lemma rec_inv_advance:
  fixes m :: metrics
  assumes "rec_inv s" and "i < length (rc_calls s)" and "rc_calls s ! i = (code, pc)"
    and "\<And>c r. mt_StatusCodes m c = Some r \<Longrightarrow> r < mt_next m"
    and "\<And>c c' r. mt_StatusCodes m c = Some r \<Longrightarrow> mt_StatusCodes m c' = Some r \<Longrightarrow> c = c'"
    and "\<And>c r. mt_StatusCodes (rc_metrics s) c = Some r \<Longrightarrow> mt_StatusCodes m c = Some r"
    and "\<And>r. pc' = Found r \<Longrightarrow> mt_StatusCodes m code = Some r"
    and "pc' = Recorded \<Longrightarrow> mt_StatusCodes m code \<noteq> None"
    and "\<And>c. reported m c = (if c = code \<and> pc' = Recorded then i64 (reported (rc_metrics s) c + 1)
      else reported (rc_metrics s) c)"
    and "pc \<noteq> Recorded"
  shows "rec_inv (s\<lparr>rc_metrics := m, rc_calls := (rc_calls s)[i := (code, pc')]\<rparr>)"
proof -
  let ?calls = "(rc_calls s)[i := (code, pc')]"
  have found: "\<And>c r. (c, Found r) \<in> set (rc_calls s) \<Longrightarrow> mt_StatusCodes (rc_metrics s) c = Some r"
    and none: "\<And>c. mt_StatusCodes (rc_metrics s) c = None \<Longrightarrow> done_for c (rc_calls s) = 0"
    and rep: "\<And>c. reported (rc_metrics s) c = i64 (int (done_for c (rc_calls s)))"
    using assms(1) unfolding rec_inv_def by blast+
  have count: "done_for c ?calls = done_for c (rc_calls s) + (if c = code \<and> pc' = Recorded then 1 else 0)" for c
    using count_list_update [OF assms(2), of "(code, pc')" "(c, Recorded)"] assms(3,10) by (auto simp: done_for_def)
  have "mt_StatusCodes m c = Some r" if "(c, Found r) \<in> set ?calls" for c r
  proof -
    from that have "(c, Found r) \<in> set (rc_calls s) \<or> (c, Found r) = (code, pc')"
      using set_update_subset_insert by fastforce
    then show ?thesis using found assms(6,7) by auto
  qed
  moreover have "done_for c ?calls = 0" if "mt_StatusCodes m c = None" for c
  proof -
    have "mt_StatusCodes (rc_metrics s) c = None"
      using that assms(6) [of c] by (cases "mt_StatusCodes (rc_metrics s) c") auto
    moreover have "\<not> (c = code \<and> pc' = Recorded)" using that assms(8) by auto
    ultimately show ?thesis using none count [of c] by simp
  qed
  moreover have "reported m c = i64 (int (done_for c ?calls))" for c
    using assms(9) [of c] count [of c] rep [of c] i64_add_left [of "int (done_for c (rc_calls s))" 1]
    by (auto simp: add.commute)
  ultimately show ?thesis using assms(4,5) unfolding rec_inv_def by auto
qed

lemma record_step_inv: "record_step s s' \<Longrightarrow> rec_inv s \<Longrightarrow> rec_inv s'"
proof (induction rule: record_step.induct)
  case (call s code)
  then show ?case by (auto simp: rec_inv_def done_for_def)
next
  case (advance i s code pc m pc')
  let ?m = "rc_metrics s"
  have below: "\<And>c r. mt_StatusCodes ?m c = Some r \<Longrightarrow> r < mt_next ?m"
    and inj: "\<And>c c' r. mt_StatusCodes ?m c = Some r \<Longrightarrow> mt_StatusCodes ?m c' = Some r \<Longrightarrow> c = c'"
    and found: "\<And>c r. (c, Found r) \<in> set (rc_calls s) \<Longrightarrow> mt_StatusCodes ?m c = Some r"
    using advance.prems unfolding rec_inv_def by blast+
  note go_on = rec_inv_advance [OF advance.prems advance(1,2)]
  show ?case
  proof (cases pc)
    case Lookup
    with advance(3) have "m = ?m" "pc' = (case mt_StatusCodes ?m code of Some r \<Rightarrow> Found r | None \<Rightarrow> Missing)" by auto
    with below inj Lookup show ?thesis by (intro go_on) (auto split: option.splits)
  next
    case (Found r)
    have r: "mt_StatusCodes ?m code = Some r"
      using found advance(1,2) Found by (metis nth_mem)
    have m: "m = add_one r ?m" "pc' = Recorded" using advance(3) Found by auto
    have "mt_StatusCodes m = mt_StatusCodes ?m" "mt_next m = mt_next ?m" by (simp_all add: m add_one_def)
    with below inj r m(2) Found reported_add [OF inj r] show ?thesis by (intro go_on) (auto simp: m(1))
  next
    case Missing
    show ?thesis
    proof (cases "mt_StatusCodes ?m code")
      case None
      then have m: "m = fst (insert_counter code ?m)" "pc' = Recorded"
        using advance(3) Missing by (auto simp: insert_counter_def)
      have new: "mt_StatusCodes m = (mt_StatusCodes ?m)(code \<mapsto> mt_next ?m)" "mt_next m = Suc (mt_next ?m)"
        by (simp_all add: m insert_counter_def None)
      have zero: "reported ?m code = 0" "i64 1 = 1" using None by (simp_all add: reported_def i64_idI)
      show ?thesis
        using below inj new m(2) Missing None zero reported_insert [OF below None]
        by (intro go_on) (auto simp: m(1) less_Suc_eq split: if_splits)
    next
      case (Some r)
      with advance(3) Missing have "m = ?m" "pc' = Found r" by (simp_all add: insert_counter_def)
      with below inj Missing Some show ?thesis by (intro go_on) auto
    qed
  next
    case Recorded
    with advance(3) have "m = ?m" "pc' = Recorded" by auto
    moreover from this have "(rc_calls s)[i := (code, pc')] = rc_calls s"
      using advance(2) Recorded by (metis list_update_id)
    ultimately show ?thesis using advance.prems by (simp add: rec_inv_def)
  qed
qed

lemma rec_inv_start: "rec_inv \<lparr>rc_metrics = New now, rc_calls = []\<rparr>"
  by (simp add: rec_inv_def New_def done_for_def reported_def i64_idI)

section \<open>Properties\<close>

text \<open>C31: No status code is lost or counted twice. However calls of \<open>RecordStatusCode\<close> interleave,
  among them the first calls for a code that all find no counter, the number a scrape reports for
  a code is at every moment the number of calls for it that have returned, as a 64-bit integer.\<close>

theorem no_status_code_is_lost:
  assumes "record_step\<^sup>*\<^sup>* \<lparr>rc_metrics = New now, rc_calls = []\<rparr> s"
  shows "reported (rc_metrics s) code = i64 (int (done_for code (rc_calls s)))"
proof -
  have "rec_inv s" using assms rec_inv_start [of now]
    by (induction rule: rtranclp_induct) (auto intro: record_step_inv)
  then show ?thesis by (simp add: rec_inv_def)
qed

text \<open>Two calls for the same code that both look it up before either inserts the counter.\<close>

definition section_at :: "nat \<Rightarrow> recording \<Rightarrow> recording" where
  "section_at i s =
     (let (code, pc) = rc_calls s ! i; (m, pc') = record_section code pc (rc_metrics s)
      in s\<lparr>rc_metrics := m, rc_calls := (rc_calls s)[i := (code, pc')]\<rparr>)"

lemma section_at_step:
  assumes "record_step\<^sup>*\<^sup>* s0 s" and "i < length (rc_calls s)"
  shows "record_step\<^sup>*\<^sup>* s0 (section_at i s)"
proof -
  obtain code pc where cp: "rc_calls s ! i = (code, pc)" by fastforce
  obtain m pc' where res: "record_section code pc (rc_metrics s) = (m, pc')" by fastforce
  from advance [OF assms(2) cp res] have "record_step s (section_at i s)" by (simp add: section_at_def cp res)
  with assms(1) show ?thesis by (rule rtranclp.rtrancl_into_rtrancl)
qed

lemma section_at_length [simp]: "length (rc_calls (section_at i s)) = length (rc_calls s)"
  by (simp add: section_at_def case_prod_beta Let_def)

definition two_calls :: recording where
  "two_calls = \<lparr>rc_metrics = New 0, rc_calls = [(200, Lookup), (200, Lookup)]\<rparr>"

theorem no_status_code_is_lost_witness:
  "reported (rc_metrics (section_at 1 (section_at 1 (section_at 0 (section_at 1 (section_at 0 two_calls)))))) 200 = 2"
proof -
  let ?s0 = "\<lparr>rc_metrics = New 0, rc_calls = []\<rparr>"
  have "record_step ?s0 (?s0\<lparr>rc_calls := rc_calls ?s0 @ [(200, Lookup)]\<rparr>)" by (rule call)
  then have "record_step\<^sup>*\<^sup>* ?s0 \<lparr>rc_metrics = New 0, rc_calls = [(200, Lookup)]\<rparr>" by (simp add: r_into_rtranclp)
  moreover have "record_step \<lparr>rc_metrics = New 0, rc_calls = [(200, Lookup)]\<rparr> two_calls"
    using call [of "\<lparr>rc_metrics = New 0, rc_calls = [(200, Lookup)]\<rparr>" 200] by (simp add: two_calls_def)
  ultimately have "record_step\<^sup>*\<^sup>* ?s0 two_calls" by (rule rtranclp.rtrancl_into_rtrancl)
  then have "record_step\<^sup>*\<^sup>* ?s0 (section_at 1 (section_at 1 (section_at 0 (section_at 1 (section_at 0 two_calls)))))"
    by (intro section_at_step) (simp_all add: two_calls_def)
  from no_status_code_is_lost [OF this, of 200] show ?thesis by (simp, code_simp)
qed

end
