(* ===== verification/Http_Server.thy ===== *)
theory Http_Server
  imports Api_Router Http_Client
begin

text \<open>
  What \<^verbatim>\<open>cmd/main.go\<close> puts around the handlers: the logger, the settings of the HTTP server, and
  the multiplexer that mounts the metrics endpoint beside the API. The rules of \<open>http.ServeMux\<close> are
  written out for patterns that are rooted paths of literal segments; what it makes of a pattern
  with a host, a method, a wildcard or an escape is an argument.
\<close>

section \<open>Logger and server settings\<close>

text \<open>The level is one of zerolog; \<open>parse\<close> is its \<open>ParseLevel\<close> and \<open>info\<close> its \<open>InfoLevel\<close>.\<close>

record 'level logger =
  lg_Level :: 'level
  lg_Console :: bool

definition setupLogger :: "(string \<Rightarrow> 'level option) \<Rightarrow> 'level \<Rightarrow> config \<Rightarrow> 'level logger" where
  "setupLogger parse info cfg =
     (let level = (case parse (cfg_LogLevel cfg) of None \<Rightarrow> info | Some l \<Rightarrow> l)
      in if cfg_LogFormat cfg = ''pretty'' then \<lparr>lg_Level = level, lg_Console = True\<rparr>
         else \<lparr>lg_Level = level, lg_Console = False\<rparr>)"

record http_settings =
  hs_Addr :: string
  hs_ReadTimeout :: duration
  hs_WriteTimeout :: duration
  hs_IdleTimeout :: duration

definition server_settings :: "config \<Rightarrow> http_settings" where
  "server_settings cfg =
     \<lparr>hs_Addr = '':'' @ show_int (cfg_ServerPort cfg), hs_ReadTimeout = cfg_ServerReadTimeout cfg,
      hs_WriteTimeout = cfg_ServerWriteTimeout cfg, hs_IdleTimeout = cfg_ServerIdleTimeout cfg\<rparr>"

section \<open>The metrics endpoint\<close>

text \<open>
  \<open>mux.Handle\<close> panics on a pattern without a slash and on one that is registered already; the
  pattern of the API is a single slash.
\<close>

definition metrics_pattern_ok :: "(string \<Rightarrow> bool) \<Rightarrow> string \<Rightarrow> bool" where
  "metrics_pattern_ok other pattern =
     (if list_ex (\<lambda>c. c \<in> set [CHR '' '', CHR 0x09, CHR ''{'', CHR ''}'']) pattern then other pattern
      else CHR ''/'' \<in> set pattern \<and> pattern \<noteq> ''/'')"

definition plain_pattern :: "string \<Rightarrow> bool" where
  "plain_pattern pattern \<longleftrightarrow> pattern \<noteq> '''' \<and> hd pattern = CHR ''/'' \<and>
     \<not> list_ex (\<lambda>c. c \<in> set [CHR '' '', CHR 0x09, CHR ''{'', CHR ''}'', CHR ''%'']) pattern"

definition path_segments :: "string \<Rightarrow> string list" where
  "path_segments path = map unescape_segment (tl (segments '''' path))"

text \<open>A pattern that ends in a slash matches every path below it, any other one exactly its path.\<close>

definition pattern_matches :: "string \<Rightarrow> string \<Rightarrow> bool" where
  "pattern_matches pattern path =
     (let ps = tl (segments '''' pattern); segs = path_segments path
      in if last ps = '''' then length ps \<le> length segs \<and> take (length ps - 1) segs = butlast ps
         else segs = ps)"

text \<open>A path to which only the slash at the end is missing is redirected.\<close>

definition lacks_slash :: "string \<Rightarrow> string \<Rightarrow> bool" where
  "lacks_slash pattern path \<longleftrightarrow>
     (let ps = tl (segments '''' pattern)
      in last path \<noteq> CHR ''/'' \<and> last ps = '''' \<and> path_segments path = butlast ps)"

datatype endpoint = ToApi | ToMetrics | ToPath string

definition root_mux :: "(string \<Rightarrow> api_request \<Rightarrow> endpoint) \<Rightarrow> config \<Rightarrow> api_request \<Rightarrow> endpoint" where
  "root_mux other cfg r =
     (let p = ar_EscapedPath r; pattern = cfg_MetricsPath cfg;
          path = (if ar_Method r = ''CONNECT'' then p else cleanPath p)
      in if cfg_MetricsEnabled cfg \<and> \<not> plain_pattern pattern then other pattern r
         else if path = '''' \<or> cfg_MetricsEnabled cfg \<and> lacks_slash pattern path
         then ToPath (cleanPath (ar_Path r) @ ''/'')
         else if path \<noteq> p then ToPath path
         else if cfg_MetricsEnabled cfg \<and> pattern_matches pattern path then ToMetrics
         else ToApi)"

section \<open>Which requests reach the API\<close>

text \<open>
  Once the pattern is the path of a route, that route is gone. The pattern is not validated, so an
  environment can hide the administration or the submission of requests behind the metrics, which
  ask for no token.
\<close>

theorem metrics_can_hide_a_route:
  assumes "cfg_MetricsEnabled cfg" and "cfg_MetricsPath cfg = ''/admin/keys''"
    and "ar_EscapedPath r = ''/admin/keys''"
  shows "root_mux other cfg r = ToMetrics \<and> mux_match (ar_EscapedPath r) = Some AdminKeys"
proof -
  have "plain_pattern ''/admin/keys''" "cleanPath ''/admin/keys'' = ''/admin/keys''"
      "\<not> lacks_slash ''/admin/keys'' ''/admin/keys''" "pattern_matches ''/admin/keys'' ''/admin/keys''"
      "mux_match ''/admin/keys'' = Some AdminKeys" by code_simp+
  with assms show ?thesis by (simp add: root_mux_def Let_def)
qed

text \<open>
  With the default pattern every request for a route of the API reaches the API unchanged, and the
  metrics page is served to exactly the clean requests for its own path.
\<close>

theorem default_metrics_path_hides_nothing:
  assumes "cfg_MetricsPath cfg = ''/metrics''" and "ar_EscapedPath r \<noteq> ''''"
    and "ar_Method r = ''CONNECT'' \<or> cleanPath (ar_EscapedPath r) = ar_EscapedPath r"
  shows "(mux_match (ar_EscapedPath r) \<noteq> None \<longrightarrow> root_mux other cfg r = ToApi) \<and>
    (root_mux other cfg r = ToMetrics \<longleftrightarrow>
       cfg_MetricsEnabled cfg \<and> path_segments (ar_EscapedPath r) = [''metrics''])"
proof -
  have "plain_pattern ''/metrics''" and segs: "tl (segments '''' ''/metrics'') = [''metrics'']" by code_simp+
  moreover have "pattern_matches ''/metrics'' path \<longleftrightarrow> path_segments path = [''metrics'']"
      and "\<not> lacks_slash ''/metrics'' path" for path
    by (simp_all add: pattern_matches_def lacks_slash_def segs)
  ultimately have "root_mux other cfg r =
      (if cfg_MetricsEnabled cfg \<and> path_segments (ar_EscapedPath r) = [''metrics''] then ToMetrics else ToApi)"
    using assms by (auto simp: root_mux_def Let_def)
  moreover have "mux_match (ar_EscapedPath r) = None" if "path_segments (ar_EscapedPath r) = [''metrics'']"
    using that by (simp add: mux_match_def path_segments_def)
  ultimately show ?thesis by auto
qed

text \<open>A validated level is the level of the logger, if zerolog knows its documented names.\<close>

theorem logger_has_the_configured_level:
  assumes "Load pf env = Inr cfg" and "\<forall>l \<in> set ValidLogLevels. parse l = Some (level l)"
  shows "setupLogger parse info cfg = \<lparr>lg_Level = level (cfg_LogLevel cfg), lg_Console = (cfg_LogFormat cfg = ''pretty'')\<rparr>"
proof -
  have "config_ok cfg" using assms(1) validate_ok by (auto simp: Load_def Let_def split: option.splits)
  then have "cfg_LogLevel cfg \<in> set ValidLogLevels" by (simp add: config_ok_def)
  with assms(2) show ?thesis by (simp add: setupLogger_def Let_def)
qed

end
