(* ===== verification/Running_System.thy ===== *)
theory Running_System
  imports Worker_Steps Worker_Pool Service_Metrics Http_Server
begin

text \<open>
  The running program: HTTP handlers, the dispatch loop, workers, timers and the two reload loops
  over the state they share, interleaved at their accesses, and what every such interleaving keeps.
  The boot that sets the state up is the theory \<open>Service\<close>.
\<close>

section \<open>State\<close>

text \<open>
  The parts that main puts together, and where they are. \<open>sy_hand\<close> is the item that the dispatch loop has popped and offers, \<open>sy_threads\<close> the points at
  which the workers are, by number, \<open>sy_reloader\<close> and \<open>sy_settings\<close> the points of the two reload loops
  (\<open>sy_settings\<close> are the settings read and not applied yet), \<open>sy_saved\<close> the requests that a submission
  has stored and will enqueue next.
\<close>

record system =
  sy_cfg :: config
  sy_workers :: "(worker \<times> time) list"
  sy_ready :: time
  sy_client :: client
  sy_http :: http_settings
  sy_metrics :: metrics
  sy_db :: database
  sy_queue :: queue
  sy_mgr :: manager
  sy_hot :: hot_config
  sy_hand :: "item_ref option"
  sy_threads :: "worker_pc list"
  sy_reloader :: reloader
  sy_settings :: "db_config option"
  sy_saved :: "request list"
  sy_calls :: "http_request list"
  sy_timers :: "(item_ref \<times> string \<times> duration) list"
  sy_stopping :: bool

section \<open>Steps\<close>

definition sy_server :: "system \<Rightarrow> server" where
  "sy_server s = \<lparr>sv_db = sy_db s, sv_queue = sy_queue s, sv_mgr = sy_mgr s\<rparr>"

definition put_server :: "server \<Rightarrow> system \<Rightarrow> system" where
  "put_server sv s = s\<lparr>sy_db := sv_db sv, sy_queue := sv_queue sv, sy_mgr := sv_mgr sv\<rparr>"

definition sy_world :: "system \<Rightarrow> world" where
  "sy_world s = \<lparr>w_mgr = sy_mgr s, w_db = sy_db s, w_calls = sy_calls s, w_timers = sy_timers s\<rparr>"

definition put_world :: "world \<Rightarrow> system \<Rightarrow> system" where
  "put_world w s = s\<lparr>sy_mgr := w_mgr w, sy_db := w_db w, sy_calls := w_calls w, sy_timers := w_timers w\<rparr>"

definition set_thread :: "nat \<Rightarrow> worker_pc \<Rightarrow> system \<Rightarrow> system" where
  "set_thread i pc s = s\<lparr>sy_threads := (sy_threads s)[i := pc]\<rparr>"

text \<open>The items outside the heap that someone will still use.\<close>

definition busy :: "system \<Rightarrow> item_ref list" where
  "busy s = concat (map pc_items (sy_threads s))"

definition outside :: "system \<Rightarrow> item_ref list" where
  "outside s = (case sy_hand s of None \<Rightarrow> [] | Some x \<Rightarrow> [x]) @ busy s @ map fst (sy_timers s)"

definition live :: "system \<Rightarrow> item_ref set" where
  "live s = set (outside s) \<union> contents (sy_queue s)"

text \<open>The slots that the workers hold.\<close>

definition held :: "system \<Rightarrow> key_ref multiset" where
  "held s = sum_list (map pc_slot (sy_threads s))"

text \<open>Go allocates a new item where no reachable one is.\<close>

definition unused_ref :: "system \<Rightarrow> item_ref \<Rightarrow> bool" where
  "unused_ref s x \<longleftrightarrow> x \<notin> live s"

definition worker_step ::
  "work_env \<Rightarrow> time \<Rightarrow> nat \<Rightarrow> system \<Rightarrow> (worker_pc \<times> world) option" where
  "worker_step e t i s = work_step e t (pq_heap (q_pq (sy_queue s))) (sy_threads s ! i) (sy_world s)"

text \<open>The two halves of a submission that passes the checks: storing the request, queueing its item.\<close>

definition store_submission :: "api_env \<Rightarrow> request \<Rightarrow> system \<Rightarrow> system" where
  "store_submission e req s =
     (case CreateRequest (ae_io e 1) (ae_now e) req (sy_db s) of
        (d, Some err) \<Rightarrow> s\<lparr>sy_db := d\<rparr>
      | (d, None) \<Rightarrow> s\<lparr>sy_db := d, sy_saved := req # sy_saved s\<rparr>)"

definition queue_submission :: "api_env \<Rightarrow> request \<Rightarrow> system \<Rightarrow> system" where
  "queue_submission e req s =
     s\<lparr>sy_queue := fst (Enqueue (alloc_item (ae_ref e) (new_item e req) (sy_queue s)) (ae_ref e)),
       sy_saved := remove1 req (sy_saved s)\<rparr>"

text \<open>The lock that keeps reloads out while a worker is inside \<open>GetKey\<close>.\<close>

definition lock_free :: "system \<Rightarrow> bool" where
  "lock_free s \<longleftrightarrow> (\<forall>pc \<in> set (sy_threads s). \<not> reads_pool pc)"

text \<open>
  Every step is one access to shared state, or a handler that makes at most one. The handlers that
  make more are a submission, whose halves are steps of their own, and a change of settings, each of
  whose writes is one; \<open>api_call\<close> runs any handler undisturbed.
\<close>

inductive system_step :: "system \<Rightarrow> system \<Rightarrow> bool" where
  api_call: "unused_ref s (ae_ref e) \<Longrightarrow>
    system_step s (put_server (fst (serve e (sy_cfg s) r (sy_server s))) s)"
| submission_stored: "check_submit b0 = Inr b \<Longrightarrow>
    system_step s (store_submission e (new_request e b) s)"
| submission_queued: "req \<in> set (sy_saved s) \<Longrightarrow> unused_ref s (ae_ref e) \<Longrightarrow>
    system_step s (queue_submission e req s)"
| setting_written: "system_step s (s\<lparr>sy_db := fst (UpdateSystemConfig io k v (sy_db s))\<rparr>)"
| dispatch: "sy_hand s = None \<Longrightarrow> pq_heapPop (q_pq (sy_queue s)) = Some (p, x) \<Longrightarrow>
    system_step s (s\<lparr>sy_queue := (sy_queue s)\<lparr>q_pq := p\<rparr>, sy_hand := Some x\<rparr>)"
| hand_over: "sy_hand s = Some x \<Longrightarrow> i < length (sy_threads s) \<Longrightarrow> sy_threads s ! i = Waiting \<Longrightarrow>
    system_step s (set_thread i (Loading x) (s\<lparr>sy_hand := None\<rparr>))"
| work: "i < length (sy_threads s) \<Longrightarrow> \<not> idle (sy_threads s ! i) \<Longrightarrow> worker_step e t i s = Some (pc, w) \<Longrightarrow>
    system_step s (put_world w (set_thread i pc s))"
| worker_stops: "sy_stopping s \<Longrightarrow> i < length (sy_threads s) \<Longrightarrow> sy_threads s ! i = Waiting \<Longrightarrow>
    system_step s (set_thread i Stopped s)"
| timer_fires: "t \<in> set (sy_timers s) \<Longrightarrow>
    system_step s (s\<lparr>sy_queue := fst (Enqueue (sy_queue s) (fst t)), sy_timers := remove1 t (sy_timers s)\<rparr>)"
| timer_stops: "sy_stopping s \<Longrightarrow> t \<in> set (sy_timers s) \<Longrightarrow>
    system_step s (s\<lparr>sy_timers := remove1 t (sy_timers s)\<rparr>)"
| settings_read: "GetSystemConfig io (sy_db s) = Inr m \<Longrightarrow> system_step s (s\<lparr>sy_settings := Some m\<rparr>)"
| settings_applied: "sy_settings s = Some m \<Longrightarrow>
    system_step s (s\<lparr>sy_hot := fst (Update parse fmt2 m (sy_hot s)), sy_settings := None\<rparr>)"
| key_reload: "needs_lock (sy_reloader s) \<Longrightarrow> lock_free s \<Longrightarrow>
    reload_step io (sy_hot s) (sy_db s) (sy_reloader s, sy_mgr s) = (rl, m) \<Longrightarrow>
    system_step s (s\<lparr>sy_reloader := rl, sy_mgr := m\<rparr>)"
| key_reload_read: "\<not> needs_lock (sy_reloader s) \<Longrightarrow>
    reload_step io (sy_hot s) (sy_db s) (sy_reloader s, sy_mgr s) = (rl, m) \<Longrightarrow>
    system_step s (s\<lparr>sy_reloader := rl, sy_mgr := m\<rparr>)"
| root_cancel: "system_step s (s\<lparr>sy_stopping := True\<rparr>)"
| queue_close: "sy_stopping s \<Longrightarrow> system_step s (s\<lparr>sy_queue := Close (sy_queue s)\<rparr>)"
| drop_hand: "q_done (sy_queue s) \<Longrightarrow> system_step s (s\<lparr>sy_hand := None\<rparr>)"
| drain_drop: "q_done (sy_queue s) \<Longrightarrow> pq_heapPop (q_pq (sy_queue s)) = Some (p, x) \<Longrightarrow>
    system_step s (s\<lparr>sy_queue := (sy_queue s)\<lparr>q_pq := p\<rparr>\<rparr>)"

abbreviation system_path :: "system \<Rightarrow> system \<Rightarrow> bool" where
  "system_path \<equiv> system_step\<^sup>*\<^sup>*"

text \<open>The two halves together are what the handler does when no one comes in between.\<close>

lemma submission_halves:
  assumes "req \<notin> set (sy_saved s)"
    and "CreateRequest (ae_io e 1) (ae_now e) req (sy_db s) = (d, None)"
  shows "queue_submission e req (store_submission e req s) =
    put_server (fst (save_and_enqueue e req (sy_server s))) s"
  using assms
  by (simp add: queue_submission_def store_submission_def save_and_enqueue_def put_server_def sy_server_def split_beta
      Let_def)

section \<open>The invariant\<close>

definition hot_usable :: "hot_config \<Rightarrow> bool" where
  "hot_usable h \<longleftrightarrow> hc_Strategy h \<in> set ValidStrategies \<and> 1 \<le> hc_RetryMaxAttempts h"

text \<open>
  Every item is in one place, no two items or stored submissions are for one request, and each of
  their requests has a row.
\<close>

definition saved_ids :: "system \<Rightarrow> string set" where
  "saved_ids s = rq_ID ` set (sy_saved s)"

definition items_ok :: "system \<Rightarrow> bool" where
  "items_ok s \<longleftrightarrow> distinct (outside s) \<and> set (outside s) \<inter> contents (sy_queue s) = {} \<and>
     inj_on (item_request (sy_queue s)) (live s) \<and> distinct (map rq_ID (sy_saved s)) \<and>
     saved_ids s \<inter> item_request (sy_queue s) ` live s = {} \<and>
     (\<forall>i \<in> item_request (sy_queue s) ` live s \<union> saved_ids s. request_row (sy_db s) i \<noteq> None)"

definition threads_ok :: "system \<Rightarrow> bool" where
  "threads_ok s \<longleftrightarrow> length (sy_threads s) = length (sy_workers s) \<and>
     (\<forall>pc \<in> set (sy_threads s). pc_ok (pq_heap (q_pq (sy_queue s))) (sy_mgr s) (sy_db s) pc)"

definition system_ok :: "system \<Rightarrow> bool" where
  "system_ok s \<longleftrightarrow> config_ok (sy_cfg s) \<and> db_inv (sy_db s) \<and>
     q_inv (sy_queue s) \<and> q_maxSize (sy_queue s) = cfg_QueueMaxSize (sy_cfg s) \<and>
     pool_inv (sy_mgr s, held s) \<and> hot_usable (sy_hot s) \<and> reloader_ok (sy_reloader s) \<and>
     items_ok s \<and> threads_ok s \<and> int (length (sy_workers s)) = cfg_WorkerCount (sy_cfg s)"

lemma system_views [simp]:
  "sv_db (sy_server s) = sy_db s" "sv_queue (sy_server s) = sy_queue s" "sv_mgr (sy_server s) = sy_mgr s"
  "w_mgr (sy_world s) = sy_mgr s" "w_db (sy_world s) = sy_db s" "w_timers (sy_world s) = sy_timers s"
  by (simp_all add: sy_server_def sy_world_def)

lemma put_fields [simp]:
  "sy_db (put_server sv s) = sv_db sv" "sy_queue (put_server sv s) = sv_queue sv"
  "sy_mgr (put_server sv s) = sv_mgr sv" "sy_cfg (put_server sv s) = sy_cfg s"
  "sy_threads (put_server sv s) = sy_threads s" "sy_hot (put_server sv s) = sy_hot s"
  "sy_workers (put_server sv s) = sy_workers s" "sy_saved (put_server sv s) = sy_saved s"
  "sy_reloader (put_server sv s) = sy_reloader s" "outside (put_server sv s) = outside s"
  "held (put_server sv s) = held s"
  by (simp_all add: put_server_def outside_def busy_def held_def)

lemma put_world_fields [simp]:
  "sy_db (put_world w s) = w_db w" "sy_mgr (put_world w s) = w_mgr w" "sy_timers (put_world w s) = w_timers w"
  "sy_queue (put_world w s) = sy_queue s" "sy_cfg (put_world w s) = sy_cfg s" "sy_hand (put_world w s) = sy_hand s"
  "sy_threads (put_world w s) = sy_threads s" "sy_hot (put_world w s) = sy_hot s"
  "sy_workers (put_world w s) = sy_workers s" "sy_saved (put_world w s) = sy_saved s"
  "sy_reloader (put_world w s) = sy_reloader s" "busy (put_world w s) = busy s" "held (put_world w s) = held s"
  by (simp_all add: put_world_def busy_def held_def)

lemma set_thread_fields [simp]:
  "sy_db (set_thread i pc s) = sy_db s" "sy_mgr (set_thread i pc s) = sy_mgr s"
  "sy_timers (set_thread i pc s) = sy_timers s" "sy_queue (set_thread i pc s) = sy_queue s"
  "sy_cfg (set_thread i pc s) = sy_cfg s" "sy_hand (set_thread i pc s) = sy_hand s"
  "sy_hot (set_thread i pc s) = sy_hot s" "sy_workers (set_thread i pc s) = sy_workers s"
  "sy_saved (set_thread i pc s) = sy_saved s" "sy_reloader (set_thread i pc s) = sy_reloader s"
  "sy_threads (set_thread i pc s) = (sy_threads s)[i := pc]"
  by (simp_all add: set_thread_def)

section \<open>Threads and items\<close>

lemma distinct_submset: "mset xs \<subseteq># mset ys \<Longrightarrow> distinct ys \<Longrightarrow> distinct xs"
proof -
  assume sub: "mset xs \<subseteq># mset ys" and ys: "distinct ys"
  obtain zs where "mset zs = mset ys - mset xs" using ex_mset by blast
  then have "mset (xs @ zs) = mset ys" using sub by simp
  with ys have "distinct (xs @ zs)" using mset_eq_imp_distinct_iff by blast
  then show "distinct xs" by simp
qed

lemma thread_split:
  assumes "i < length (sy_threads s)"
  obtains as bs where "sy_threads s = as @ sy_threads s ! i # bs"
    and "\<And>pc. sy_threads (set_thread i pc s) = as @ pc # bs"
proof (rule that)
  show "sy_threads s = take i (sy_threads s) @ sy_threads s ! i # drop (Suc i) (sy_threads s)"
    using assms by (rule id_take_nth_drop)
  show "sy_threads (set_thread i pc s) = take i (sy_threads s) @ pc # drop (Suc i) (sy_threads s)" for pc
    using assms by (simp add: upd_conv_take_nth_drop)
qed

lemma held_set_thread:
  assumes "i < length (sy_threads s)"
  shows "held (set_thread i pc s) = held s - pc_slot (sy_threads s ! i) + pc_slot pc"
    and "pc_slot (sy_threads s ! i) \<subseteq># held s"
proof -
  obtain as bs where split: "sy_threads s = as @ sy_threads s ! i # bs"
      "\<And>pc. sy_threads (set_thread i pc s) = as @ pc # bs"
    using thread_split [OF assms] by blast
  have "held s = sum_list (map pc_slot as) + pc_slot (sy_threads s ! i) + sum_list (map pc_slot bs)"
    by (subst held_def, subst split(1)) (simp add: add.assoc)
  moreover have "held (set_thread i pc s) = sum_list (map pc_slot as) + pc_slot pc + sum_list (map pc_slot bs)"
    by (subst held_def, subst split(2)) (simp add: add.assoc)
  ultimately show "held (set_thread i pc s) = held s - pc_slot (sy_threads s ! i) + pc_slot pc"
    and "pc_slot (sy_threads s ! i) \<subseteq># held s" by simp_all
qed

lemma busy_set_thread:
  assumes "i < length (sy_threads s)"
  obtains rest where "mset (busy s) = mset (pc_items (sy_threads s ! i)) + rest"
    and "\<forall>pc. mset (busy (set_thread i pc s)) = mset (pc_items pc) + rest"
    and "\<forall>j < length (sy_threads s). j \<noteq> i \<longrightarrow> mset (pc_items (sy_threads s ! j)) \<subseteq># rest"
proof -
  obtain as bs where split: "sy_threads s = as @ sy_threads s ! i # bs"
      "\<And>pc. sy_threads (set_thread i pc s) = as @ pc # bs"
    using thread_split [OF assms] by blast
  let ?rest = "mset (concat (map pc_items as)) + mset (concat (map pc_items bs))"
  show thesis
  proof (rule that)
    show "mset (busy s) = mset (pc_items (sy_threads s ! i)) + ?rest"
      by (subst busy_def, subst split(1)) simp
    show set: "\<forall>pc. mset (busy (set_thread i pc s)) = mset (pc_items pc) + ?rest"
      by (rule allI, subst busy_def, subst split(2)) simp
    show "\<forall>j < length (sy_threads s). j \<noteq> i \<longrightarrow> mset (pc_items (sy_threads s ! j)) \<subseteq># ?rest"
    proof (intro allI impI)
    fix j assume j: "j < length (sy_threads s)" "j \<noteq> i"
    then have "sy_threads s ! j \<in> set ((sy_threads s)[i := Waiting])"
      using nth_list_update_neq [of i j "sy_threads s" Waiting] by (metis length_list_update nth_mem)
    then have "sy_threads s ! j \<in> set (sy_threads (set_thread i Waiting s))" by simp
    then obtain us vs where "sy_threads (set_thread i Waiting s) = us @ sy_threads s ! j # vs"
      by (meson split_list)
    then have "mset (pc_items (sy_threads s ! j)) \<subseteq># mset (busy (set_thread i Waiting s))"
      by (simp add: busy_def del: set_thread_fields)
    with set show "mset (pc_items (sy_threads s ! j)) \<subseteq># ?rest" by simp
    qed
  qed
qed

lemma outside_mset:
  "mset (outside s) = mset (case sy_hand s of None \<Rightarrow> [] | Some x \<Rightarrow> [x]) + mset (busy s) + mset (map fst (sy_timers s))"
  by (simp add: outside_def)

lemma items_ok_mono:
  assumes "items_ok s" and "distinct (outside s')" and "set (outside s') \<inter> contents (sy_queue s') = {}"
    and "live s' \<subseteq> live s" and "item_request (sy_queue s') = item_request (sy_queue s)"
    and "sy_saved s' = sy_saved s" and "db_path (sy_db s) (sy_db s')"
  shows "items_ok s'"
proof -
  let ?ids = "item_request (sy_queue s) ` live s" and ?ids' = "item_request (sy_queue s') ` live s'"
  have saved: "saved_ids s' = saved_ids s" using assms(6) by (simp add: saved_ids_def)
  have sub: "?ids' \<subseteq> ?ids" using assms(4,5) by auto
  have old: "saved_ids s \<inter> ?ids = {}" "distinct (map rq_ID (sy_saved s))"
      "\<forall>i \<in> ?ids \<union> saved_ids s. request_row (sy_db s) i \<noteq> None"
      "inj_on (item_request (sy_queue s)) (live s)"
    using assms(1) by (simp_all add: items_ok_def)
  have "inj_on (item_request (sy_queue s')) (live s')" using old(4) assms(4,5) inj_on_subset by metis
  moreover have "saved_ids s' \<inter> ?ids' = {}" using old(1) sub unfolding saved by blast
  moreover have "\<forall>i \<in> ?ids' \<union> saved_ids s'. request_row (sy_db s') i \<noteq> None"
  proof
    fix i assume "i \<in> ?ids' \<union> saved_ids s'"
    then have "i \<in> ?ids \<union> saved_ids s" using sub saved by auto
    then show "request_row (sy_db s') i \<noteq> None" by (rule db_path_keeps_rows [OF assms(7) old(3) [rule_format]])
  qed
  ultimately show ?thesis using assms(2,3,6) old(2) unfolding items_ok_def by simp
qed

text \<open>Fewer items outside the heap, and the queue as it was.\<close>

lemma items_ok_fewer:
  assumes "items_ok s" and "mset (outside s') \<subseteq># mset (outside s)"
    and "contents (sy_queue s') = contents (sy_queue s)"
    and "item_request (sy_queue s') = item_request (sy_queue s)"
    and "sy_saved s' = sy_saved s" and "db_path (sy_db s) (sy_db s')"
  shows "items_ok s'"
proof (rule items_ok_mono [OF assms(1)])
  have sub: "set (outside s') \<subseteq> set (outside s)" using set_mset_mono [OF assms(2)] by simp
  then show "set (outside s') \<inter> contents (sy_queue s') = {}" "live s' \<subseteq> live s"
    using assms(1,3) by (auto simp: items_ok_def live_def)
  show "distinct (outside s')" using assms(1,2) by (auto simp: items_ok_def intro: distinct_submset)
qed fact+

lemma pc_ok_queue:
  "pc_ok (pq_heap (q_pq q)) m d pc \<longleftrightarrow>
     (\<forall>g. pc_getter pc = Some g \<longrightarrow> getter_ok m g) \<and>
     (\<forall>req. pc_request pc = Some req \<longrightarrow> rq_ID req = item_request q (hd (pc_items pc)) \<and> unfinished d (rq_ID req)) \<and>
     (\<forall>st. pc_result pc = Some st \<longrightarrow> st = RequestStatusSuccess \<or> st = RequestStatusFailed)"
  by (simp add: pc_ok_def item_request_def)

lemma pc_request_item: "pc_request pc = Some req \<Longrightarrow> \<exists>x. pc_items pc = [x]"
  by (cases pc) auto

lemma busy_item: "pc \<in> set (sy_threads s) \<Longrightarrow> x \<in> set (pc_items pc) \<Longrightarrow> x \<in> set (busy s)"
  by (auto simp: busy_def)

text \<open>The threads when someone else makes a step.\<close>

lemma threads_ok_mono:
  assumes "threads_ok s" and "sy_threads s' = sy_threads s" and "sy_workers s' = sy_workers s"
    and "same_pool (sy_mgr s) (sy_mgr s') \<or> lock_free s"
    and "\<And>i. unfinished (sy_db s) i \<Longrightarrow> unfinished (sy_db s') i"
    and "\<And>x. x \<in> set (busy s) \<Longrightarrow> item_request (sy_queue s') x = item_request (sy_queue s) x"
  shows "threads_ok s'"
  unfolding threads_ok_def assms(2,3)
proof (intro conjI ballI)
  show "length (sy_threads s) = length (sy_workers s)" using assms(1) by (simp add: threads_ok_def)
  fix pc assume pc: "pc \<in> set (sy_threads s)"
  then have ok: "pc_ok (pq_heap (q_pq (sy_queue s))) (sy_mgr s) (sy_db s) pc" using assms(1) by (simp add: threads_ok_def)
  have "getter_ok (sy_mgr s') g" if "pc_getter pc = Some g" for g
    using assms(4) ok that pc getter_ok_same by (auto simp: pc_ok_def lock_free_def)
  moreover have "item_request (sy_queue s') (hd (pc_items pc)) = item_request (sy_queue s) (hd (pc_items pc))"
    if "pc_request pc = Some req" for req
    using pc_request_item [OF that] busy_item [OF pc] assms(6) by force
  ultimately show "pc_ok (pq_heap (q_pq (sy_queue s'))) (sy_mgr s') (sy_db s') pc"
    using ok assms(5) by (auto simp: pc_ok_queue)
qed

lemma unfinished_keep: "keep_path d d' \<Longrightarrow> unfinished d i \<Longrightarrow> unfinished d' i"
  by (auto simp: unfinished_def dest: keep_path_row)

section \<open>Steps of the handlers\<close>

lemma items_ok_new:
  assumes items: "items_ok s" and x: "x \<notin> live s" and out: "outside s' = outside s"
    and con: "contents (sy_queue s') \<subseteq> insert x (contents (sy_queue s))"
    and req: "\<And>y. y \<noteq> x \<Longrightarrow> item_request (sy_queue s') y = item_request (sy_queue s) y"
    and new: "x \<in> contents (sy_queue s') \<Longrightarrow>
      request_row (sy_db s') (item_request (sy_queue s') x) \<noteq> None \<and>
      item_request (sy_queue s') x \<notin> item_request (sy_queue s) ` live s \<union> saved_ids s'"
    and saved: "distinct (map rq_ID (sy_saved s'))" "saved_ids s' \<subseteq> saved_ids s"
    and path: "db_path (sy_db s) (sy_db s')"
  shows "items_ok s'"
proof -
  let ?r = "item_request (sy_queue s)" and ?r' = "item_request (sy_queue s')"
  have live': "live s' \<subseteq> insert x (live s)" "x \<in> live s' \<Longrightarrow> x \<in> contents (sy_queue s')"
    using con x by (auto simp: live_def out)
  have same: "?r' y = ?r y" if "y \<in> live s" for y using req x that by metis
  have old: "inj_on ?r (live s)" "saved_ids s \<inter> ?r ` live s = {}"
      "\<And>i. i \<in> ?r ` live s \<union> saved_ids s \<Longrightarrow> request_row (sy_db s) i \<noteq> None"
    using items by (simp_all add: items_ok_def)
  have ids: "?r' ` (live s' - {x}) \<subseteq> ?r ` live s" using live' same by auto
  have inj: "inj_on ?r' (live s' - {x})"
    using inj_on_subset [OF old(1), of "live s' - {x}"] live' same
    by (subst inj_on_cong [of _ ?r' ?r]) auto
  have apart: "?r' x \<notin> ?r' ` (live s' - {x})" if "x \<in> live s'"
    using subsetD [OF ids] new [OF live'(2) [OF that]] by auto
  have all: "inj_on ?r' (live s')"
  proof (cases "x \<in> live s'")
    case True
    then have eq: "insert x (live s' - {x}) = live s'" by blast
    have "inj_on ?r' (insert x (live s' - {x}))" using inj apart [OF True] by (simp only: inj_on_insert Diff_idemp) simp
    then show ?thesis by (simp only: eq)
  qed (use inj in simp)
  have none: "i \<notin> ?r' ` live s'" if i: "i \<in> saved_ids s'" for i
  proof
    assume "i \<in> ?r' ` live s'"
    then obtain y where y: "y \<in> live s'" "i = ?r' y" by blast
    show False
    proof (cases "y = x")
      case True
      with y i new [OF live'(2)] show False by simp
    next
      case False
      then have "i \<in> ?r ` live s" using y subsetD [OF ids, of i] by simp
      with old(2) i saved(2) show False by auto
    qed
  qed
  moreover have "saved_ids s' \<inter> ?r' ` live s' = {}" using none by (simp add: disjoint_iff)
  moreover have "request_row (sy_db s') i \<noteq> None" if "i \<in> ?r' ` live s' \<union> saved_ids s'" for i
  proof (cases "i \<in> ?r ` live s \<union> saved_ids s")
    case True
    then show ?thesis by (rule db_path_keeps_rows [OF path old(3)])
  next
    case False
    with that ids saved(2) have "x \<in> live s'" "i = ?r' x" by auto
    with new live'(2) show ?thesis by blast
  qed
  moreover have "set (outside s') \<inter> contents (sy_queue s') = {}"
    using items con x by (auto simp: items_ok_def out live_def)
  ultimately show ?thesis using items saved(1) all unfolding items_ok_def out by simp
qed

lemma distinct_map_remove1: "distinct (map f xs) \<Longrightarrow> distinct (map f (remove1 x xs))"
  by (induction xs) (auto dest: set_remove1_subset [THEN subsetD])

lemma api_call_effect:
  assumes "system_ok s" and "unused_ref s (ae_ref e)"
  shows "handler_effect (ae_ref e) (sy_server s) (fst (serve e cfg r (sy_server s)))"
  using assms by (intro serve_effect) (simp_all add: system_ok_def unused_ref_def live_def)

lemma api_call_ok:
  assumes ok: "system_ok s" and x: "unused_ref s (ae_ref e)"
  shows "system_ok (put_server (fst (serve e cfg r (sy_server s))) s)"
proof -
  let ?sv = "fst (serve e cfg r (sy_server s))" and ?x = "ae_ref e"
  have eff: "handler_effect ?x (sy_server s) ?sv" by (rule api_call_effect [OF ok x])
  then have path: "keep_path (sy_db s) (sv_db ?sv)" by (simp add: handler_effect_def)
  have items: "items_ok s" and threads: "threads_ok s" using ok by (simp_all add: system_ok_def)
  have "items_ok (put_server ?sv s)"
  proof (rule items_ok_new [OF items, of ?x])
    show "?x \<notin> live s" using x by (simp add: unused_ref_def)
    show "contents (sy_queue (put_server ?sv s)) \<subseteq> insert ?x (contents (sy_queue s))"
      using eff by (simp add: handler_effect_def)
    show "item_request (sy_queue (put_server ?sv s)) y = item_request (sy_queue s) y" if "y \<noteq> ?x" for y
      using eff that by (simp add: handler_effect_def)
    show "distinct (map rq_ID (sy_saved (put_server ?sv s)))" "saved_ids (put_server ?sv s) \<subseteq> saved_ids s"
      using items by (simp_all add: items_ok_def saved_ids_def)
    have old: "request_row (sy_db s) i \<noteq> None" if "i \<in> item_request (sy_queue s) ` live s \<union> saved_ids s" for i
      using items that unfolding items_ok_def by blast
    assume "?x \<in> contents (sy_queue (put_server ?sv s))"
    then have "request_row (sy_db s) (item_request (sv_queue ?sv) ?x) = None"
      and "request_row (sv_db ?sv) (item_request (sv_queue ?sv) ?x) \<noteq> None"
      using eff by (simp_all add: handler_effect_def)
    with old [of "item_request (sv_queue ?sv) ?x"]
    show "request_row (sy_db (put_server ?sv s)) (item_request (sy_queue (put_server ?sv s)) ?x) \<noteq> None \<and>
        item_request (sy_queue (put_server ?sv s)) ?x \<notin>
          item_request (sy_queue s) ` live s \<union> saved_ids (put_server ?sv s)"
      by (simp add: saved_ids_def) blast
  qed (simp_all add: keep_path_db_path [OF path])
  moreover have "threads_ok (put_server ?sv s)"
  proof (rule threads_ok_mono [OF threads])
    fix y assume "y \<in> set (busy s)"
    then have "y \<noteq> ?x" using x by (auto simp: unused_ref_def live_def outside_def)
    with eff show "item_request (sy_queue (put_server ?sv s)) y = item_request (sy_queue s) y"
      by (simp add: handler_effect_def)
  qed (use eff unfinished_keep [OF path] in \<open>simp_all add: handler_effect_def\<close>)
  ultimately show ?thesis
    using ok eff db_path_inv [OF keep_path_db_path [OF path]] by (simp add: system_ok_def handler_effect_def)
qed

lemma CreateRequest_fresh:
  assumes "CreateRequest io now req d = (d', None)"
  shows "request_row d (rq_ID req) = None" and "request_row d' (rq_ID req) \<noteq> None" and "keep_step d d'"
proof -
  have "rq_ID req \<notin> rq_ID ` set (db_requests d)"
    using assms by (auto simp: CreateRequest_def split: option.splits if_splits)
  then show "request_row d (rq_ID req) = None" by (auto simp: request_row_def find_None_iff intro: rev_image_eqI)
  show "request_row d' (rq_ID req) \<noteq> None" using CreateRequest_row(1) [OF assms] by simp
  show "keep_step d d'" using keep_step_calls(7) [of d io now req] assms by simp
qed

lemma submission_stored_ok:
  assumes ok: "system_ok s"
  shows "system_ok (store_submission e req s)"
proof -
  obtain d err where cr: "CreateRequest (ae_io e 1) (ae_now e) req (sy_db s) = (d, err)" by fastforce
  show ?thesis
  proof (cases err)
    case (Some er)
    then have "d = sy_db s" using CreateRequest_row(3) [OF cr] by simp
    then have "store_submission e req s = s" unfolding store_submission_def cr Some by simp
    with ok show ?thesis by simp
  next
    case None
    let ?s = "s\<lparr>sy_db := d, sy_saved := req # sy_saved s\<rparr>"
    note fresh = CreateRequest_fresh [OF cr [unfolded None]]
    have items: "items_ok s" and threads: "threads_ok s" using ok by (simp_all add: system_ok_def)
    have views: "live ?s = live s" "outside ?s = outside s" "saved_ids ?s = insert (rq_ID req) (saved_ids s)" "held ?s = held s"
      by (simp_all add: live_def outside_def busy_def saved_ids_def held_def)
    have rows: "request_row d i \<noteq> None" if "request_row (sy_db s) i \<noteq> None" for i
      using db_path_keeps_rows [OF r_into_rtranclp [of db_step, OF keep_step_db_step [OF fresh(3)]] that] .
    have "rq_ID req \<notin> item_request (sy_queue s) ` live s \<union> saved_ids s"
      using items fresh(1) unfolding items_ok_def by metis
    then have "items_ok ?s"
      using items rows fresh(2) unfolding items_ok_def views by (auto simp: saved_ids_def)
    moreover have "threads_ok ?s"
      by (rule threads_ok_mono [OF threads]) (auto intro: unfinished_keep [OF r_into_rtranclp, OF fresh(3)])
    moreover have "store_submission e req s = ?s" unfolding store_submission_def cr None by simp
    ultimately show ?thesis
      using ok db_step_inv [OF keep_step_db_step [OF fresh(3)]] by (simp add: system_ok_def views)
  qed
qed

lemma submission_queued_ok:
  assumes ok: "system_ok s" and req: "req \<in> set (sy_saved s)" and x: "unused_ref s (ae_ref e)"
  shows "system_ok (queue_submission e req s)"
proof -
  let ?x = "ae_ref e" and ?s = "queue_submission e req s"
  let ?q = "alloc_item ?x (new_item e req) (sy_queue s)"
  have items: "items_ok s" and threads: "threads_ok s" and q: "q_inv (sy_queue s)" "?x \<notin> contents (sy_queue s)"
    using ok x by (simp_all add: system_ok_def unused_ref_def live_def)
  obtain q' res where enq: "Enqueue ?q ?x = (q', res)" by fastforce
  have q1: "q_inv ?q" "?x \<notin> contents ?q" using alloc_item_inv [OF q] q(2) by simp_all
  note eff = Enqueue_effect [OF q1 enq]
  have new: "item_request q' y = (if y = ?x then rq_ID req else item_request (sy_queue s) y)"
      "q_maxSize q' = q_maxSize (sy_queue s)" for y
    using eff(3,5) by (simp_all add: item_request_def alloc_item_def new_item_def)
  have views: "sy_queue ?s = q'" "sy_db ?s = sy_db s" "outside ?s = outside s" "held ?s = held s"
      "sy_saved ?s = remove1 req (sy_saved s)" "sy_mgr ?s = sy_mgr s" "sy_threads ?s = sy_threads s"
      "sy_workers ?s = sy_workers s"
    by (simp_all add: queue_submission_def outside_def busy_def held_def enq)
  have dis: "distinct (map rq_ID (sy_saved s))" using items by (simp add: items_ok_def)
  have "items_ok ?s"
  proof (rule items_ok_new [OF items, of ?x])
    show "?x \<notin> live s" using x by (simp add: unused_ref_def)
    show "distinct (map rq_ID (sy_saved ?s))" unfolding views using dis by (rule distinct_map_remove1)
    show "saved_ids ?s \<subseteq> saved_ids s" unfolding saved_ids_def views using set_remove1_subset by (rule image_mono)
    have "rq_ID req \<notin> saved_ids ?s"
      unfolding saved_ids_def views using dis req by (auto simp: distinct_map set_remove1_eq inj_on_def)
    moreover have "rq_ID req \<in> saved_ids s" using req by (simp add: saved_ids_def)
    then have "rq_ID req \<notin> item_request (sy_queue s) ` live s" "request_row (sy_db s) (rq_ID req) \<noteq> None"
      using items unfolding items_ok_def by blast+
    ultimately show "request_row (sy_db ?s) (item_request (sy_queue ?s) ?x) \<noteq> None \<and>
        item_request (sy_queue ?s) ?x \<notin> item_request (sy_queue s) ` live s \<union> saved_ids ?s"
      by (simp add: views new)
  qed (use eff new in \<open>simp_all add: views\<close>)
  moreover have "threads_ok ?s"
  proof (rule threads_ok_mono [OF threads])
    fix y assume "y \<in> set (busy s)"
    then have "y \<noteq> ?x" using x by (auto simp: unused_ref_def live_def outside_def)
    then show "item_request (sy_queue ?s) y = item_request (sy_queue s) y" by (simp add: views new)
  qed (simp_all add: views)
  ultimately show ?thesis
    using ok eff new by (simp add: system_ok_def views) (simp add: queue_submission_def)
qed

section \<open>Steps of the workers\<close>

lemma idle_items: "idle pc \<longleftrightarrow> pc_items pc = []"
  by (cases pc) (simp_all add: idle_def)

lemma busy_worker_item:
  assumes "\<not> idle pc"
  obtains x where "pc_items pc = [x]"
  using assms by (cases pc) (auto simp: idle_def)

lemma worker_step_effect:
  assumes ok: "system_ok s" and i: "i < length (sy_threads s)" and w: "worker_step e t i s = Some (pc, w)"
  shows "work_effect (pq_heap (q_pq (sy_queue s))) (held s) (sy_threads s ! i) (sy_world s) pc w"
proof (rule work_step_effect [OF _ _ _ w [unfolded worker_step_def]])
  have mem: "sy_threads s ! i \<in> set (sy_threads s)" using i by simp
  with ok show "pool_inv (w_mgr (sy_world s), held s)"
    "pc_ok (pq_heap (q_pq (sy_queue s))) (w_mgr (sy_world s)) (w_db (sy_world s)) (sy_threads s ! i)"
    by (simp_all add: system_ok_def threads_ok_def)
  show "pc_slot (sy_threads s ! i) \<subseteq># held s" by (rule held_set_thread(2) [OF i])
qed

text \<open>Two workers are never busy with one request.\<close>

lemma workers_apart:
  assumes ok: "items_ok s" and i: "i < length (sy_threads s)" and j: "j < length (sy_threads s)" and "i \<noteq> j"
    and x: "x \<in> set (pc_items (sy_threads s ! i))" and y: "y \<in> set (pc_items (sy_threads s ! j))"
  shows "item_request (sy_queue s) x \<noteq> item_request (sy_queue s) y"
proof
  assume same: "item_request (sy_queue s) x = item_request (sy_queue s) y"
  have "x \<in> set (busy s)" "y \<in> set (busy s)"
    using x y i j by (auto intro: busy_item [OF nth_mem])
  then have "x \<in> live s" "y \<in> live s" by (auto simp: live_def outside_def)
  then have "x = y" using ok same by (auto simp: items_ok_def dest: inj_onD)
  obtain rest where rest: "mset (busy s) = mset (pc_items (sy_threads s ! i)) + rest"
      "mset (pc_items (sy_threads s ! j)) \<subseteq># rest"
    using busy_set_thread [OF i] j \<open>i \<noteq> j\<close> by metis
  have "distinct (busy s)" using ok by (simp add: items_ok_def outside_def)
  moreover have "x \<in># mset (pc_items (sy_threads s ! i))" "x \<in># rest"
    using x y \<open>x = y\<close> mset_subset_eqD [OF rest(2)] by auto
  then have "0 < count (mset (pc_items (sy_threads s ! i))) x" "0 < count rest x"
    by (simp_all only: count_greater_zero_iff)
  then have "2 \<le> count (mset (busy s)) x" unfolding rest(1) count_union by linarith
  ultimately show False using distinct_count_atmost_1 [of "busy s"] by (auto split: if_splits)
qed

lemma work_items_ok:
  assumes ok: "system_ok s" and i: "i < length (sy_threads s)" and pc: "pc_items (sy_threads s ! i) = [x]"
    and eff: "work_effect (pq_heap (q_pq (sy_queue s))) (held s) (sy_threads s ! i) (sy_world s) pc w"
  shows "items_ok (put_world w (set_thread i pc s))"
proof (rule items_ok_fewer)
  let ?s = "put_world w (set_thread i pc s)"
  obtain rest where rest: "mset (busy s) = mset (pc_items (sy_threads s ! i)) + rest"
      "mset (busy (set_thread i pc s)) = mset (pc_items pc) + rest"
    using busy_set_thread [OF i] by metis
  have "mset (pc_items pc) + mset (map fst (w_timers w)) \<subseteq># {#x#} + mset (map fst (sy_timers s))"
    using eff pc by (auto simp: work_effect_def split: if_splits)
  then show "mset (outside ?s) \<subseteq># mset (outside s)"
    unfolding outside_mset using rest pc by (simp add: ac_simps subset_mset.add_left_mono)
  show "items_ok s" using ok by (simp add: system_ok_def)
  show "db_path (sy_db s) (sy_db ?s)" using eff by (simp add: work_effect_def others_kept_def)
qed simp_all

lemma work_threads_ok:
  assumes ok: "system_ok s" and i: "i < length (sy_threads s)" and x: "pc_items (sy_threads s ! i) = [x]"
    and eff: "work_effect (pq_heap (q_pq (sy_queue s))) (held s) (sy_threads s ! i) (sy_world s) pc w"
  shows "threads_ok (put_world w (set_thread i pc s))"
proof -
  have threads: "threads_ok s" and items: "items_ok s" using ok by (simp_all add: system_ok_def)
  have new: "pc_ok (pq_heap (q_pq (sy_queue s))) (w_mgr w) (w_db w) ((sy_threads s)[i := pc] ! j)"
    if j: "j < length (sy_threads s)" for j
  proof (cases "j = i")
    case True
    with eff j show ?thesis by (simp add: work_effect_def)
  next
    case False
    have "pc_ok (pq_heap (q_pq (sy_queue s))) (sy_mgr s) (sy_db s) (sy_threads s ! j)"
      using threads j by (simp add: threads_ok_def)
    note ok_j = this
    have "pc_ok (pq_heap (q_pq (sy_queue s))) (w_mgr w) (w_db w) (sy_threads s ! j)"
    proof (rule pc_ok_mono [OF ok_j])
      show "same_pool (sy_mgr s) (w_mgr w)" using eff by (simp add: work_effect_def)
      fix req assume req: "pc_request (sy_threads s ! j) = Some req" "unfinished (sy_db s) (rq_ID req)"
      obtain y where y: "pc_items (sy_threads s ! j) = [y]" using pc_request_item [OF req(1)] by blast
      have "rq_ID req = item_request (sy_queue s) y"
        using ok_j req(1) y by (simp add: pc_ok_queue)
      moreover have "item_request (sy_queue s) x \<noteq> item_request (sy_queue s) y"
        using workers_apart [OF items i j] False x y by simp
      ultimately have "request_row (w_db w) (rq_ID req) = request_row (sy_db s) (rq_ID req)"
        using eff x by (simp add: work_effect_def others_kept_def item_request_def)
      with req(2) show "unfinished (w_db w) (rq_ID req)" by (simp add: unfinished_def)
    qed
    with False show ?thesis by simp
  qed
  then show ?thesis using threads by (auto simp: threads_ok_def in_set_conv_nth)
qed

lemma work_ok:
  assumes ok: "system_ok s" and i: "i < length (sy_threads s)" and busy: "\<not> idle (sy_threads s ! i)"
    and w: "worker_step e t i s = Some (pc, w)"
  shows "system_ok (put_world w (set_thread i pc s))"
proof -
  obtain x where x: "pc_items (sy_threads s ! i) = [x]" by (rule busy_worker_item [OF busy])
  note eff = worker_step_effect [OF ok i w]
  have "pool_inv (w_mgr w, held (set_thread i pc s))"
    using eff by (simp add: work_effect_def held_set_thread(1) [OF i])
  moreover have "db_inv (w_db w)"
    using eff ok db_path_inv [of "sy_db s" "w_db w"] by (simp add: work_effect_def others_kept_def system_ok_def)
  ultimately show ?thesis
    using ok work_items_ok [OF ok i x eff] work_threads_ok [OF ok i x eff] by (simp add: system_ok_def)
qed

text \<open>An idle worker that takes the item offered, or stops.\<close>

lemma idle_thread_ok:
  assumes ok: "system_ok s" and i: "i < length (sy_threads s)" and w: "sy_threads s ! i = Waiting"
    and pc: "pc_slot pc = {#}" "pc_getter pc = None" "pc_request pc = None" "pc_result pc = None"
  shows "pool_inv (sy_mgr s, held (set_thread i pc s))" and "threads_ok (set_thread i pc s)"
proof -
  show "pool_inv (sy_mgr s, held (set_thread i pc s))"
    using ok w pc(1) by (simp add: held_set_thread(1) [OF i] system_ok_def)
  show "threads_ok (set_thread i pc s)"
    using ok pc(2-4) set_update_subset_insert [of "sy_threads s" i pc]
    by (auto simp: system_ok_def threads_ok_def pc_ok_def dest!: subsetD)
qed

text \<open>Setting a thread with its items exchanged.\<close>

lemma set_thread_outside:
  assumes "i < length (sy_threads s)" and "sy_threads s ! i = Waiting"
  shows "mset (outside (set_thread i pc s)) = mset (pc_items pc) + mset (outside s)"
proof -
  obtain rest where "mset (busy s) = mset (pc_items (sy_threads s ! i)) + rest"
      "\<forall>pc. mset (busy (set_thread i pc s)) = mset (pc_items pc) + rest"
    using busy_set_thread [OF assms(1)] by metis
  with assms(2) show ?thesis by (simp add: outside_mset)
qed

lemma hand_over_outside:
  assumes "sy_hand s = Some x" and "i < length (sy_threads s)" and "sy_threads s ! i = Waiting"
  shows "mset (outside (set_thread i (Loading x) (s\<lparr>sy_hand := None\<rparr>))) = mset (outside s)"
  using set_thread_outside [of i "s\<lparr>sy_hand := None\<rparr>" "Loading x"] assms by (simp add: outside_mset busy_def)

lemma hand_over_ok:
  assumes ok: "system_ok s" and hand: "sy_hand s = Some x" and i: "i < length (sy_threads s)"
    and w: "sy_threads s ! i = Waiting"
  shows "system_ok (set_thread i (Loading x) (s\<lparr>sy_hand := None\<rparr>))"
proof -
  let ?s = "set_thread i (Loading x) (s\<lparr>sy_hand := None\<rparr>)"
  have eq: "?s = (set_thread i (Loading x) s)\<lparr>sy_hand := None\<rparr>" by (simp add: set_thread_def)
  note idle = idle_thread_ok [OF ok i w, of "Loading x"]
  note out = hand_over_outside [OF hand i w]
  have items: "items_ok s" using ok by (simp add: system_ok_def)
  have "items_ok ?s" by (rule items_ok_fewer [OF items]) (simp_all add: out)
  moreover have "threads_ok ?s" using idle(2) by (simp add: eq threads_ok_def)
  moreover have "held ?s = held (set_thread i (Loading x) s)" by (simp add: held_def)
  ultimately show ?thesis using ok idle(1) by (simp add: system_ok_def)
qed

lemma worker_stops_ok:
  assumes ok: "system_ok s" and i: "i < length (sy_threads s)" and w: "sy_threads s ! i = Waiting"
  shows "system_ok (set_thread i Stopped s)"
proof -
  note out = set_thread_outside [OF i w, of Stopped]
  have items: "items_ok s" using ok by (simp add: system_ok_def)
  have "items_ok (set_thread i Stopped s)" by (rule items_ok_fewer [OF items]) (simp_all add: out)
  with ok idle_thread_ok [OF ok i w, of Stopped] show ?thesis by (simp add: system_ok_def)
qed

section \<open>Steps of the queue and the timers\<close>

lemma taken_out_queue:
  assumes "q_inv q" and "pq_heapPop (q_pq q) = Some (p, x)"
  shows "q_inv (q\<lparr>q_pq := p\<rparr>)" and "x \<in> contents q" and "contents (q\<lparr>q_pq := p\<rparr>) = contents q - {x}"
    and "item_request (q\<lparr>q_pq := p\<rparr>) = item_request q"
proof -
  have pq: "pq_inv (q_pq q)" using assms(1) by (simp add: q_inv_def)
  have "pq_refs (q_pq q) \<noteq> []" using pq_heapPop_shorter [OF assms(2)] by auto
  then have out: "taken_out (q_pq q) x p" using pq_heapPop_spec [OF pq] assms(2) by fastforce
  then show "x \<in> contents q" "contents (q\<lparr>q_pq := p\<rparr>) = contents q - {x}" by (simp_all add: taken_out_def)
  show "q_inv (q\<lparr>q_pq := p\<rparr>)" using out assms(1) by (simp add: q_inv_def taken_out_def pq_Len_def)
  have "same_but_index (q_pq q) p" using out by (simp add: taken_out_def)
  then show "item_request (q\<lparr>q_pq := p\<rparr>) = item_request q"
    by (auto simp: item_request_def fun_eq_iff same_but_index_item(1))
qed

lemma pop_ok:
  assumes ok: "system_ok s" and pop: "pq_heapPop (q_pq (sy_queue s)) = Some (p, x)"
    and s': "s' = s\<lparr>sy_queue := (sy_queue s)\<lparr>q_pq := p\<rparr>, sy_hand := h\<rparr>"
    and h: "h = sy_hand s \<or> sy_hand s = None \<and> h = Some x"
  shows "system_ok s'"
proof -
  have items: "items_ok s" and q: "q_inv (sy_queue s)" and threads: "threads_ok s"
    using ok by (simp_all add: system_ok_def)
  note out = taken_out_queue [OF q pop]
  have x: "x \<notin> set (outside s)" using out(2) items by (auto simp: items_ok_def)
  have "outside s' = outside s \<or> outside s' = x # outside s"
    using h by (auto simp: s' outside_def busy_def)
  moreover have "distinct (outside s)" "set (outside s) \<inter> contents (sy_queue s) = {}"
    using items by (simp_all add: items_ok_def)
  moreover have "contents (sy_queue s') = contents (sy_queue s) - {x}" using out(3) by (simp add: s')
  ultimately have "distinct (outside s')" "set (outside s') \<inter> contents (sy_queue s') = {}" "live s' \<subseteq> live s"
    using out(2) x unfolding live_def by (elim disjE; auto)+
  then have "items_ok s'"
    by (rule items_ok_mono [OF items]) (simp_all add: s' out(4))
  moreover have "threads_ok s'" by (rule threads_ok_mono [OF threads]) (simp_all add: s' out(4))
  moreover have "held s' = held s" by (simp add: s' held_def)
  ultimately show ?thesis using ok out(1) by (simp add: s' system_ok_def)
qed

lemma timer_removed:
  assumes "t \<in> set (sy_timers s)"
  shows "mset (outside s) = {#fst t#} + mset (outside (s\<lparr>sy_timers := remove1 t (sy_timers s)\<rparr>))"
proof -
  have "mset (map fst ts) = {#fst t#} + mset (map fst (remove1 t ts))" if "t \<in> set ts" for ts
    using that by (induction ts) auto
  from this [OF assms] show ?thesis by (simp add: outside_mset busy_def)
qed

lemma timer_ok:
  assumes ok: "system_ok s" and t: "t \<in> set (sy_timers s)"
  shows "system_ok (s\<lparr>sy_timers := remove1 t (sy_timers s)\<rparr>)"
    and "system_ok (s\<lparr>sy_queue := fst (Enqueue (sy_queue s) (fst t)), sy_timers := remove1 t (sy_timers s)\<rparr>)"
proof -
  let ?s = "s\<lparr>sy_timers := remove1 t (sy_timers s)\<rparr>"
  let ?s2 = "s\<lparr>sy_queue := fst (Enqueue (sy_queue s) (fst t)), sy_timers := remove1 t (sy_timers s)\<rparr>"
  have items: "items_ok s" and threads: "threads_ok s" using ok by (simp_all add: system_ok_def)
  note removed = timer_removed [OF t]
  have "items_ok ?s" by (rule items_ok_fewer [OF items]) (simp_all add: removed)
  moreover have "threads_ok ?s" by (rule threads_ok_mono [OF threads]) simp_all
  ultimately show "system_ok ?s" using ok by (simp add: system_ok_def held_def)
  have dis: "distinct (fst t # outside ?s)"
    using items removed mset_eq_imp_distinct_iff [of "fst t # outside ?s" "outside s"] by (simp add: items_ok_def)
  have set: "set (outside s) = insert (fst t) (set (outside ?s))"
    using arg_cong [OF removed, of set_mset] by simp
  have q: "q_inv (sy_queue s)" "fst t \<notin> contents (sy_queue s)"
    using ok items set by (auto simp: system_ok_def items_ok_def)
  obtain q' res where enq: "Enqueue (sy_queue s) (fst t) = (q', res)" by fastforce
  note eff = Enqueue_effect [OF q enq]
  have out2: "outside ?s2 = outside ?s" by (simp add: outside_def busy_def)
  have "items_ok ?s2"
  proof (rule items_ok_mono [OF items])
    show "distinct (outside ?s2)" using dis by (simp add: out2)
    show "set (outside ?s2) \<inter> contents (sy_queue ?s2) = {}"
    proof -
      have "set (outside ?s) \<inter> contents (sy_queue s) = {}" "fst t \<notin> set (outside ?s)"
        using items set dis by (auto simp: items_ok_def)
      then show ?thesis using eff(2) unfolding out2 by (auto simp: enq)
    qed
    show "live ?s2 \<subseteq> live s" using eff(2) set unfolding live_def out2 by (auto simp: enq)
  qed (simp_all add: enq eff(3))
  moreover have "threads_ok ?s2" by (rule threads_ok_mono [OF threads]) (simp_all add: enq eff(3))
  ultimately show "system_ok ?s2" using ok eff enq by (simp add: system_ok_def held_def)
qed

lemma Close_fields [simp]:
  "q_inv (Close q) = q_inv q" "contents (Close q) = contents q" "q_maxSize (Close q) = q_maxSize q"
  "item_request (Close q) = item_request q" "pq_heap (q_pq (Close q)) = pq_heap (q_pq q)"
  by (simp_all add: Close_def close_done_def close_mark_def q_inv_def item_request_def fun_eq_iff)

section \<open>Steps of the reload loops\<close>

lemma Update_usable: "hot_usable h \<Longrightarrow> hot_usable (fst (Update parse fmt2 m h))"
proof -
  assume "hot_usable h"
  moreover have "1 \<le> n \<Longrightarrow> 1 \<le> accepted_int m key n" for key n
    by (auto simp: accepted_int_def split: option.split)
  ultimately show ?thesis by (simp add: hot_usable_def Update_fst accepted_ok)
qed

text \<open>A change that touches neither items nor threads.\<close>

lemma frame_ok:
  assumes ok: "system_ok s" and "sy_hand s' = sy_hand s" "sy_timers s' = sy_timers s" "sy_threads s' = sy_threads s"
      "sy_workers s' = sy_workers s" "sy_saved s' = sy_saved s" "sy_cfg s' = sy_cfg s"
    and q: "q_inv (sy_queue s')" "contents (sy_queue s') = contents (sy_queue s)"
      "item_request (sy_queue s') = item_request (sy_queue s)" "q_maxSize (sy_queue s') = q_maxSize (sy_queue s)"
    and db: "keep_path (sy_db s) (sy_db s')"
    and mgr: "same_pool (sy_mgr s) (sy_mgr s') \<or> lock_free s" "pool_inv (sy_mgr s', held s)"
    and rest: "hot_usable (sy_hot s')" "reloader_ok (sy_reloader s')"
  shows "system_ok s'"
proof -
  have views: "outside s' = outside s" "held s' = held s" "busy s' = busy s"
    using assms(2-4) by (simp_all add: outside_def busy_def held_def)
  have items: "items_ok s" and threads: "threads_ok s" using ok by (simp_all add: system_ok_def)
  have "items_ok s'" using assms(6) q db by (intro items_ok_fewer [OF items]) (simp_all add: views keep_path_db_path)
  moreover have "threads_ok s'"
    using assms(4,5) mgr(1) q(3) unfinished_keep [OF db] by (intro threads_ok_mono [OF threads]) simp_all
  ultimately show ?thesis
    using ok assms(5,7) q mgr(2) rest db_path_inv [OF keep_path_db_path [OF db]] by (simp add: system_ok_def views)
qed

lemma system_okD:
  assumes "system_ok s"
  shows "db_ok (sy_db s)" "key_limits_ok (sy_db s)" "q_inv (sy_queue s)" "pool_inv (sy_mgr s, held s)"
    "hot_usable (sy_hot s)" "reloader_ok (sy_reloader s)" "items_ok s" "threads_ok s"
  using assms by (simp_all add: system_ok_def db_inv_def)

lemma key_reload_ok:
  assumes ok: "system_ok s" and free: "needs_lock (sy_reloader s) \<Longrightarrow> lock_free s"
    and step: "reload_step io (sy_hot s) (sy_db s) (sy_reloader s, sy_mgr s) = (rl, m)"
  shows "system_ok (s\<lparr>sy_reloader := rl, sy_mgr := m\<rparr>)"
proof -
  note inv = system_okD [OF ok]
  note reload = reload_step_inv [OF inv(4,6,1,2) step]
  have "same_pool (sy_mgr s) m \<or> lock_free s"
    using free reload(3) by (cases "needs_lock (sy_reloader s)") simp_all
  then show ?thesis using reload inv by (intro frame_ok [OF ok]) simp_all
qed

section \<open>Every step keeps the invariant\<close>

lemma drop_hand_ok: "system_ok s \<Longrightarrow> system_ok (s\<lparr>sy_hand := None\<rparr>)"
proof -
  assume ok: "system_ok s"
  have "mset (outside (s\<lparr>sy_hand := None\<rparr>)) \<subseteq># mset (outside s)" by (simp add: outside_mset busy_def)
  then have "items_ok (s\<lparr>sy_hand := None\<rparr>)" by (rule items_ok_fewer [OF system_okD(7) [OF ok]]) simp_all
  moreover have "threads_ok (s\<lparr>sy_hand := None\<rparr>)" by (rule threads_ok_mono [OF system_okD(8) [OF ok]]) simp_all
  ultimately show ?thesis using ok by (simp add: system_ok_def held_def)
qed

lemma system_step_ok: "system_step s s' \<Longrightarrow> system_ok s \<Longrightarrow> system_ok s'"
proof (induction rule: system_step.induct)
  case (setting_written s io k v)
  then show ?case
    using system_okD [OF setting_written] keep_path_call(9) [of "sy_db s" io k v]
    by (intro frame_ok [OF setting_written]) simp_all
next
  case (dispatch s p x)
  show ?case by (rule pop_ok [OF dispatch(3,2) refl]) (simp add: dispatch(1))
next
  case (drain_drop s p x)
  show ?case by (rule pop_ok [OF drain_drop(3,2), where h = "sy_hand s"]) simp_all
next
  case (settings_read io s m)
  then show ?case using system_okD [OF settings_read(2)] by (intro frame_ok [OF settings_read(2)]) simp_all
next
  case (settings_applied s m parse fmt2)
  then show ?case
    using system_okD [OF settings_applied(2)] Update_usable by (intro frame_ok [OF settings_applied(2)]) simp_all
next
  case (root_cancel s)
  then show ?case using system_okD [OF root_cancel] by (intro frame_ok [OF root_cancel]) simp_all
next
  case (queue_close s)
  then show ?case using system_okD [OF queue_close(2)] by (intro frame_ok [OF queue_close(2)]) simp_all
qed (auto intro: api_call_ok submission_stored_ok submission_queued_ok hand_over_ok work_ok worker_stops_ok timer_ok
    key_reload_ok drop_hand_ok)

lemma system_path_ok: "system_path s s' \<Longrightarrow> system_ok s \<Longrightarrow> system_ok s'"
  by (induction rule: rtranclp_induct) (auto intro: system_step_ok)

section \<open>Rows\<close>

text \<open>
  The steps that change the row of a request are those of the worker that is busy with it; all
  others keep the rows there are.
\<close>

lemma step_database:
  assumes "system_step s s'" and "system_ok s"
  shows "keep_path (sy_db s) (sy_db s') \<or>
    (\<exists>e t i x pc w. i < length (sy_threads s) \<and> pc_items (sy_threads s ! i) = [x] \<and>
       worker_step e t i s = Some (pc, w) \<and> s' = put_world w (set_thread i pc s) \<and>
       work_effect (pq_heap (q_pq (sy_queue s))) (held s) (sy_threads s ! i) (sy_world s) pc w)"
  using assms
proof (induction rule: system_step.induct)
  case (api_call s e r)
  from api_call_effect [OF api_call(2,1)] show ?case by (simp add: handler_effect_def)
next
  case (submission_stored b0 b s e)
  show ?case using keep_path_call(7) [of "sy_db s" "ae_io e 1" "ae_now e" "new_request e b"]
    by (auto simp: store_submission_def split: prod.split option.split)
next
  case (setting_written s io k v)
  then show ?case by (simp add: keep_path_call)
next
  case (work i s e t pc w)
  obtain x where "pc_items (sy_threads s ! i) = [x]" by (rule busy_worker_item [OF work(2)])
  with work(1,3) worker_step_effect [OF work(4,1,3)] show ?case by blast
qed (simp_all add: queue_submission_def)

lemma step_rows: "system_step s s' \<Longrightarrow> system_ok s \<Longrightarrow> db_path (sy_db s) (sy_db s')"
  using step_database [of s s'] keep_path_db_path by (auto simp: work_effect_def others_kept_def)

lemma system_path_rows: "system_path s s' \<Longrightarrow> system_ok s \<Longrightarrow> db_path (sy_db s) (sy_db s')"
proof (induction rule: rtranclp_induct)
  case (step y z)
  then have "system_ok y" by (simp add: system_path_ok)
  with step step_rows db_path_trans show ?case by blast
qed simp

text \<open>A final result is final.\<close>

lemma unloaded_database:
  "work_step e t heap pc w = Some (pc', w') \<Longrightarrow> pc_request pc = None \<Longrightarrow> w_db w' = w_db w"
  by (cases pc) (auto split: sum.splits if_splits)

lemma final_row_step:
  assumes step: "system_step s s'" and ok: "system_ok s" and row: "request_row (sy_db s) j = Some r" "terminal r"
  shows "request_row (sy_db s') j = Some r"
  using step_database [OF step ok]
proof (elim disjE exE conjE)
  assume "keep_path (sy_db s) (sy_db s')"
  then show ?thesis using row(1) by (rule keep_path_row)
next
  fix e t i x pc w
  assume i: "i < length (sy_threads s)" and x: "pc_items (sy_threads s ! i) = [x]"
    and w: "worker_step e t i s = Some (pc, w)" and s': "s' = put_world w (set_thread i pc s)"
    and eff: "work_effect (pq_heap (q_pq (sy_queue s))) (held s) (sy_threads s ! i) (sy_world s) pc w"
  show ?thesis
  proof (cases "item_request (sy_queue s) x = j")
    case False
    with eff x row(1) show ?thesis by (simp add: s' work_effect_def others_kept_def item_request_def)
  next
    case True
    have "pc_ok (pq_heap (q_pq (sy_queue s))) (sy_mgr s) (sy_db s) (sy_threads s ! i)"
      using system_okD(8) [OF ok] i by (simp add: threads_ok_def)
    then have "pc_request (sy_threads s ! i) = None"
      using True x row by (cases "pc_request (sy_threads s ! i)") (auto simp: pc_ok_queue unfinished_def)
    then have "w_db w = sy_db s" using unloaded_database w unfolding worker_step_def by fastforce
    with row(1) show ?thesis by (simp add: s')
  qed
qed

section \<open>Where items come from\<close>

text \<open>A live item was there before, or is that of a submission whose request is new or already stored.\<close>

lemma pop_live:
  assumes "system_ok s" and "pq_heapPop (q_pq (sy_queue s)) = Some (p, x)"
  shows "x \<in> contents (sy_queue s)" and "set (pq_refs p) \<subseteq> contents (sy_queue s)"
    and "item_request ((sy_queue s)\<lparr>q_pq := p\<rparr>) = item_request (sy_queue s)"
  using taken_out_queue [of "sy_queue s" p x] assms by (auto simp: system_ok_def)

text \<open>The requests that will still be served: of live items, and stored by a submission.\<close>

definition open_requests :: "system \<Rightarrow> string set" where
  "open_requests s = item_request (sy_queue s) ` live s \<union> saved_ids s"

lemma open_requests_rows: "system_ok s \<Longrightarrow> i \<in> open_requests s \<Longrightarrow> request_row (sy_db s) i \<noteq> None"
  unfolding open_requests_def using system_okD(7) unfolding items_ok_def by blast

lemma open_requests_fewer:
  "live s' \<subseteq> live s \<Longrightarrow> item_request (sy_queue s') = item_request (sy_queue s) \<Longrightarrow> sy_saved s' = sy_saved s \<Longrightarrow>
   open_requests s' \<subseteq> open_requests s"
  by (auto simp: open_requests_def saved_ids_def)

lemma open_request_kept:
  assumes "i \<in> open_requests s'" and "live s' \<subseteq> live s" and "sy_saved s' = sy_saved s"
    and "item_request (sy_queue s') = item_request (sy_queue s)"
  shows "i \<in> open_requests s \<or> request_row (sy_db s) i = None"
  using open_requests_fewer [OF assms(2,4,3)] assms(1) by blast

lemma live_fewer:
  "mset (outside s') \<subseteq># mset (outside s) \<Longrightarrow> contents (sy_queue s') \<subseteq> contents (sy_queue s) \<Longrightarrow> live s' \<subseteq> live s"
  using set_mset_mono [of "mset (outside s')" "mset (outside s)"] by (auto simp: live_def)

lemma remove1_saved: "req \<in> set rs \<Longrightarrow> rq_ID ` set rs = insert (rq_ID req) (rq_ID ` set (remove1 req rs))"
  by (induction rs) auto

lemma queue_submission_open:
  assumes "system_ok s" and "req \<in> set (sy_saved s)" and "unused_ref s (ae_ref e)"
  shows "open_requests (queue_submission e req s) \<subseteq> open_requests s"
proof -
  let ?x = "ae_ref e" and ?s = "queue_submission e req s"
  let ?q = "alloc_item ?x (new_item e req) (sy_queue s)"
  have q: "q_inv (sy_queue s)" "?x \<notin> contents (sy_queue s)"
    using assms by (simp_all add: system_ok_def unused_ref_def live_def)
  obtain q' res where enq: "Enqueue ?q ?x = (q', res)" by fastforce
  have "q_inv ?q" "?x \<notin> contents ?q" using alloc_item_inv [OF q] q(2) by simp_all
  note eff = Enqueue_effect [OF this enq]
  have "item_request q' y = (if y = ?x then rq_ID req else item_request (sy_queue s) y)" for y
    using eff(3) by (simp add: item_request_def alloc_item_def new_item_def)
  moreover have "outside ?s = outside s" "sy_queue ?s = q'"
    by (simp_all add: queue_submission_def outside_def busy_def enq)
  moreover have "saved_ids ?s \<subseteq> saved_ids s" "rq_ID req \<in> saved_ids s"
    using assms(2) set_remove1_subset [of req "sy_saved s"] by (auto simp: saved_ids_def queue_submission_def)
  ultimately show ?thesis using eff(2) by (auto simp: open_requests_def live_def split: if_splits)
qed

lemma api_call_open:
  assumes "system_ok s" and "unused_ref s (ae_ref e)"
    and i: "i \<in> open_requests (put_server (fst (serve e cfg r (sy_server s))) s)"
  shows "i \<in> open_requests s \<or> request_row (sy_db s) i = None"
proof -
  let ?sv = "fst (serve e cfg r (sy_server s))"
  have eff: "handler_effect (ae_ref e) (sy_server s) ?sv" by (rule api_call_effect [OF assms(1,2)])
  have saved: "saved_ids (put_server ?sv s) = saved_ids s" by (simp add: saved_ids_def)
  consider "i \<in> saved_ids s" | y where "y \<in> live (put_server ?sv s)" "i = item_request (sv_queue ?sv) y"
    using i by (auto simp: open_requests_def saved)
  then show ?thesis
  proof cases
    case (2 y)
    show ?thesis
    proof (cases "y = ae_ref e")
      case True
      with 2 assms(2) have "ae_ref e \<in> contents (sv_queue ?sv)" by (auto simp: live_def unused_ref_def)
      with eff 2 True show ?thesis by (simp add: handler_effect_def)
    next
      case False
      with 2 eff have "y \<in> live s" "i = item_request (sy_queue s) y" by (auto simp: live_def handler_effect_def)
      then show ?thesis by (simp add: open_requests_def)
    qed
  qed (simp add: open_requests_def)
qed

lemma worker_live:
  assumes "i < length (sy_threads s)" and "pc_items (sy_threads s ! i) = [x]"
    and "work_effect (pq_heap (q_pq (sy_queue s))) (held s) (sy_threads s ! i) (sy_world s) pc w"
  shows "mset (outside (put_world w (set_thread i pc s))) \<subseteq># mset (outside s)"
proof -
  obtain rest where rest: "mset (busy s) = mset (pc_items (sy_threads s ! i)) + rest"
      "\<forall>pc. mset (busy (set_thread i pc s)) = mset (pc_items pc) + rest"
    using busy_set_thread [OF assms(1)] by metis
  have "mset (pc_items pc) + mset (map fst (w_timers w)) \<subseteq># {#x#} + mset (map fst (sy_timers s))"
    using assms(2,3) by (auto simp: work_effect_def split: if_splits)
  then show ?thesis
    unfolding outside_mset using rest assms(2) by (simp add: ac_simps subset_mset.add_left_mono)
qed

lemma timer_live:
  assumes ok: "system_ok s" and t: "t \<in> set (sy_timers s)"
  defines "s' \<equiv> s\<lparr>sy_queue := fst (Enqueue (sy_queue s) (fst t)), sy_timers := remove1 t (sy_timers s)\<rparr>"
  shows "live s' \<subseteq> live s" and "item_request (sy_queue s') = item_request (sy_queue s)"
proof -
  have mem: "fst t \<in> set (outside s)" using t by (simp add: outside_def)
  then have q: "q_inv (sy_queue s)" "fst t \<notin> contents (sy_queue s)"
    using ok by (auto simp: system_ok_def items_ok_def)
  note eff = Enqueue_effect [OF q surjective_pairing]
  show "item_request (sy_queue s') = item_request (sy_queue s)" using eff(3) by (simp add: s'_def)
  have "set (outside s') \<subseteq> set (outside s)"
    using timer_removed [OF t] by (auto simp: s'_def outside_def busy_def dest: set_remove1_subset [THEN subsetD])
  then show "live s' \<subseteq> live s" using eff(2) mem by (auto simp: live_def s'_def)
qed

lemma step_open:
  assumes "system_step s s'" and "system_ok s" and "i \<in> open_requests s'"
  shows "i \<in> open_requests s \<or> request_row (sy_db s) i = None"
  using assms
proof (induction rule: system_step.induct)
  case (api_call s e r)
  from api_call_open [OF api_call(2,1,3)] show ?case .
next
  case (submission_stored b0 b s e)
  obtain d err where cr: "CreateRequest (ae_io e 1) (ae_now e) (new_request e b) (sy_db s) = (d, err)" by fastforce
  have views: "live (s\<lparr>sy_db := d\<rparr>) = live s" "live (s\<lparr>sy_db := d, sy_saved := new_request e b # sy_saved s\<rparr>) = live s"
    by (simp_all add: live_def outside_def busy_def)
  show ?case
  proof (cases err)
    case None
    then have "store_submission e (new_request e b) s = s\<lparr>sy_db := d, sy_saved := new_request e b # sy_saved s\<rparr>"
      unfolding store_submission_def cr by simp
    with submission_stored(3) CreateRequest_fresh(1) [OF cr [unfolded None]] views show ?thesis
      by (auto simp: open_requests_def saved_ids_def)
  next
    case (Some er)
    then have "store_submission e (new_request e b) s = s\<lparr>sy_db := d\<rparr>" unfolding store_submission_def cr by simp
    with submission_stored(3) views show ?thesis by (auto simp: open_requests_def saved_ids_def)
  qed
next
  case (submission_queued req s e)
  with queue_submission_open show ?case by blast
next
  case (dispatch s p x)
  have "live (s\<lparr>sy_queue := (sy_queue s)\<lparr>q_pq := p\<rparr>, sy_hand := Some x\<rparr>) \<subseteq> live s"
    using pop_live [OF dispatch(3,2)] dispatch(1) by (auto simp: live_def outside_def busy_def)
  from open_request_kept [OF dispatch(4) this] show ?case by (simp add: pop_live(3) [OF dispatch(3,2)])
next
  case (drain_drop s p x)
  have "live (s\<lparr>sy_queue := (sy_queue s)\<lparr>q_pq := p\<rparr>\<rparr>) \<subseteq> live s"
    using pop_live [OF drain_drop(3,2)] by (auto simp: live_def outside_def busy_def)
  from open_request_kept [OF drain_drop(4) this] show ?case by (simp add: pop_live(3) [OF drain_drop(3,2)])
next
  case (work j s e t pc w)
  obtain x where "pc_items (sy_threads s ! j) = [x]" by (rule busy_worker_item [OF work(2)])
  from worker_live [OF work(1) this worker_step_effect [OF work(4,1,3)]]
  have "live (put_world w (set_thread j pc s)) \<subseteq> live s" by (rule live_fewer) simp
  from open_request_kept [OF work(5) this] show ?case by simp
next
  case (hand_over s x j)
  have "live (set_thread j (Loading x) (s\<lparr>sy_hand := None\<rparr>)) \<subseteq> live s"
    using hand_over_outside [OF hand_over(1-3)] by (intro live_fewer) simp_all
  from open_request_kept [OF hand_over(5) this] show ?case by simp
next
  case (worker_stops s j)
  have "live (set_thread j Stopped s) \<subseteq> live s"
    using set_thread_outside [OF worker_stops(2,3), of Stopped] by (intro live_fewer) simp_all
  from open_request_kept [OF worker_stops(5) this] show ?case by simp
next
  case (timer_fires t s)
  note t = timer_live [OF timer_fires(2,1)]
  show ?case by (rule open_request_kept [OF timer_fires(3) t(1) _ t(2)]) simp
next
  case (timer_stops s t)
  have "live (s\<lparr>sy_timers := remove1 t (sy_timers s)\<rparr>) \<subseteq> live s"
    using timer_removed [OF timer_stops(2)] by (intro live_fewer) simp_all
  from open_request_kept [OF timer_stops(4) this] show ?case by simp
next
  case (drop_hand s)
  have "live (s\<lparr>sy_hand := None\<rparr>) \<subseteq> live s" by (rule live_fewer) (simp_all add: outside_mset busy_def)
  from open_request_kept [OF drop_hand(3) this] show ?case by simp
qed (auto simp: open_requests_def saved_ids_def live_def outside_def busy_def)

section \<open>Where items go\<close>

definition shutting_down :: "system \<Rightarrow> bool" where
  "shutting_down s \<longleftrightarrow> sy_stopping s \<or> q_closed (sy_queue s) \<or> q_done (sy_queue s)"

lemma open_requests_more:
  assumes "i \<in> open_requests s" and "live s \<subseteq> live s'" and "sy_saved s' = sy_saved s"
    and "\<And>x. x \<in> live s \<Longrightarrow> item_request (sy_queue s') x = item_request (sy_queue s) x"
  shows "i \<in> open_requests s'"
  using assms by (force simp: open_requests_def saved_ids_def)

lemma api_call_keeps_open:
  assumes "system_ok s" and "unused_ref s (ae_ref e)" and "i \<in> open_requests s"
    and "\<not> is_full (sy_queue s)" and "\<not> q_closed (sy_queue s)"
  shows "i \<in> open_requests (put_server (fst (serve e cfg r (sy_server s))) s)"
proof (rule open_requests_more [OF assms(3)])
  have eff: "handler_effect (ae_ref e) (sy_server s) (fst (serve e cfg r (sy_server s)))"
    by (rule api_call_effect [OF assms(1,2)])
  then show "live s \<subseteq> live (put_server (fst (serve e cfg r (sy_server s))) s)"
    using assms(4,5) by (auto simp: live_def handler_effect_def)
  fix x assume "x \<in> live s"
  then have "x \<noteq> ae_ref e" using assms(2) by (auto simp: unused_ref_def)
  with eff show "item_request (sy_queue (put_server (fst (serve e cfg r (sy_server s))) s)) x = item_request (sy_queue s) x"
    by (simp add: handler_effect_def)
qed simp

lemma queue_submission_keeps_open:
  assumes "system_ok s" and "req \<in> set (sy_saved s)" and "unused_ref s (ae_ref e)" and "i \<in> open_requests s"
    and "\<not> is_full (sy_queue s)" and "\<not> q_closed (sy_queue s)"
  shows "i \<in> open_requests (queue_submission e req s)"
proof -
  let ?x = "ae_ref e" and ?s = "queue_submission e req s"
  let ?q = "alloc_item ?x (new_item e req) (sy_queue s)"
  have q: "q_inv (sy_queue s)" "?x \<notin> contents (sy_queue s)"
    using assms by (simp_all add: system_ok_def unused_ref_def live_def)
  obtain q' res where enq: "Enqueue ?q ?x = (q', res)" by fastforce
  have "q_inv ?q" "?x \<notin> contents ?q" using alloc_item_inv [OF q] q(2) by simp_all
  note eff = Enqueue_effect [OF this enq]
  have req: "item_request q' y = (if y = ?x then rq_ID req else item_request (sy_queue s) y)" for y
    using eff(3) by (simp add: item_request_def alloc_item_def new_item_def)
  have con: "contents q' = insert ?x (contents (sy_queue s))"
    using eff(6) assms(5,6) by (simp add: is_full_def) (simp add: alloc_item_def)
  have views: "outside ?s = outside s" "sy_queue ?s = q'" "sy_saved ?s = remove1 req (sy_saved s)"
    by (simp_all add: queue_submission_def outside_def busy_def enq)
  have live: "live ?s = insert ?x (live s)" by (auto simp: live_def views con)
  have "?x \<notin> live s" using assms(3) by (simp add: unused_ref_def)
  then have "item_request q' ` live ?s = insert (rq_ID req) (item_request (sy_queue s) ` live s)"
    unfolding live by (auto simp: req)
  then show ?thesis
    using assms(4) remove1_saved [OF assms(2)] by (auto simp: open_requests_def saved_ids_def views)
qed

text \<open>The accesses of a worker that need the database and whose failure it only logs.\<close>

fun access_fails :: "work_env \<Rightarrow> worker_pc \<Rightarrow> bool" where
  "access_fails e (Loading x) \<longleftrightarrow> we_load e \<noteq> None"
| "access_fails e (Storing x req status code body err) \<longleftrightarrow> we_result_io e \<noteq> None"
| "access_fails e _ \<longleftrightarrow> False"

lemma other_access:
  assumes "\<not> access_fails e pc"
  shows "work_step e t heap pc w = work_step (e\<lparr>we_load := None, we_result_io := None\<rparr>) t heap pc w"
  using assms by (cases pc) (simp_all add: http_request_of_def persistResult_def Let_def split: sum.split option.split)

lemma worker_keeps_open:
  assumes ok: "system_ok s" and j: "j < length (sy_threads s)" and busy: "\<not> idle (sy_threads s ! j)"
    and w: "worker_step e t j s = Some (pc, w)" and i: "i \<in> open_requests s"
    and closed: "i \<notin> open_requests (put_world w (set_thread j pc s))"
  shows "\<exists>x. pc_items (sy_threads s ! j) = [x] \<and> item_request (sy_queue s) x = i"
    and "\<not> access_fails e (sy_threads s ! j) \<Longrightarrow> \<exists>r. request_row (w_db w) i = Some r \<and> terminal r"
proof -
  let ?s = "put_world w (set_thread j pc s)"
  obtain x where x: "pc_items (sy_threads s ! j) = [x]" by (rule busy_worker_item [OF busy])
  note eff = worker_step_effect [OF ok j w]
  obtain rest where rest: "mset (busy s) = mset (pc_items (sy_threads s ! j)) + rest"
      "\<forall>pc. mset (busy (set_thread j pc s)) = mset (pc_items pc) + rest"
    using busy_set_thread [OF j] by metis
  have gone: "pc_items pc = [] \<and> w_timers w = sy_timers s"
  proof (rule ccontr)
    assume "\<not> (pc_items pc = [] \<and> w_timers w = sy_timers s)"
    then have "mset (pc_items pc) + mset (map fst (w_timers w)) = {#x#} + mset (map fst (sy_timers s))"
      using eff x by (auto simp: work_effect_def split: if_splits)
    then have "mset (outside ?s) = mset (outside s)"
      unfolding outside_mset using rest x by (simp add: ac_simps)
    then have "live s \<subseteq> live ?s" by (intro live_fewer) simp_all
    then have "i \<in> open_requests ?s" by (intro open_requests_more [OF i]) simp_all
    with closed show False ..
  qed
  then have "mset (outside s) = {#x#} + mset (outside ?s)" unfolding outside_mset using rest x by simp
  then have "set (outside s) = insert x (set (outside ?s))"
    by (metis set_mset_add_mset_insert set_mset_mset add_mset_add_single union_commute)
  then have "live s = insert x (live ?s)" by (auto simp: live_def)
  with i closed have id: "i = item_request (sy_queue s) x" by (auto simp: open_requests_def saved_ids_def)
  with x show "\<exists>x. pc_items (sy_threads s ! j) = [x] \<and> item_request (sy_queue s) x = i" by blast
  assume "\<not> access_fails e (sy_threads s ! j)"
  note w' = w [unfolded worker_step_def other_access [OF this]]
  have "pc_ok (pq_heap (q_pq (sy_queue s))) (sy_mgr s) (w_db (sy_world s)) (sy_threads s ! j)"
    using system_okD(8) [OF ok] j by (simp add: threads_ok_def)
  moreover have "request_row (w_db (sy_world s)) (it_RequestID (pq_heap (q_pq (sy_queue s)) x)) \<noteq> None"
    using open_requests_rows [OF ok i] id by (simp add: item_request_def)
  ultimately show "\<exists>r. request_row (w_db w) i = Some r \<and> terminal r"
    using work_step_gives_up [OF w' x] gone id by (simp add: item_request_def)
qed

lemma timer_keeps_open:
  assumes ok: "system_ok s" and t: "t \<in> set (sy_timers s)" and i: "i \<in> open_requests s"
    and "\<not> is_full (sy_queue s)" and "\<not> q_closed (sy_queue s)"
  shows "i \<in> open_requests (s\<lparr>sy_queue := fst (Enqueue (sy_queue s) (fst t)), sy_timers := remove1 t (sy_timers s)\<rparr>)"
proof -
  let ?s = "s\<lparr>sy_queue := fst (Enqueue (sy_queue s) (fst t)), sy_timers := remove1 t (sy_timers s)\<rparr>"
  have "fst t \<in> set (outside s)" using t by (simp add: outside_def)
  then have q: "q_inv (sy_queue s)" "fst t \<notin> contents (sy_queue s)"
    using ok by (auto simp: system_ok_def items_ok_def)
  have con: "contents (sy_queue ?s) = insert (fst t) (contents (sy_queue s))"
    using Enqueue_effect(6) [OF q surjective_pairing] assms(4,5) by simp
  have "mset (outside s) = {#fst t#} + mset (outside ?s)"
    using timer_removed [OF t] by (simp add: outside_mset busy_def)
  then have "set (outside s) = insert (fst t) (set (outside ?s))"
    by (metis set_mset_add_mset_insert set_mset_mset add_mset_add_single union_commute)
  then have "live s \<subseteq> live ?s" using con by (auto simp: live_def)
  with timer_live(2) [OF ok t] show ?thesis by (intro open_requests_more [OF i]) simp_all
qed

text \<open>How a request can stop being open while the program runs.\<close>

lemma step_close:
  assumes "system_step s s'" and "system_ok s" and "i \<in> open_requests s" and "\<not> shutting_down s"
    and "\<not> is_full (sy_queue s)"
  shows "i \<in> open_requests s' \<or>
    (\<exists>e t j pc w. j < length (sy_threads s) \<and> \<not> idle (sy_threads s ! j) \<and>
       worker_step e t j s = Some (pc, w) \<and> s' = put_world w (set_thread j pc s))"
  using assms
proof (induction rule: system_step.induct)
  case (api_call s e r)
  then show ?case using api_call_keeps_open by (simp add: shutting_down_def)
next
  case (submission_stored b0 b s e)
  have "live (store_submission e (new_request e b) s) = live s"
      "item_request (sy_queue (store_submission e (new_request e b) s)) = item_request (sy_queue s)"
      "saved_ids s \<subseteq> saved_ids (store_submission e (new_request e b) s)"
    by (auto simp: store_submission_def live_def outside_def busy_def saved_ids_def split: prod.split option.split)
  with submission_stored show ?case by (auto simp: open_requests_def)
next
  case (submission_queued req s e)
  then show ?case using queue_submission_keeps_open by (simp add: shutting_down_def)
next
  case (dispatch s p x)
  have q: "q_inv (sy_queue s)" by (rule system_okD(3) [OF dispatch(3)])
  have "contents ((sy_queue s)\<lparr>q_pq := p\<rparr>) = contents (sy_queue s) - {x}" by (rule taken_out_queue(3) [OF q dispatch(2)])
  then have "live s \<subseteq> live (s\<lparr>sy_queue := (sy_queue s)\<lparr>q_pq := p\<rparr>, sy_hand := Some x\<rparr>)"
    using dispatch(1) by (auto simp: live_def outside_def busy_def)
  then have "i \<in> open_requests (s\<lparr>sy_queue := (sy_queue s)\<lparr>q_pq := p\<rparr>, sy_hand := Some x\<rparr>)"
    by (rule open_requests_more [OF dispatch(4)]) (simp_all add: pop_live(3) [OF dispatch(3,2)])
  then show ?case ..
next
  case (hand_over s x j)
  have "live s \<subseteq> live (set_thread j (Loading x) (s\<lparr>sy_hand := None\<rparr>))"
    using hand_over_outside [OF hand_over(1-3)] by (intro live_fewer) simp_all
  from open_requests_more [OF hand_over(5) this] show ?case by simp
next
  case (work j s e t pc w)
  then show ?case by blast
next
  case (timer_fires t s)
  then show ?case using timer_keeps_open by (simp add: shutting_down_def)
qed (auto simp: open_requests_def saved_ids_def live_def outside_def busy_def shutting_down_def)

section \<open>An undisturbed worker in the running system\<close>

lemma set_thread_twice: "set_thread i pc' (put_world w (set_thread i pc s)) = put_world w (set_thread i pc' s)"
  by (simp add: set_thread_def put_world_def)

lemma put_world_twice: "put_world w' (put_world w s) = put_world w' s"
  by (simp add: put_world_def)

lemma put_world_same: "put_world (sy_world s) (set_thread i (sy_threads s ! i) s) = s"
  by (simp add: put_world_def sy_world_def set_thread_def)

lemma sy_world_put: "sy_world (put_world w s) = w"
  by (simp add: put_world_def sy_world_def)

text \<open>What a worker does alone, it can do in the running system.\<close>

lemma work_path_system:
  assumes "work_path e (pq_heap (q_pq (sy_queue s))) (sy_threads s ! i, sy_world s) pw" and "i < length (sy_threads s)"
  shows "system_path s (put_world (snd pw) (set_thread i (fst pw) s))"
  using assms(1)
proof (induction rule: rtranclp_induct)
  case base
  then show ?case by (simp add: put_world_same)
next
  case (step y z)
  let ?s = "put_world (snd y) (set_thread i (fst y) s)"
  obtain t where busy: "\<not> idle (fst y)" and "work_step e t (pq_heap (q_pq (sy_queue s))) (fst y) (snd y) = Some z"
    using step(2) by (cases rule: work_move.cases) auto
  then have "worker_step e t i ?s = Some (fst z, snd z)"
    using assms(2) by (simp add: worker_step_def sy_world_put)
  from work [OF _ _ this] have "system_step ?s (put_world (snd z) (set_thread i (fst z) ?s))"
    using assms(2) busy by simp
  then show ?case using step.IH by (simp add: set_thread_twice put_world_twice)
qed

end
