(* ===== verification/Migrations.thy ===== *)
theory Migrations
  imports Go_Strings
begin

text \<open>
  The migration runner of \<^verbatim>\<open>internal/db/migrations.go\<close>. The database is its tracking table
  \<open>schema_migrations\<close>, if that exists, and everything else, of some type \<open>'s\<close> on which the SQL of
  a migration acts: what a script does is the argument \<open>exec\<close>, an error or the new content. A
  transaction that is not committed leaves the database as it was. The other ways in which the
  driver or the file system can fail are arguments too.
\<close>

section \<open>Files\<close>

record migration =
  mg_Version :: int
  mg_Name :: string
  mg_Filename :: string
  mg_SQL :: string

text \<open>What \<open>os.ReadDir\<close> lists, and \<open>os.ReadFile\<close> of a name in the directory.\<close>

record directory =
  dir_entries :: "string + (string \<times> bool) list"
  dir_read :: "string \<Rightarrow> string + string"

text \<open>
  \<open>fmt.Sscanf(s, "%d", &version)\<close>: blanks, a sign, digits; what follows the digits is not looked
  at, and a number beyond the range of int is an error.
\<close>

definition is_blank :: "char \<Rightarrow> bool" where
  "is_blank c \<longleftrightarrow> c \<in> set [CHR '' '', CHR 0x09, CHR 0x0B, CHR 0x0C, CHR 0x0D]"

definition scan_int :: "string \<Rightarrow> int option" where
  "scan_int s =
     (let t = dropWhile is_blank s;
          sign = takeWhile (\<lambda>c. c \<in> set [CHR ''-'', CHR ''+'']) (take 1 t);
          digits = takeWhile (\<lambda>c. digit_of c \<noteq> None) (drop (length sign) t)
      in if digits = '''' then None else Atoi (sign @ digits))"

definition is_migration_file :: "string \<times> bool \<Rightarrow> bool" where
  "is_migration_file entry \<longleftrightarrow> \<not> snd entry \<and> has_suffix (fst entry) ''.sql''"

text \<open>One entry of the directory.\<close>

definition load_one :: "directory \<Rightarrow> string \<Rightarrow> string + migration" where
  "load_one dir filename =
     (case split2 CHR ''_'' filename of
        (first, None) \<Rightarrow> Inl (''invalid migration filename format: '' @ filename @ '' (expected NNN_name.sql)'')
      | (first, Some rest) \<Rightarrow>
          (case scan_int first of
             None \<Rightarrow> Inl (''failed to parse version from '' @ filename)
           | Some version \<Rightarrow>
               (case dir_read dir filename of
                  Inl err \<Rightarrow> Inl (''failed to read migration '' @ filename @ '': '' @ err)
                | Inr sql \<Rightarrow>
                    Inr \<lparr>mg_Version = version, mg_Name = trim_suffix rest ''.sql'',
                         mg_Filename = filename, mg_SQL = sql\<rparr>)))"

fun load_entries :: "directory \<Rightarrow> (string \<times> bool) list \<Rightarrow> string + migration list" where
  "load_entries dir [] = Inr []"
| "load_entries dir (entry # entries) =
     (if \<not> is_migration_file entry then load_entries dir entries
      else case load_one dir (fst entry) of
             Inl err \<Rightarrow> Inl err
           | Inr m \<Rightarrow>
               (case load_entries dir entries of Inl err \<Rightarrow> Inl err | Inr ms \<Rightarrow> Inr (m # ms)))"

text \<open>
  The files sorted by version. \<open>sort.Slice\<close> sorts up to twelve elements by insertion, which keeps
  the order of equal ones, as \<open>sort_key\<close> does; more than twelve with equal versions may come in
  another order.
\<close>

definition loadMigrations :: "directory \<Rightarrow> string + migration list" where
  "loadMigrations dir =
     (case dir_entries dir of
        Inl err \<Rightarrow> Inl (''failed to read migrations directory: '' @ err)
      | Inr entries \<Rightarrow>
          (case load_entries dir entries of Inl err \<Rightarrow> Inl err | Inr ms \<Rightarrow> Inr (sort_key mg_Version ms)))"

section \<open>The database\<close>

record 's mig_db =
  md_data :: 's
  md_table :: "(int \<times> string) list option"

text \<open>Failures of the driver: creating the table, reading it, beginning and committing a transaction.\<close>

record mig_io =
  io_create :: "string option"
  io_query :: "string option"
  io_begin :: "int \<Rightarrow> string option"
  io_commit :: "int \<Rightarrow> string option"

definition createMigrationsTable :: "mig_io \<Rightarrow> 's mig_db \<Rightarrow> string + 's mig_db" where
  "createMigrationsTable io d =
     (case io_create io of
        Some err \<Rightarrow> Inl err
      | None \<Rightarrow> Inr (case md_table d of None \<Rightarrow> d\<lparr>md_table := Some []\<rparr> | Some rows \<Rightarrow> d))"

definition getAppliedMigrations :: "mig_io \<Rightarrow> 's mig_db \<Rightarrow> string + int list" where
  "getAppliedMigrations io d =
     (case io_query io of
        Some err \<Rightarrow> Inl err
      | None \<Rightarrow>
          (case md_table d of
             None \<Rightarrow> Inl ''no such table: schema_migrations''
           | Some rows \<Rightarrow> Inr (map fst rows)))"

text \<open>
  One migration in its transaction: the script, the row (whose version is the primary key) and the
  commit; on any error the deferred \<open>Rollback\<close> undoes what was done.
\<close>

definition executeMigration ::
  "(string \<Rightarrow> 's \<Rightarrow> string + 's) \<Rightarrow> mig_io \<Rightarrow> migration \<Rightarrow> 's mig_db \<Rightarrow> string + 's mig_db" where
  "executeMigration exec io m d =
     (case io_begin io (mg_Version m) of
        Some err \<Rightarrow> Inl (''failed to begin transaction: '' @ err)
      | None \<Rightarrow>
          (case exec (mg_SQL m) (md_data d) of
             Inl err \<Rightarrow> Inl (''failed to execute SQL: '' @ err)
           | Inr data \<Rightarrow>
               (case md_table d of
                  None \<Rightarrow> Inl ''failed to record migration: no such table: schema_migrations''
                | Some rows \<Rightarrow>
                    if mg_Version m \<in> set (map fst rows)
                    then Inl ''failed to record migration: UNIQUE constraint failed: schema_migrations.version''
                    else (case io_commit io (mg_Version m) of
                            Some err \<Rightarrow> Inl (''failed to commit transaction: '' @ err)
                          | None \<Rightarrow>
                              Inr (d\<lparr>md_data := data,
                                     md_table := Some (rows @ [(mg_Version m, mg_Name m)])\<rparr>)))))"

text \<open>The loop over the migrations: the database it reaches, and the error that stopped it.\<close>

fun run_pending ::
  "(string \<Rightarrow> 's \<Rightarrow> string + 's) \<Rightarrow> mig_io \<Rightarrow> int list \<Rightarrow> migration list \<Rightarrow> 's mig_db \<Rightarrow>
   's mig_db \<times> string option" where
  "run_pending exec io applied [] d = (d, None)"
| "run_pending exec io applied (m # ms) d =
     (if mg_Version m \<in> set applied then run_pending exec io applied ms d
      else case executeMigration exec io m d of
             Inl err \<Rightarrow> (d, Some (''failed to execute migration '' @ show_int (mg_Version m) @ '' ('' @ mg_Name m @ ''): '' @ err))
           | Inr d' \<Rightarrow> run_pending exec io applied ms d')"

definition RunMigrations ::
  "(string \<Rightarrow> 's \<Rightarrow> string + 's) \<Rightarrow> mig_io \<Rightarrow> directory \<Rightarrow> 's mig_db \<Rightarrow> 's mig_db \<times> string option" where
  "RunMigrations exec io dir d =
     (case createMigrationsTable io d of
        Inl err \<Rightarrow> (d, Some (''failed to create migrations table: '' @ err))
      | Inr d1 \<Rightarrow>
          (case loadMigrations dir of
             Inl err \<Rightarrow> (d1, Some (''failed to load migrations: '' @ err))
           | Inr migrations \<Rightarrow>
               (case getAppliedMigrations io d1 of
                  Inl err \<Rightarrow> (d1, Some (''failed to get applied migrations: '' @ err))
                | Inr applied \<Rightarrow> run_pending exec io applied migrations d1)))"

section \<open>What a run does\<close>

fun run_scripts :: "(string \<Rightarrow> 's \<Rightarrow> string + 's) \<Rightarrow> string list \<Rightarrow> 's \<Rightarrow> string + 's" where
  "run_scripts exec [] s = Inr s"
| "run_scripts exec (q # qs) s = (case exec q s of Inl err \<Rightarrow> Inl err | Inr s' \<Rightarrow> run_scripts exec qs s')"

definition pending :: "int list \<Rightarrow> migration list \<Rightarrow> migration list" where
  "pending applied ms = filter (\<lambda>m. mg_Version m \<notin> set applied) ms"

definition row_of :: "migration \<Rightarrow> int \<times> string" where
  "row_of m = (mg_Version m, mg_Name m)"

definition table_rows :: "'s mig_db \<Rightarrow> (int \<times> string) list" where
  "table_rows d = (case md_table d of None \<Rightarrow> [] | Some rows \<Rightarrow> rows)"

text \<open>\<open>d'\<close> is \<open>d\<close> after the scripts of \<open>ms\<close>, each recorded.\<close>

definition after :: "(string \<Rightarrow> 's \<Rightarrow> string + 's) \<Rightarrow> migration list \<Rightarrow> 's mig_db \<Rightarrow> 's mig_db \<Rightarrow> bool" where
  "after exec ms d d' \<longleftrightarrow> run_scripts exec (map mg_SQL ms) (md_data d) = Inr (md_data d') \<and>
     table_rows d' = table_rows d @ map row_of ms"

lemma run_scripts_append:
  "run_scripts exec (qs @ rs) s =
     (case run_scripts exec qs s of Inl err \<Rightarrow> Inl err | Inr s' \<Rightarrow> run_scripts exec rs s')"
  by (induction qs arbitrary: s) (auto split: sum.splits)

lemma after_trans: "after exec ms d d1 \<Longrightarrow> after exec ms' d1 d2 \<Longrightarrow> after exec (ms @ ms') d d2"
  by (simp add: after_def run_scripts_append)

lemma executeMigration_after:
  assumes "executeMigration exec io m d = Inr d'"
  shows "after exec [m] d d'" and "md_table d' \<noteq> None" and "mg_Version m \<notin> set (map fst (table_rows d))"
  using assms
  by (auto simp: executeMigration_def after_def table_rows_def row_of_def split: option.splits sum.splits if_splits)

lemma run_pending_spec:
  assumes "run_pending exec io applied ms d = (d', err)" and "md_table d \<noteq> None"
    and "distinct (map fst (table_rows d))"
  shows "\<exists>n. after exec (take n (pending applied ms)) d d' \<and> md_table d' \<noteq> None \<and>
    distinct (map fst (table_rows d')) \<and> (err = None \<longrightarrow> length (pending applied ms) \<le> n)"
  using assms
proof (induction exec io applied ms d rule: run_pending.induct)
  case (1 exec io applied d)
  then show ?case by (auto simp: after_def pending_def)
next
  case (2 exec io applied m ms d)
  show ?case
  proof (cases "mg_Version m \<in> set applied")
    case True
    with 2 show ?thesis by (simp add: pending_def)
  next
    case False
    then have p: "pending applied (m # ms) = m # pending applied ms" by (simp add: pending_def)
    show ?thesis
    proof (cases "executeMigration exec io m d")
      case (Inl e)
      with 2(3) False have "d' = d" and err: "err \<noteq> None" by auto
      then have "after exec (take 0 (pending applied (m # ms))) d d'" by (simp add: after_def)
      with err 2(4,5) \<open>d' = d\<close> show ?thesis by blast
    next
      case (Inr d1)
      note one = executeMigration_after [OF Inr]
      have "distinct (map fst (table_rows d1))" using one(1,3) 2(5) by (simp add: after_def row_of_def)
      then obtain n where n: "after exec (take n (pending applied ms)) d1 d'" "md_table d' \<noteq> None"
          "distinct (map fst (table_rows d'))" "err = None \<longrightarrow> length (pending applied ms) \<le> n"
        using 2(2) [OF False Inr] 2(3) one(2) False Inr by auto
      have "after exec (take (Suc n) (pending applied (m # ms))) d d'"
        using after_trans [OF one(1) n(1)] by (simp add: p)
      with n p show ?thesis by (intro exI [of _ "Suc n"]) auto
    qed
  qed
qed

lemma createMigrationsTable_ok:
  "createMigrationsTable io d = Inr d1 \<Longrightarrow> md_data d1 = md_data d \<and> table_rows d1 = table_rows d \<and> md_table d1 \<noteq> None"
  by (auto simp: createMigrationsTable_def table_rows_def split: option.splits)

lemma RunMigrations_spec:
  assumes "RunMigrations exec io dir d = (d', err)" and "loadMigrations dir = Inr ms"
    and "distinct (map fst (table_rows d))"
  shows "\<exists>n. after exec (take n (pending (map fst (table_rows d)) ms)) d d' \<and>
    distinct (map fst (table_rows d')) \<and>
    (err = None \<longrightarrow> length (pending (map fst (table_rows d)) ms) \<le> n)"
proof (cases "createMigrationsTable io d")
  case (Inl e)
  with assms show ?thesis by (intro exI [of _ 0]) (auto simp: RunMigrations_def after_def)
next
  case (Inr d1)
  note d1 = createMigrationsTable_ok [OF Inr]
  show ?thesis
  proof (cases "getAppliedMigrations io d1")
    case (Inl e)
    with assms Inr d1 \<open>createMigrationsTable io d = Inr d1\<close> show ?thesis
      by (intro exI [of _ 0]) (auto simp: RunMigrations_def after_def)
  next
    case (Inr applied)
    then have a: "applied = map fst (table_rows d)"
      using d1 by (auto simp: getAppliedMigrations_def table_rows_def split: option.splits)
    have run: "run_pending exec io applied ms d1 = (d', err)"
      using assms(1,2) Inr \<open>createMigrationsTable io d = Inr d1\<close> by (simp add: RunMigrations_def)
    have "md_table d1 \<noteq> None" "distinct (map fst (table_rows d1))" using d1 assms(3) by simp_all
    from run_pending_spec [OF run this] show ?thesis using d1 a by (auto simp: after_def)
  qed
qed

lemma filter_not_prefix:
  "distinct (map f (xs @ ys)) \<Longrightarrow> filter (\<lambda>x. f x \<notin> f ` set xs) (xs @ ys) = ys"
  by (auto simp: filter_empty_conv filter_id_conv)

lemma loadMigrations_sorted: "loadMigrations dir = Inr ms \<Longrightarrow> sorted (map mg_Version ms)"
  by (auto simp: loadMigrations_def split: sum.splits)

lemma RunMigrations_loads:
  "RunMigrations exec io dir d = (d', None) \<Longrightarrow> \<exists>ms. loadMigrations dir = Inr ms"
  by (auto simp: RunMigrations_def split: sum.splits)

section \<open>Properties\<close>

text \<open>C27: A run of the migrations that reports success has executed exactly the scripts whose version
  was not recorded, each once, in ascending order of version, and recorded each of them; a
  version is never recorded twice. Running again with the same files then executes nothing.\<close>

theorem migrations_run_once_in_order:
  assumes "RunMigrations exec io dir d = (d', None)" and "distinct (map fst (table_rows d))"
  shows "\<exists>ms. loadMigrations dir = Inr ms \<and> sorted (map mg_Version ms) \<and>
    after exec (pending (map fst (table_rows d)) ms) d d' \<and> distinct (map fst (table_rows d')) \<and>
    (\<forall>io2 d2. RunMigrations exec io2 dir d' = (d2, None) \<longrightarrow>
       md_data d2 = md_data d' \<and> table_rows d2 = table_rows d')"
proof -
  obtain ms where ms: "loadMigrations dir = Inr ms" using RunMigrations_loads [OF assms(1)] by blast
  have ran: "after exec (pending (map fst (table_rows d)) ms) d d'" "distinct (map fst (table_rows d'))"
    using RunMigrations_spec [OF assms(1) ms assms(2)] by auto
  have "map fst (table_rows d') = map fst (table_rows d) @ map mg_Version (pending (map fst (table_rows d)) ms)"
    using ran(1) by (simp add: after_def row_of_def)
  then have none: "pending (map fst (table_rows d')) ms = []"
    by (auto simp: pending_def filter_empty_conv)
  have "md_data d2 = md_data d' \<and> table_rows d2 = table_rows d'"
    if "RunMigrations exec io2 dir d' = (d2, None)" for io2 d2
    using RunMigrations_spec [OF that ms ran(2)] by (simp add: none after_def)
  with ms loadMigrations_sorted [OF ms] ran show ?thesis by blast
qed

text \<open>Two scripts on a database that is the list of the scripts executed; the second may fail.\<close>

definition example_dir :: directory where
  "example_dir = \<lparr>dir_entries = Inr [(''002_b.sql'', False), (''001_a.sql'', False), (''notes.txt'', False)],
     dir_read = (\<lambda>f. Inr f)\<rparr>"

definition record_script :: "string \<Rightarrow> string list \<Rightarrow> string + string list" where
  "record_script q s = Inr (s @ [q])"

definition example_io :: "string option \<Rightarrow> mig_io" where
  "example_io e = \<lparr>io_create = None, io_query = None, io_begin = (\<lambda>_. None),
     io_commit = (\<lambda>v. if v = 2 then e else None)\<rparr>"

theorem migrations_run_once_in_order_witness:
  "md_data (fst (RunMigrations record_script (example_io None) example_dir \<lparr>md_data = [], md_table = None\<rparr>)) =
     [''001_a.sql'', ''002_b.sql'']"
proof -
  let ?d = "\<lparr>md_data = [], md_table = None\<rparr> :: string list mig_db"
  let ?r = "RunMigrations record_script (example_io None) example_dir ?d"
  have "snd ?r = None" by code_simp
  then have "?r = (fst ?r, None)" by (simp add: prod_eq_iff)
  moreover have "distinct (map fst (table_rows ?d))" by code_simp
  ultimately obtain ms where "loadMigrations example_dir = Inr ms"
      and "after record_script (pending (map fst (table_rows ?d)) ms) ?d (fst ?r)"
    using migrations_run_once_in_order by blast
  moreover have "map mg_SQL (pending [] (projr (loadMigrations example_dir))) = [''001_a.sql'', ''002_b.sql'']" by code_simp
  ultimately show ?thesis by (simp add: after_def table_rows_def record_script_def)
qed

text \<open>C28: A failed run can be resumed. When a run stops with an error, the database is that after a
  prefix of the pending scripts, with exactly those recorded and nothing of the one that failed; a
  later successful run with the same files, whose versions differ, continues with the rest, so
  that in the end every pending script has been executed once and in order, as in one run.\<close>

theorem failed_migrations_resume:
  assumes "RunMigrations exec io dir d = (d1, Some err)" and "RunMigrations exec io2 dir d1 = (d2, None)"
    and "distinct (map fst (table_rows d))" and "loadMigrations dir = Inr ms" and "distinct (map mg_Version ms)"
  shows "\<exists>n. after exec (take n (pending (map fst (table_rows d)) ms)) d d1 \<and>
    after exec (drop n (pending (map fst (table_rows d)) ms)) d1 d2 \<and>
    after exec (pending (map fst (table_rows d)) ms) d d2"
proof -
  let ?p = "pending (map fst (table_rows d)) ms"
  obtain n where first: "after exec (take n ?p) d d1" and dis: "distinct (map fst (table_rows d1))"
    using RunMigrations_spec [OF assms(1,4,3)] by blast
  have "map fst (table_rows d1) = map fst (table_rows d) @ map mg_Version (take n ?p)"
    using first by (simp add: after_def row_of_def)
  then have "pending (map fst (table_rows d1)) ms = filter (\<lambda>m. mg_Version m \<notin> mg_Version ` set (take n ?p)) ?p"
    by (simp add: pending_def image_def)
  also have "\<dots> = drop n ?p"
    using filter_not_prefix [of mg_Version "take n ?p" "drop n ?p"] assms(5)
    by (simp add: pending_def distinct_map_filter)
  finally have rest: "pending (map fst (table_rows d1)) ms = drop n ?p" .
  obtain k where "after exec (take k (drop n ?p)) d1 d2" and "length (drop n ?p) \<le> k"
    using RunMigrations_spec [OF assms(2,4) dis] unfolding rest by auto
  then have second: "after exec (drop n ?p) d1 d2" by simp
  from after_trans [OF first second] first second show ?thesis by (intro exI [of _ n]) simp
qed

theorem failed_migrations_resume_witness:
  "let d = \<lparr>md_data = [], md_table = None\<rparr>; d1 = fst (RunMigrations record_script (example_io (Some ''disk full'')) example_dir d)
   in md_data d1 = [''001_a.sql''] \<and>
      md_data (fst (RunMigrations record_script (example_io None) example_dir d1)) = [''001_a.sql'', ''002_b.sql'']"
proof -
  let ?d = "\<lparr>md_data = [], md_table = None\<rparr> :: string list mig_db"
  let ?r = "RunMigrations record_script (example_io (Some ''disk full'')) example_dir ?d"
  let ?r2 = "RunMigrations record_script (example_io None) example_dir (fst ?r)"
  have "snd ?r \<noteq> None" "snd ?r2 = None" by code_simp+
  then obtain err where r: "?r = (fst ?r, Some err)" and r2: "?r2 = (fst ?r2, None)"
    by (metis not_None_eq prod.collapse)
  have "isl (loadMigrations example_dir) = False" by code_simp
  then obtain ms where ms: "loadMigrations example_dir = Inr ms" by (cases "loadMigrations example_dir") auto
  have "distinct (map mg_Version (projr (loadMigrations example_dir)))"
      and sql: "map mg_SQL (pending [] (projr (loadMigrations example_dir))) = [''001_a.sql'', ''002_b.sql'']" by code_simp+
  then have "distinct (map mg_Version ms)" by (simp add: ms)
  with failed_migrations_resume [OF r r2 _ ms] have "after record_script (pending [] ms) ?d (fst ?r2)"
    by (auto simp: table_rows_def)
  then have "md_data (fst ?r2) = [''001_a.sql'', ''002_b.sql'']"
    using sql by (simp add: after_def ms record_script_def)
  moreover have "md_data (fst ?r) = [''001_a.sql'']" by code_simp
  ultimately show ?thesis by (simp add: Let_def)
qed

end
