(* ===== verification/Service.thy ===== *)
theory Service
  imports Running_System Migrations
begin

text \<open>
  The whole program (\<^verbatim>\<open>cmd/main.go\<close>): the boot sequence, and what holds of the running system of the
  theory \<open>Running_System\<close> from every boot that succeeds.
\<close>

section \<open>Boot\<close>

text \<open>
  From outside: the environment, the SQLite driver (opening a data source, the ping), the scripts
  of the migrations, the memory of the items and of the keys, the clock, what \<open>ServeMux\<close> makes of a
  pattern with blanks or braces, and the error of \<open>ListenAndServe\<close>.
\<close>

record boot_env =
  be_env :: env
  be_parse :: "string \<Rightarrow> f64 option"
  be_open :: "string \<Rightarrow> string + database mig_db"
  be_ping :: "string option"
  be_exec :: "string \<Rightarrow> database \<Rightarrow> string + database"
  be_mig_io :: mig_io
  be_dir :: directory
  be_keys_io :: "string option"
  be_store :: key_store
  be_heap :: "item_ref \<Rightarrow> item"
  be_now :: time
  be_tie :: "nat \<Rightarrow> bool"
  be_pattern :: "string \<Rightarrow> bool"
  be_listen :: "string option"

definition data_source :: "string \<Rightarrow> int \<Rightarrow> string" where
  "data_source dbPath busyTimeoutMS =
     ''file:'' @ dbPath @ ''?_busy_timeout='' @ show_int busyTimeoutMS @ ''&_journal_mode=WAL''"

definition NewSQLiteAdapter ::
  "(string \<Rightarrow> string + 'd) \<Rightarrow> string option \<Rightarrow> string \<Rightarrow> int \<Rightarrow> string + 'd" where
  "NewSQLiteAdapter sql_open ping dbPath busyTimeoutMS =
     (case sql_open (data_source dbPath busyTimeoutMS) of
        Inl err \<Rightarrow> Inl (''failed to open database: '' @ err)
      | Inr sqlDB \<Rightarrow>
          (case ping of Some err \<Rightarrow> Inl (''failed to ping database: '' @ err) | None \<Rightarrow> Inr sqlDB))"

text \<open>Why the program ended before it served: an exit with its message, or a panic.\<close>

datatype boot_result = Exit string | Panicked | Up system

definition open_database :: "boot_env \<Rightarrow> config \<Rightarrow> string + database" where
  "open_database b cfg =
     (case NewSQLiteAdapter (be_open b) (be_ping b) (cfg_DBPath cfg) (cfg_DBBusyTimeoutMS cfg) of
        Inl err \<Rightarrow> Inl ''failed to initialize database''
      | Inr d \<Rightarrow>
          (case RunMigrations (be_exec b) (be_mig_io b) (be_dir b) d of
             (d', Some err) \<Rightarrow> Inl ''failed to run migrations''
           | (d', None) \<Rightarrow> Inr (md_data d')))"

text \<open>\<open>time.NewTicker\<close> panics on a duration that is not positive, in its goroutine.\<close>

definition tickers_start :: "config \<Rightarrow> bool" where
  "tickers_start cfg \<longleftrightarrow> 0 < cfg_KeyPoolReloadInterval cfg \<and> 0 < cfg_ConfigReloadInterval cfg"

definition start_workers :: "boot_env \<Rightarrow> config \<Rightarrow> (worker \<times> time) list \<times> time \<times> bool" where
  "start_workers b cfg =
     pool_Start None (be_tie b) (cfg_WorkerWarmupPeriod cfg) (be_now b)
       (NewPool (cfg_WorkerCount cfg) (cfg_EncryptionKey cfg))"

definition system_of :: "boot_env \<Rightarrow> config \<Rightarrow> database \<Rightarrow> manager \<Rightarrow> system" where
  "system_of b cfg d mgr =
     (let (started, t, _) = start_workers b cfg
      in \<lparr>sy_cfg = cfg, sy_workers = started, sy_ready = t,
          sy_client = NewClient (cfg_HTTPClientTimeout cfg) (cfg_HTTPClientMaxIdleConns cfg)
            (cfg_HTTPClientIdleConnTimeout cfg),
          sy_http = server_settings cfg,
          sy_metrics = (New (be_now b))\<lparr>mt_TotalWorkers := cfg_WorkerCount cfg\<rparr>,
          sy_db = d,
          sy_queue = NewQueue (be_heap b) (cfg_QueueMaxSize cfg) (cfg_QueueHighPriorityPreemptsLow cfg),
          sy_mgr = mgr, sy_hot = NewHotReloadConfig cfg, sy_hand = None,
          sy_threads = replicate (length started) Waiting, sy_reloader = Resting, sy_settings = None, sy_saved = [],
          sy_calls = [], sy_timers = [], sy_stopping = False\<rparr>)"

definition boot :: "boot_env \<Rightarrow> boot_result" where
  "boot b =
     (case Load (be_parse b) (be_env b) of
        Inl err \<Rightarrow> Exit (''failed to load config: '' @ err)
      | Inr cfg \<Rightarrow>
          (case open_database b cfg of
             Inl msg \<Rightarrow> Exit msg
           | Inr d \<Rightarrow>
               (case NewManager (be_keys_io b) (NewHotReloadConfig cfg) d (be_store b) of
                  Inl err \<Rightarrow> Exit ''failed to initialize key pool manager''
                | Inr mgr \<Rightarrow>
                    if \<not> tickers_start cfg then Panicked
                    else if cfg_MetricsEnabled cfg \<and> \<not> metrics_pattern_ok (be_pattern b) (cfg_MetricsPath cfg)
                    then Panicked
                    else (case be_listen b of
                            Some err \<Rightarrow> Exit ''HTTP server error''
                          | None \<Rightarrow> Up (system_of b cfg d mgr)))))"

section \<open>What boot establishes\<close>

lemma run_pending_keeps:
  assumes "run_pending exec io applied ms d = (d', err)" and "P (md_data d)"
    and "\<And>q a a'. exec q a = Inr a' \<Longrightarrow> P a \<Longrightarrow> P a'"
  shows "P (md_data d')"
  using assms(1,2)
proof (induction ms arbitrary: d)
  case (Cons m ms)
  show ?case
  proof (cases "mg_Version m \<in> set applied")
    case False
    show ?thesis
    proof (cases "executeMigration exec io m d")
      case (Inr d1)
      then have "P (md_data d1)"
        using Cons.prems(2) assms(3)
        by (auto simp: executeMigration_def split: option.splits sum.splits if_splits)
      with Cons False Inr show ?thesis by simp
    qed (use Cons.prems False in simp)
  qed (use Cons in simp)
qed simp

lemma RunMigrations_keeps:
  assumes "RunMigrations exec io dir d = (d', err)" and "P (md_data d)"
    and "\<And>q a a'. exec q a = Inr a' \<Longrightarrow> P a \<Longrightarrow> P a'"
  shows "P (md_data d')"
proof (cases "createMigrationsTable io d")
  case (Inr d1)
  then have P: "P (md_data d1)" using createMigrationsTable_ok [OF Inr] assms(2) by simp
  show ?thesis
    using assms(1) Inr P run_pending_keeps [of exec io _ _ d1 d' err P, OF _ P] assms(3)
    by (auto simp: RunMigrations_def split: sum.splits)
qed (use assms in \<open>simp add: RunMigrations_def\<close>)

text \<open>What the disk holds, and what the scripts make of it, satisfies the constraints of the schema.\<close>

definition disk_ok :: "boot_env \<Rightarrow> bool" where
  "disk_ok b \<longleftrightarrow> (\<forall>dsn d. be_open b dsn = Inr d \<longrightarrow> db_inv (md_data d)) \<and>
     (\<forall>q a a'. be_exec b q a = Inr a' \<longrightarrow> db_inv a \<longrightarrow> db_inv a')"

lemma open_database_inv:
  assumes "open_database b cfg = Inr d" and "disk_ok b"
  shows "db_inv d"
proof -
  obtain d0 d1 where d0: "be_open b (data_source (cfg_DBPath cfg) (cfg_DBBusyTimeoutMS cfg)) = Inr d0"
      and run: "RunMigrations (be_exec b) (be_mig_io b) (be_dir b) d0 = (d1, None)" and d: "d = md_data d1"
    using assms(1)
    by (auto simp: open_database_def NewSQLiteAdapter_def split: sum.splits option.splits prod.splits)
  have "db_inv (md_data d0)" using d0 assms(2) unfolding disk_ok_def by blast
  then show ?thesis unfolding d
    by (rule RunMigrations_keeps [where P = db_inv, OF run]) (use assms(2) in \<open>auto simp: disk_ok_def\<close>)
qed

lemma boot_Up:
  assumes "boot b = Up s"
  obtains d mgr where "Load (be_parse b) (be_env b) = Inr (config_from_env (be_parse b) (be_env b))"
    and "config_ok (config_from_env (be_parse b) (be_env b))"
    and "open_database b (config_from_env (be_parse b) (be_env b)) = Inr d"
    and "NewManager (be_keys_io b) (NewHotReloadConfig (config_from_env (be_parse b) (be_env b))) d (be_store b) = Inr mgr"
    and "s = system_of b (config_from_env (be_parse b) (be_env b)) d mgr"
proof -
  let ?c = "config_from_env (be_parse b) (be_env b)"
  obtain c where c: "Load (be_parse b) (be_env b) = Inr c" using assms by (auto simp: boot_def split: sum.splits)
  then have eq: "c = ?c" "config_ok ?c"
    using validate_ok [of ?c] by (auto simp: Load_def Let_def split: option.splits)
  obtain d where d: "open_database b c = Inr d" using assms c by (auto simp: boot_def split: sum.splits)
  obtain mgr where m: "NewManager (be_keys_io b) (NewHotReloadConfig c) d (be_store b) = Inr mgr"
    using assms c d by (auto simp: boot_def split: sum.splits)
  have "s = system_of b c d mgr"
    using assms c d m by (auto simp: boot_def split: if_splits option.splits)
  with that c d m eq show thesis by simp
qed

lemma undisturbed_start:
  "map fst (fst (pool_Start None tie warmup t p)) = wp_workers p"
  "0 \<le> warmup \<Longrightarrow> fst (snd (pool_Start None tie warmup t p)) \<le> t + warmup"
proof -
  have "map fst (fst (start_loop None tie delay i t ws)) = ws" for delay i t ws
    by (induction ws arbitrary: i t) (simp_all add: ctx_first_def split_beta)
  then show "map fst (fst (pool_Start None tie warmup t p)) = wp_workers p" by (simp add: pool_Start_def)
  assume w: "0 \<le> warmup"
  let ?d = "warmup_delay (length (wp_workers p)) warmup"
  have "start_ok None ?d t (wp_workers p) (pool_Start None tie warmup t p)"
    unfolding pool_Start_def by (rule start_loop_ok [OF warmup_delay_bounds(1) [OF w]])
  then have "fst (snd (pool_Start None tie warmup t p)) = t + int (length (wp_workers p) - 1) * ?d"
    by (auto simp: start_ok_def split: prod.splits)
  then show "fst (snd (pool_Start None tie warmup t p)) \<le> t + warmup"
    using warmup_delay_bounds(2) [OF w, of "length (wp_workers p)"] by simp
qed

lemma boot_system_ok:
  assumes "boot b = Up s" and "disk_ok b"
  shows "system_ok s" and "contents (sy_queue s) = {}"
proof -
  obtain d mgr where ok: "config_ok (config_from_env (be_parse b) (be_env b))"
      and d: "open_database b (config_from_env (be_parse b) (be_env b)) = Inr d"
      and m: "NewManager (be_keys_io b) (NewHotReloadConfig (config_from_env (be_parse b) (be_env b))) d (be_store b) = Inr mgr"
      and s: "s = system_of b (config_from_env (be_parse b) (be_env b)) d mgr"
    by (rule boot_Up [OF assms(1)])
  have inv: "db_inv d" using d assms(2) by (rule open_database_inv)
  then have "pool_inv (mgr, {#})" using NewManager_inv [OF m] by (simp add: db_inv_def)
  moreover have "hot_usable (NewHotReloadConfig (config_from_env (be_parse b) (be_env b)))"
    using ok by (simp add: hot_usable_def NewHotReloadConfig_def config_ok_def)
  moreover have "int (length (fst (start_workers b (config_from_env (be_parse b) (be_env b))))) =
      cfg_WorkerCount (config_from_env (be_parse b) (be_env b))"
    using ok arg_cong [OF undisturbed_start(1), of length]
    by (simp add: start_workers_def NewPool_workers config_ok_def)
  moreover have "sum_list (replicate n {#}) = ({#} :: key_ref multiset)" for n by (induction n) simp_all
  ultimately show "system_ok s" "contents (sy_queue s) = {}"
    using ok inv NewQueue_inv
    by (simp_all add: s system_of_def split_beta Let_def system_ok_def items_ok_def threads_ok_def pc_ok_def
        outside_def busy_def live_def held_def saved_ids_def)
qed

lemma boot_outside:
  assumes "boot b = Up s"
  shows "outside s = []" and "sy_saved s = []"
proof -
  have "outside s = [] \<and> sy_saved s = []"
    using assms by (rule boot_Up) (simp add: outside_def busy_def system_of_def split_beta Let_def)
  then show "outside s = []" "sy_saved s = []" by simp_all
qed

lemma boot_open: "boot b = Up s \<Longrightarrow> disk_ok b \<Longrightarrow> live s = {} \<and> open_requests s = {}"
  using boot_system_ok(2) [of b s] boot_outside [of b s] by (simp add: open_requests_def live_def saved_ids_def)

section \<open>Properties\<close>

lemma booted_ok: "boot b = Up s0 \<Longrightarrow> disk_ok b \<Longrightarrow> system_path s0 s \<Longrightarrow> system_ok s"
  using boot_system_ok(1) system_path_ok by blast

text \<open>C1: The running system is sound. From a boot that succeeds, on a disk whose content satisfies the
  constraints of the schema, through every interleaving of the accesses of HTTP handlers, dispatch
  loop, workers, timers, reload loops and shutdown: no worker panics at its next access, whatever
  that returns; every item in the queue, in a hand, with a worker or on a timer is there once and
  refers to a stored request; the queue never exceeds its configured size; the constraints of the
  database hold; the configuration in use has a known strategy and allows at least one attempt; and
  there are as many workers as configured.\<close>

theorem running_system_is_sound:
  assumes "boot b = Up s0" and "disk_ok b" and "system_path s0 s"
  shows "(\<forall>e t i. i < length (sy_threads s) \<longrightarrow> worker_step e t i s \<noteq> None) \<and>
    distinct (pq_refs (q_pq (sy_queue s)) @ outside s) \<and>
    (\<forall>x \<in> live s. request_row (sy_db s) (item_request (sy_queue s) x) \<noteq> None) \<and>
    int (Size (sy_queue s)) \<le> cfg_QueueMaxSize (sy_cfg s) \<and>
    db_ok (sy_db s) \<and> hc_Strategy (sy_hot s) \<in> set ValidStrategies \<and> 1 \<le> hc_RetryMaxAttempts (sy_hot s) \<and>
    int (length (sy_threads s)) = cfg_WorkerCount (sy_cfg s)"
proof -
  have ok: "system_ok s" by (rule booted_ok [OF assms])
  have "worker_step e t i s \<noteq> None" if "i < length (sy_threads s)" for e t i
  proof -
    have "pc_ok (pq_heap (q_pq (sy_queue s))) (w_mgr (sy_world s)) (w_db (sy_world s)) (sy_threads s ! i)"
      using system_okD(8) [OF ok] that by (simp add: threads_ok_def)
    then show ?thesis unfolding worker_step_def by (rule work_step_runs)
  qed
  moreover have "distinct (pq_refs (q_pq (sy_queue s)))" "int (Size (sy_queue s)) \<le> cfg_QueueMaxSize (sy_cfg s)"
    using ok by (auto simp: system_ok_def q_inv_def pq_inv_def pq_wf_def Size_def config_ok_def)
  ultimately show ?thesis
    using ok by (auto simp: system_ok_def items_ok_def threads_ok_def db_inv_def hot_usable_def)
qed

text \<open>C5: In the running system the concurrency counter of every key that is in the pool or in use is exactly
  the number of workers that hold it at their present point, those included that are still inside
  \<open>GetKey\<close> and will give it back because the key is out of its rate window. Reloads may remove, add
  and reconfigure keys meanwhile. So no slot is leaked, lost or given back twice.\<close>

theorem slots_are_accounted:
  assumes "boot b = Up s0" and "disk_ok b" and "system_path s0 s"
    and "k \<in> set (m_keys (sy_mgr s)) \<or> (\<exists>pc \<in> set (sy_threads s). k \<in># pc_slot pc)"
  shows "GetCurrentConcurrent (m_store (sy_mgr s) k) =
    int (length (filter (\<lambda>pc. k \<in># pc_slot pc) (sy_threads s)))"
proof -
  have one: "count (pc_slot pc) k = (if k \<in># pc_slot pc then 1 else 0)" for pc
  proof -
    have "count (getter_slot g) k = (if k \<in># getter_slot g then 1 else 0)" for g
      by (cases g rule: getter_slot.cases) auto
    then show ?thesis by (cases pc rule: pc_slot.cases) auto
  qed
  have "count (sum_list (map pc_slot pcs)) k = length (filter (\<lambda>pc. k \<in># pc_slot pc) pcs)" for pcs
    by (induction pcs) (simp_all add: one)
  then have held: "count (held s) k = length (filter (\<lambda>pc. k \<in># pc_slot pc) (sy_threads s))"
    by (simp add: held_def)
  have "pool_inv (sy_mgr s, held s)" by (rule system_okD(4) [OF booted_ok [OF assms(1-3)]])
  moreover have "k \<in># held s" if "pc \<in> set (sy_threads s)" "k \<in># pc_slot pc" for pc
    using held that by (auto simp: filter_empty_conv simp flip: count_greater_zero_iff)
  ultimately show ?thesis using assms(4) held by (auto simp: pool_inv_iff GetCurrentConcurrent_def)
qed

text \<open>C2: One request, one place. In the running system two workers are never busy with the same request,
  and no request that a worker is busy with is at the same time in the queue, in the dispatch
  loop's hand, on a timer or about to be queued: no request is executed by two workers at once.\<close>

theorem one_worker_per_request:
  assumes "boot b = Up s0" and "disk_ok b" and "system_path s0 s"
    and "i < length (sy_threads s)" and "pc_items (sy_threads s ! i) = [x]"
  shows "(\<forall>j y. j < length (sy_threads s) \<and> j \<noteq> i \<and> y \<in> set (pc_items (sy_threads s ! j)) \<longrightarrow>
      item_request (sy_queue s) y \<noteq> item_request (sy_queue s) x) \<and>
    (\<forall>y. y \<in> contents (sy_queue s) \<or> sy_hand s = Some y \<or> y \<in> fst ` set (sy_timers s) \<longrightarrow>
      item_request (sy_queue s) y \<noteq> item_request (sy_queue s) x) \<and>
    item_request (sy_queue s) x \<notin> rq_ID ` set (sy_saved s)"
proof (intro conjI allI impI)
  have items: "items_ok s" by (rule system_okD(7) [OF booted_ok [OF assms(1-3)]])
  show "item_request (sy_queue s) y \<noteq> item_request (sy_queue s) x"
    if "j < length (sy_threads s) \<and> j \<noteq> i \<and> y \<in> set (pc_items (sy_threads s ! j))" for j y
    using workers_apart [OF items, of j i y x] that assms(4,5) by simp
  have x: "x \<in> set (busy s)" using busy_item [OF nth_mem [OF assms(4)], of x] assms(5) by simp
  then have live: "x \<in> live s" by (simp add: live_def outside_def)
  show "item_request (sy_queue s) x \<notin> rq_ID ` set (sy_saved s)"
    using items live by (auto simp: items_ok_def saved_ids_def disjoint_iff)
  show "item_request (sy_queue s) y \<noteq> item_request (sy_queue s) x"
    if y: "y \<in> contents (sy_queue s) \<or> sy_hand s = Some y \<or> y \<in> fst ` set (sy_timers s)" for y
  proof
    assume same: "item_request (sy_queue s) y = item_request (sy_queue s) x"
    have "y \<in> live s" using y by (auto simp: live_def outside_def)
    with items live same have "y = x" by (auto simp: items_ok_def dest: inj_onD)
    with x y items show False by (auto simp: items_ok_def outside_def live_def disjoint_iff)
  qed
qed

text \<open>C3: A result is final. Once the row of a request says success or failed, nothing that the running
  system does afterwards changes that row in any way.\<close>

theorem final_results_are_final:
  assumes "boot b = Up s0" and "disk_ok b" and "system_path s0 s"
    and "request_row (sy_db s) i = Some r" and "terminal r" and "system_path s s'"
  shows "request_row (sy_db s') i = Some r"
  using assms(6)
proof (induction rule: rtranclp_induct)
  case base
  then show ?case by (rule assms(4))
next
  case (step y z)
  have "system_ok y" by (rule booted_ok [OF assms(1,2) rtranclp_trans [OF assms(3) step(1)]])
  then show ?case using final_row_step [OF step(2)] step(3) assms(5) by blast
qed

text \<open>C4: No accepted request is lost while the program runs. A request is open while an item for it is in
  the queue, in a hand, with a worker or on a timer, or a submission has stored it and will queue
  it. Before the shutdown begins and while the queue has room, only an access of a worker that works
  on the request can end this; and every such access that ends it and is not a failed load of the
  request or a failed store of its result leaves a final result in the row of the request.\<close>

theorem open_requests_are_not_lost:
  assumes "boot b = Up s0" and "disk_ok b" and "system_path s0 s" and "i \<in> open_requests s"
    and "\<not> shutting_down s" and "int (Size (sy_queue s)) < cfg_QueueMaxSize (sy_cfg s)"
  shows "(\<forall>s'. system_step s s' \<and> i \<notin> open_requests s' \<longrightarrow>
      (\<exists>e t j pc w. j < length (sy_threads s) \<and> \<not> idle (sy_threads s ! j) \<and>
         worker_step e t j s = Some (pc, w) \<and> s' = put_world w (set_thread j pc s))) \<and>
    (\<forall>e t j pc w. j < length (sy_threads s) \<and> \<not> idle (sy_threads s ! j) \<and> worker_step e t j s = Some (pc, w) \<and>
       i \<notin> open_requests (put_world w (set_thread j pc s)) \<longrightarrow>
       (\<exists>x. pc_items (sy_threads s ! j) = [x] \<and> item_request (sy_queue s) x = i) \<and>
       (access_fails e (sy_threads s ! j) \<or> (\<exists>r. request_row (w_db w) i = Some r \<and> terminal r)))"
proof -
  have ok: "system_ok s" by (rule booted_ok [OF assms(1-3)])
  have "pq_inv (q_pq (sy_queue s))" using system_okD(3) [OF ok] by (simp add: q_inv_def)
  then have "\<not> is_full (sy_queue s)"
    using assms(6) ok by (simp add: is_full_def card_contents Size_def system_ok_def)
  with step_close [OF _ ok assms(4,5)] worker_keeps_open [OF ok _ _ _ assms(4)] show ?thesis by blast
qed

text \<open>C35: A restart forgets the requests it finds. A request that is in the database when the program
  starts is never handed to a worker, whatever happens afterwards: the queue starts empty and no
  item that is ever queued, in a hand, processed or on a timer refers to it, although it may be
  pending.\<close>

theorem requests_left_by_a_restart_are_never_executed:
  assumes "boot b = Up s0" and "disk_ok b" and "request_row (sy_db s0) i \<noteq> None" and "system_path s0 s"
  shows "request_row (sy_db s) i \<noteq> None \<and>
    (\<forall>x. x \<in> contents (sy_queue s) \<or> sy_hand s = Some x \<or> (\<exists>pc \<in> set (sy_threads s). x \<in> set (pc_items pc)) \<or>
       x \<in> fst ` set (sy_timers s) \<longrightarrow> item_request (sy_queue s) x \<noteq> i)"
proof -
  have kept: "request_row (sy_db s) i \<noteq> None \<and> i \<notin> open_requests s"
    using assms(4)
  proof (induction rule: rtranclp_induct)
    case base
    with boot_open [OF assms(1,2)] assms(3) show ?case by simp
  next
    case (step y z)
    have ok: "system_ok y" by (rule booted_ok [OF assms(1,2) step(1)])
    have "request_row (sy_db z) i \<noteq> None"
      by (rule db_path_keeps_rows [OF step_rows [OF step(2) ok] conjunct1 [OF step(3)]])
    moreover have "i \<notin> open_requests z" using step_open [OF step(2) ok, of i] step(3) by auto
    ultimately show ?case ..
  qed
  show ?thesis
  proof (intro conjI allI impI)
    show "request_row (sy_db s) i \<noteq> None" using kept by (rule conjunct1)
    fix x
    assume "x \<in> contents (sy_queue s) \<or> sy_hand s = Some x \<or> (\<exists>pc \<in> set (sy_threads s). x \<in> set (pc_items pc)) \<or>
       x \<in> fst ` set (sy_timers s)"
    then have "x \<in> live s" using busy_item by (auto simp: live_def outside_def)
    then have "item_request (sy_queue s) x \<in> open_requests s" by (simp add: open_requests_def)
    then show "item_request (sy_queue s) x \<noteq> i" using kept by auto
  qed
qed

lemma system_of_facts:
  "contents (sy_queue (system_of b cfg d mgr)) = {}"
  "map fst (sy_workers (system_of b cfg d mgr)) =
     map (\<lambda>i. NewWorker i (cfg_EncryptionKey cfg)) [0..cfg_WorkerCount cfg - 1]"
  "0 \<le> cfg_WorkerWarmupPeriod cfg \<Longrightarrow>
     sy_ready (system_of b cfg d mgr) \<le> be_now b + cfg_WorkerWarmupPeriod cfg"
  by (simp_all add: system_of_def split_beta Let_def start_workers_def undisturbed_start NewQueue_inv NewPool_def)

text \<open>C29: The program serves exactly when the environment is valid, the database opens and migrates,
  the keys load, both reload intervals are positive, the metrics path can be registered and the
  port can be listened on. It then serves with an empty queue and all its workers, numbered from
  zero and with the configured encryption key, of which the last was launched within the warm-up
  period.\<close>

theorem boot_serves_exactly_when:
  "let cfg = config_from_env (be_parse b) (be_env b) in
   ((\<exists>s. boot b = Up s) \<longleftrightarrow> Load (be_parse b) (be_env b) = Inr cfg \<and>
      0 < cfg_KeyPoolReloadInterval cfg \<and> 0 < cfg_ConfigReloadInterval cfg \<and>
      (cfg_MetricsEnabled cfg \<longrightarrow> metrics_pattern_ok (be_pattern b) (cfg_MetricsPath cfg)) \<and>
      be_listen b = None \<and>
      (\<exists>d mgr. open_database b cfg = Inr d \<and>
         NewManager (be_keys_io b) (NewHotReloadConfig cfg) d (be_store b) = Inr mgr)) \<and>
   (\<forall>s. boot b = Up s \<longrightarrow> contents (sy_queue s) = {} \<and>
      map fst (sy_workers s) = map (\<lambda>i. NewWorker i (cfg_EncryptionKey cfg)) [0..cfg_WorkerCount cfg - 1] \<and>
      (0 \<le> cfg_WorkerWarmupPeriod cfg \<longrightarrow> sy_ready s \<le> be_now b + cfg_WorkerWarmupPeriod cfg))"
proof -
  let ?c = "config_from_env (be_parse b) (be_env b)"
  have load: "Load (be_parse b) (be_env b) = Inr c \<Longrightarrow> c = ?c" for c
    by (auto simp: Load_def Let_def split: option.splits)
  have "(\<exists>s. boot b = Up s) \<longleftrightarrow> Load (be_parse b) (be_env b) = Inr ?c \<and> tickers_start ?c \<and>
      (cfg_MetricsEnabled ?c \<longrightarrow> metrics_pattern_ok (be_pattern b) (cfg_MetricsPath ?c)) \<and>
      be_listen b = None \<and>
      (\<exists>d mgr. open_database b ?c = Inr d \<and>
         NewManager (be_keys_io b) (NewHotReloadConfig ?c) d (be_store b) = Inr mgr)"
    using load by (fastforce simp: boot_def split: sum.splits if_splits option.splits)
  moreover have "contents (sy_queue s) = {} \<and>
      map fst (sy_workers s) = map (\<lambda>i. NewWorker i (cfg_EncryptionKey ?c)) [0..cfg_WorkerCount ?c - 1] \<and>
      (0 \<le> cfg_WorkerWarmupPeriod ?c \<longrightarrow> sy_ready s \<le> be_now b + cfg_WorkerWarmupPeriod ?c)"
    if "boot b = Up s" for s
    using that system_of_facts by (auto elim: boot_Up)
  ultimately show ?thesis by (simp add: Let_def tickers_start_def)
qed

text \<open>
  A disk with a pending request, a finished one, a key and no migrations, and an environment with the
  two secrets.
\<close>

definition example_disk :: database where
  "example_disk = exec_writes
     [(None, 5 * Second, CreateRequestCall (example_request ''r1'' 3)),
      (None, 5 * Second, CreateRequestCall (example_request ''r2'' 3)),
      (None, 6 * Second, UpdateRequestResultCall ''r2'' RequestStatusSuccess 200 ''done'' ''none'' (6 * Second)),
      (None, 6 * Second, CreateAPIKeyCall (example_row ''k1'' 5))] empty_db"

definition example_boot :: "string \<Rightarrow> boot_env" where
  "example_boot interval =
     \<lparr>be_env = (\<lambda>k. if k = ''ADMIN_TOKEN'' then ''secret''
                else if k = ''ENCRYPTION_KEY'' then replicate 64 CHR ''a''
                else if k = ''CONFIG_RELOAD_INTERVAL_SECONDS'' then interval else ''''),
      be_parse = (\<lambda>_. None), be_open = (\<lambda>_. Inr \<lparr>md_data = example_disk, md_table = None\<rparr>),
      be_ping = None, be_exec = (\<lambda>_ _. Inl ''no script''), be_mig_io = example_io None,
      be_dir = \<lparr>dir_entries = Inr [], dir_read = (\<lambda>_. Inl ''no file'')\<rparr>, be_keys_io = None,
      be_store = (\<lambda>_. fresh_key example_hot (example_row [] 0)),
      be_heap = (\<lambda>_. \<lparr>it_RequestID = '''', it_Priority = 0, it_CreatedAt = 0, it_index = 0\<rparr>),
      be_now = 0, be_tie = (\<lambda>_. True), be_pattern = (\<lambda>_. False), be_listen = None\<rparr>"

definition example_cfg :: "string \<Rightarrow> config" where
  "example_cfg interval = config_from_env (be_parse (example_boot interval)) (be_env (example_boot interval))"

definition example_mgr :: "string \<Rightarrow> manager" where
  "example_mgr interval = projr (NewManager None (NewHotReloadConfig (example_cfg interval)) example_disk
     (be_store (example_boot interval)))"

definition example_system :: system where
  "example_system = system_of (example_boot '''') (example_cfg '''') example_disk (example_mgr '''')"

lemma example_disk_ok: "disk_ok (example_boot interval)"
proof -
  have "db_ok example_disk" unfolding example_disk_def by (intro exec_writes_ok empty_db_ok)
  moreover have "key_limits_ok example_disk" by code_simp
  ultimately show ?thesis by (simp add: disk_ok_def example_boot_def db_inv_def)
qed

lemma example_parts:
  "open_database (example_boot interval) cfg = Inr example_disk"
  by (simp add: open_database_def NewSQLiteAdapter_def example_boot_def RunMigrations_def
      createMigrationsTable_def getAppliedMigrations_def loadMigrations_def example_io_def)

lemma example_cfg_facts:
  "Load (be_parse (example_boot '''')) (be_env (example_boot '''')) = Inr (example_cfg '''')"
  "tickers_start (example_cfg '''')" "metrics_pattern_ok (be_pattern (example_boot '''')) (cfg_MetricsPath (example_cfg ''''))"
  "cfg_WorkerCount (example_cfg '''') = 10" "cfg_WorkerWarmupPeriod (example_cfg '''') = 30 * Second"
  "cfg_QueueMaxSize (example_cfg '''') = 1000" "cfg_QueueHighPriorityPreemptsLow (example_cfg '''') = True"
proof -
  have "validate (example_cfg '''') = None" by code_simp
  then show "Load (be_parse (example_boot '''')) (be_env (example_boot '''')) = Inr (example_cfg '''')"
    by (simp add: Load_def Let_def example_cfg_def)
qed code_simp+

lemma example_new_manager:
  "NewManager (be_keys_io (example_boot i)) (NewHotReloadConfig (example_cfg i)) example_disk
     (be_store (example_boot i)) = Inr (example_mgr i)"
proof -
  let ?n = "NewManager None (NewHotReloadConfig (example_cfg i)) example_disk (be_store (example_boot i))"
  have "\<not> isl ?n" by (simp add: NewManager_def reloadKeys_def GetAllAPIKeys_def Let_def)
  then have "?n = Inr (example_mgr i)" unfolding example_mgr_def by (cases ?n) simp_all
  then show ?thesis by (simp add: example_boot_def)
qed

lemma example_booted: "boot (example_boot '''') = Up example_system"
proof -
  have "be_listen (example_boot '''') = None" by (simp add: example_boot_def)
  then show ?thesis
    by (simp add: boot_def example_cfg_facts example_parts example_new_manager example_system_def)
qed

text \<open>One submission after the boot.\<close>

definition example_run_end :: system where
  "example_run_end = put_server (fst (serve (example_api (submission ''k'')) (sy_cfg example_system)
     example_submit (sy_server example_system))) example_system"

lemma example_system_path: "system_path example_system example_run_end"
proof -
  have "unused_ref example_system (ae_ref (example_api (submission ''k'')))"
    using boot_open [OF example_booted example_disk_ok] by (simp add: unused_ref_def)
  then show ?thesis
    using api_call [of example_system "example_api (submission ''k'')" example_submit]
    by (simp add: example_run_end_def)
qed

lemma example_submission:
  "pq_refs (q_pq (sv_queue (fst (serve (example_api (submission ''k'')) c example_submit
     \<lparr>sv_db = example_disk, sv_queue = NewQueue (be_heap (example_boot '''')) 1000 True, sv_mgr = m\<rparr>)))) = [0]"
  "item_request (sv_queue (fst (serve (example_api (submission ''k'')) c example_submit
     \<lparr>sv_db = example_disk, sv_queue = NewQueue (be_heap (example_boot '''')) 1000 True, sv_mgr = m\<rparr>))) 0 = ''u1''"
  by code_simp+

lemma example_end:
  "pq_refs (q_pq (sy_queue example_run_end)) = [0]" "item_request (sy_queue example_run_end) 0 = ''u1''"
  using example_submission
  by (simp_all add: example_run_end_def sy_server_def example_system_def system_of_def split_beta Let_def
      example_cfg_facts)

text \<open>Steps of one worker, for evaluation.\<close>

fun work_for :: "work_env \<Rightarrow> (item_ref \<Rightarrow> item) \<Rightarrow> nat \<Rightarrow> worker_pc \<times> world \<Rightarrow> worker_pc \<times> world" where
  "work_for e heap 0 pw = pw"
| "work_for e heap (Suc n) (pc, w) =
     (if idle pc then (pc, w)
      else case work_step e 0 heap pc w of None \<Rightarrow> (pc, w) | Some pw \<Rightarrow> work_for e heap n pw)"

lemma work_for_path: "work_path e heap pw (work_for e heap n pw)"
proof (induction n arbitrary: pw)
  case (Suc n)
  then show ?case
    by (cases pw) (auto split: option.split intro: work_move.intros converse_rtranclp_into_rtranclp)
qed simp

text \<open>The item is handed to the first worker.\<close>

definition example_taken :: system where
  "example_taken = set_thread 0 (Loading 0) (example_run_end
     \<lparr>sy_queue := (sy_queue example_run_end)\<lparr>q_pq := fst (the (pq_heapPop (q_pq (sy_queue example_run_end))))\<rparr>, sy_hand := None\<rparr>)"

lemma example_run_end_views:
  "sy_hand example_run_end = None" "sy_threads example_run_end = replicate 10 Waiting" "sy_timers example_run_end = []"
  "sy_saved example_run_end = []" "sy_stopping example_run_end = False" "sy_cfg example_run_end = example_cfg ''''"
proof -
  have "int (length (sy_workers example_system)) = 10"
    using boot_system_ok(1) [OF example_booted example_disk_ok]
    by (simp add: system_ok_def) (simp add: example_system_def system_of_def split_beta Let_def example_cfg_facts)
  then have "length (sy_workers example_system) = 10" by simp
  then show
  "sy_hand example_run_end = None" "sy_threads example_run_end = replicate 10 Waiting" "sy_timers example_run_end = []"
  "sy_saved example_run_end = []" "sy_stopping example_run_end = False" "sy_cfg example_run_end = example_cfg ''''"
   by (simp_all add: example_run_end_def put_server_def example_system_def system_of_def split_beta Let_def)
qed

lemma example_hot_is_default: "NewHotReloadConfig (example_cfg '''') = example_hot"
proof -
  have "i64 (60 * Second) = 60 * Second" by code_simp
  then have "f64_to_i64 (duration_Seconds (i64 (60 * Second))) = 60" using whole_seconds [of 60] by simp
  then show ?thesis
    by (simp add: NewHotReloadConfig_def example_cfg_def config_from_env_def getEnv_def getEnvAsInt_def
    getEnvAsFloat_def getEnvAsDuration_def example_boot_def example_hot_def)
qed

lemma example_end_mgr: "sy_mgr example_run_end = example_mgr ''''"
proof -
  have "unused_ref example_system (ae_ref (example_api (submission ''k'')))"
    using boot_open [OF example_booted example_disk_ok] by (simp add: unused_ref_def)
  from api_call_effect [OF boot_system_ok(1) [OF example_booted example_disk_ok] this]
  have "sy_mgr example_run_end = sy_mgr example_system" by (simp add: example_run_end_def handler_effect_def)
  then show ?thesis by (simp add: example_system_def system_of_def split_beta Let_def)
qed

lemma example_taken:
  obtains p where "pq_heapPop (q_pq (sy_queue example_run_end)) = Some (p, 0)"
    and "example_taken = set_thread 0 (Loading 0) (example_run_end
      \<lparr>sy_queue := (sy_queue example_run_end)\<lparr>q_pq := p\<rparr>, sy_hand := None\<rparr>)"
proof -
  let ?q = "q_pq (sy_queue example_run_end)"
  have "pq_inv ?q"
    using booted_ok [OF example_booted example_disk_ok example_system_path] by (simp add: system_ok_def q_inv_def)
  moreover have "pq_refs ?q \<noteq> []" using example_end(1) by simp
  ultimately obtain p x where pop: "pq_heapPop ?q = Some (p, x)" and "x = pq_refs ?q ! 0"
    by (rule pq_heapPop_spec)
  then have "pq_heapPop ?q = Some (p, 0)" using example_end(1) by simp
  with that show thesis by (simp add: example_taken_def)
qed

lemma example_taken_path: "system_path example_system example_taken"
proof -
  let ?s = example_run_end
  obtain p where pop: "pq_heapPop (q_pq (sy_queue ?s)) = Some (p, 0)"
    and taken: "example_taken = set_thread 0 (Loading 0) (?s\<lparr>sy_queue := (sy_queue ?s)\<lparr>q_pq := p\<rparr>, sy_hand := None\<rparr>)"
    by (rule example_taken)
  let ?s1 = "?s\<lparr>sy_queue := (sy_queue ?s)\<lparr>q_pq := p\<rparr>, sy_hand := Some 0\<rparr>"
  have "system_step ?s ?s1" by (rule dispatch [OF _ pop]) (simp add: example_run_end_views)
  moreover have "system_step ?s1 (set_thread 0 (Loading 0) (?s1\<lparr>sy_hand := None\<rparr>))"
    by (rule hand_over) (simp_all add: example_run_end_views)
  moreover have "set_thread 0 (Loading 0) (?s1\<lparr>sy_hand := None\<rparr>) = example_taken" by (simp add: taken)
  ultimately have "system_path ?s example_taken"
    by (metis converse_rtranclp_into_rtranclp rtranclp.rtrancl_refl)
  with example_system_path show ?thesis by simp
qed

lemma example_taken_views:
  "sy_threads example_taken = Loading 0 # replicate 9 Waiting" "contents (sy_queue example_taken) = {}"
  "item_request (sy_queue example_taken) 0 = ''u1''" "sy_mgr example_taken = example_mgr ''''"
  "sy_db example_taken = sy_db example_run_end" "sy_hand example_taken = None" "sy_timers example_taken = []"
  "sy_saved example_taken = []" "sy_stopping example_taken = False" "sy_cfg example_taken = example_cfg ''''"
proof -
  obtain p where pop: "pq_heapPop (q_pq (sy_queue example_run_end)) = Some (p, 0)"
    and taken: "example_taken = set_thread 0 (Loading 0) (example_run_end
      \<lparr>sy_queue := (sy_queue example_run_end)\<lparr>q_pq := p\<rparr>, sy_hand := None\<rparr>)"
    by (rule example_taken)
  have "q_inv (sy_queue example_run_end)"
    using booted_ok [OF example_booted example_disk_ok example_system_path] by (simp add: system_ok_def)
  note q = taken_out_queue [OF this pop]
  show "contents (sy_queue example_taken) = {}" "item_request (sy_queue example_taken) 0 = ''u1''"
    using q(3,4) example_end by (simp_all add: taken)
  have "replicate 10 Waiting = Waiting # replicate 9 Waiting" by (simp add: eval_nat_numeral)
  then show "sy_threads example_taken = Loading 0 # replicate 9 Waiting"
    by (simp add: taken example_run_end_views)
qed (simp_all add: example_taken_def example_run_end_views example_end_mgr set_thread_def)

lemma example_not_closed: "\<not> q_closed (sy_queue example_run_end)" "\<not> q_done (sy_queue example_run_end)"
proof -
  let ?q = "\<lambda>c m. sv_queue (fst (serve (example_api (submission ''k'')) c example_submit
     \<lparr>sv_db = example_disk, sv_queue = NewQueue (be_heap (example_boot [])) 1000 True, sv_mgr = m\<rparr>))"
  have "q_closed (?q c m) = False" "q_done (?q c m) = False" for c m by code_simp+
  then show "\<not> q_closed (sy_queue example_run_end)" "\<not> q_done (sy_queue example_run_end)"
    by (simp_all add: example_run_end_def sy_server_def example_system_def system_of_def split_beta Let_def
      example_cfg_facts)
qed

lemma example_loaded:
  obtains req where "GetRequest None ''u1'' (sy_db example_run_end) = Inr req" and "\<not> terminal req"
proof -
  let ?d = "\<lambda>c m. sv_db (fst (serve (example_api (submission ''k'')) c example_submit
     \<lparr>sv_db = example_disk, sv_queue = NewQueue (be_heap (example_boot '''')) 1000 True, sv_mgr = m\<rparr>))"
  have "isl (GetRequest None ''u1'' (?d c m)) = False" "terminal (projr (GetRequest None ''u1'' (?d c m))) = False" for c m
    by code_simp+
  then have "\<not> isl (GetRequest None ''u1'' (sy_db example_run_end))"
      "\<not> terminal (projr (GetRequest None ''u1'' (sy_db example_run_end)))"
    by (simp_all add: example_run_end_def sy_server_def example_system_def system_of_def split_beta Let_def
      example_cfg_facts)
  then show thesis using that by (cases "GetRequest None ''u1'' (sy_db example_run_end)") auto
qed

text \<open>Five accesses later the worker has taken the slot of the key and asks for its rate limit.\<close>

lemma example_reserves:
  "case work_for (example_env_for 200) heap 5 (Locking 0 req,
      \<lparr>w_mgr = projr (NewManager None example_hot example_disk (\<lambda>_. fresh_key example_hot (example_row [] 0))),
       w_db = d, w_calls = c, w_timers = t\<rparr>) of
   (Choosing x r (Limiting n a av k), _) \<Rightarrow> k = 0 | _ \<Rightarrow> False"
  by code_simp

lemma example_slot_taken:
  obtains s n a av x req where "system_path example_system s"
    and "sy_threads s = Choosing x req (Limiting n a av 0) # replicate 9 Waiting"
proof -
  let ?s = example_taken and ?e = "example_env_for 200"
  let ?heap = "pq_heap (q_pq (sy_queue ?s))"
  have len: "0 < length (sy_threads ?s)" and start: "sy_threads ?s ! 0 = Loading 0"
    by (simp_all add: example_taken_views)
  obtain req where "GetRequest None ''u1'' (sy_db ?s) = Inr req" and "\<not> terminal req"
    using example_loaded by (auto simp: example_taken_views)
  moreover have "it_RequestID (?heap 0) = ''u1''" using example_taken_views(3) by (simp add: item_request_def)
  moreover have "we_load ?e = None" by (simp add: example_env_for_def)
  ultimately have "work_move ?e ?heap (Loading 0, sy_world ?s) (Locking 0 req, sy_world ?s)"
    by (intro work_move.intros [where t = 0]) (simp_all add: idle_def)
  with work_for_path [of ?e ?heap "(Locking 0 req, sy_world ?s)" 5]
  have path: "work_path ?e ?heap (sy_threads ?s ! 0, sy_world ?s) (work_for ?e ?heap 5 (Locking 0 req, sy_world ?s))"
    unfolding start by (rule converse_rtranclp_into_rtranclp [rotated])
  obtain x r n a av k w where pw: "work_for ?e ?heap 5 (Locking 0 req, sy_world ?s) = (Choosing x r (Limiting n a av k), w)"
      and k: "k = 0"
    using example_reserves [of ?heap req "sy_db ?s" "sy_calls ?s" "sy_timers ?s"]
    by (auto simp: sy_world_def example_taken_views example_mgr_def example_hot_is_default example_boot_def
        split: prod.splits worker_pc.splits getter.splits)
  have "system_path ?s (put_world w (set_thread 0 (Choosing x r (Limiting n a av 0)) ?s))"
    using work_path_system [OF path len] by (simp add: pw k)
  with example_taken_path have "system_path example_system (put_world w (set_thread 0 (Choosing x r (Limiting n a av 0)) ?s))"
    by simp
  then show thesis by (rule that) (simp add: example_taken_views)
qed

text \<open>The first worker, which was given the item, cannot read its request.\<close>

definition example_dropped :: system where
  "example_dropped = put_world (sy_world example_taken) (set_thread 0 Waiting example_taken)"

lemma example_dropped_step: "system_step example_taken example_dropped"
proof -
  have "worker_step ((example_env_for 200)\<lparr>we_load := Some ''locked''\<rparr>) 0 0 example_taken =
      Some (Waiting, sy_world example_taken)"
    by (simp add: worker_step_def example_taken_views GetRequest_def)
  from work [OF _ _ this] show ?thesis by (simp add: example_dropped_def example_taken_views idle_def)
qed

theorem slots_are_accounted_witness:
  "\<exists>s. system_path example_system s \<and> GetCurrentConcurrent (m_store (sy_mgr s) 0) = 1"
proof -
  obtain s n a av x req where path: "system_path example_system s"
      and threads: "sy_threads s = Choosing x req (Limiting n a av 0) # replicate 9 Waiting"
    by (rule example_slot_taken)
  have "GetCurrentConcurrent (m_store (sy_mgr s) 0) =
      int (length (filter (\<lambda>pc. 0 \<in># pc_slot pc) (sy_threads s)))"
    by (rule slots_are_accounted [OF example_booted example_disk_ok path]) (simp add: threads)
  then show ?thesis using path by (auto simp: threads)
qed

theorem one_worker_per_request_witness:
  "pc_items (sy_threads example_taken ! 0) = [0] \<and> item_request (sy_queue example_taken) 0 = ''u1'' \<and>
   ''u1'' \<notin> item_request (sy_queue example_taken) ` contents (sy_queue example_taken) \<and>
   ''u1'' \<notin> rq_ID ` set (sy_saved example_taken)"
proof -
  have "length (sy_threads example_taken) = 10" by (simp add: example_taken_views)
  moreover have "pc_items (sy_threads example_taken ! 0) = [0]" by (simp add: example_taken_views)
  ultimately show ?thesis
    using one_worker_per_request [OF example_booted example_disk_ok example_taken_path, of 0 0]
      example_taken_views(3) by auto
qed

theorem final_results_are_final_witness:
  "rq_ResponseBody (the (request_row (sy_db example_dropped) ''r2'')) = Some ''done''"
proof -
  have "Option.is_none (request_row example_disk ''r2'') = False"
      "terminal (the (request_row example_disk ''r2''))"
      "rq_ResponseBody (the (request_row example_disk ''r2'')) = Some ''done''" by code_simp+
  then obtain r where r: "request_row example_disk ''r2'' = Some r" "terminal r" "rq_ResponseBody r = Some ''done''"
    by (auto simp: Option.is_none_def)
  then have "request_row (sy_db example_system) ''r2'' = Some r"
    by (simp add: example_system_def system_of_def split_beta Let_def)
  moreover have "system_path example_system example_dropped" using example_taken_path example_dropped_step by simp
  ultimately have "request_row (sy_db example_dropped) ''r2'' = Some r"
    using final_results_are_final [OF example_booted example_disk_ok rtranclp.rtrancl_refl _ r(2)] by simp
  then show ?thesis using r(3) by simp
qed

theorem open_requests_are_not_lost_witness:
  "\<exists>e t j pc w. worker_step e t j example_taken = Some (pc, w) \<and>
     example_dropped = put_world w (set_thread j pc example_taken) \<and> access_fails e (sy_threads example_taken ! j)"
proof -
  have none: "pq_refs (q_pq (sy_queue example_taken)) = []" using example_taken_views(2) by simp
  have "busy example_taken = [0]" by (simp add: busy_def example_taken_views)
  then have "live example_taken = {0}" by (simp add: live_def outside_def example_taken_views)
  then have was_open: "''u1'' \<in> open_requests example_taken" by (simp add: open_requests_def example_taken_views)
  have "busy example_dropped = []" by (simp add: example_dropped_def busy_def example_taken_views)
  then have "live example_dropped = {}"
    by (simp add: live_def outside_def example_dropped_def example_taken_views)
  then have closed: "''u1'' \<notin> open_requests example_dropped"
    by (simp add: open_requests_def saved_ids_def example_dropped_def example_taken_views)
  have runs: "\<not> shutting_down example_taken"
    using example_not_closed by (simp add: shutting_down_def example_taken_views) (simp add: example_taken_def)
  have "int (Size (sy_queue example_taken)) < cfg_QueueMaxSize (sy_cfg example_taken)"
    by (simp add: Size_def pq_Len_def none example_taken_views example_cfg_facts)
  note not_lost = open_requests_are_not_lost [OF example_booted example_disk_ok example_taken_path was_open runs this]
  obtain e t j pc w where access: "j < length (sy_threads example_taken)" "\<not> idle (sy_threads example_taken ! j)"
      "worker_step e t j example_taken = Some (pc, w)" "example_dropped = put_world w (set_thread j pc example_taken)"
    using not_lost [THEN conjunct1, rule_format, of example_dropped] example_dropped_step closed by blast
  obtain req where "GetRequest None ''u1'' (sy_db example_taken) = Inr req" "\<not> terminal req"
    using example_loaded by (auto simp: example_taken_views)
  then have "\<not> terminal r" if "request_row (sy_db example_taken) ''u1'' = Some r" for r
    using that by (auto dest!: GetRequest_row)
  moreover have "w_db w = sy_db example_taken"
    using arg_cong [OF access(4), of sy_db] by (simp add: example_dropped_def)
  ultimately have "access_fails e (sy_threads example_taken ! j)"
    using not_lost [THEN conjunct2, rule_format, of j e t pc w] access closed by auto
  with access(3,4) show ?thesis by blast
qed

theorem running_system_is_sound_witness:
  "request_row (sy_db example_run_end) ''u1'' \<noteq> None \<and> Size (sy_queue example_run_end) = 1"
  using running_system_is_sound [OF example_booted example_disk_ok example_system_path] example_end
  by (simp add: live_def Size_def pq_Len_def)

theorem requests_left_by_a_restart_are_never_executed_witness:
  "request_row (sy_db example_run_end) ''r1'' \<noteq> None \<and> pq_refs (q_pq (sy_queue example_run_end)) = [0] \<and>
   item_request (sy_queue example_run_end) 0 \<noteq> ''r1''"
proof -
  have "Option.is_none (request_row example_disk ''r1'') = False" by code_simp
  then have "request_row (sy_db example_system) ''r1'' \<noteq> None"
    by (simp add: Option.is_none_def example_system_def system_of_def split_beta Let_def)
  from requests_left_by_a_restart_are_never_executed [OF example_booted example_disk_ok this example_system_path]
  show ?thesis using example_end(1) by simp
qed

theorem boot_serves_exactly_when_witness:
  "length (sy_workers example_system) = 10 \<and> sy_ready example_system \<le> 30 * Second"
proof -
  let ?b = "example_boot ''''"
  have facts: "map fst (sy_workers example_system) = map (\<lambda>i. NewWorker i (cfg_EncryptionKey (example_cfg ''''))) [0..9] \<and>
      sy_ready example_system \<le> be_now ?b + 30 * Second"
    using boot_serves_exactly_when [of ?b] example_booted
    by (simp add: Let_def example_cfg_facts Second_def flip: example_cfg_def)
  have "length (sy_workers example_system) = 10" using arg_cong [OF conjunct1 [OF facts], of length] by simp
  moreover have "be_now ?b = 0" by (simp add: example_boot_def)
  ultimately show ?thesis using facts by simp
qed

text \<open>An environment that \<open>Load\<close> accepts can make the program panic: with a reload interval of zero
  everything is opened, loaded and started, and then \<open>time.NewTicker\<close> panics.\<close>

theorem accepted_config_panics_at_boot:
  "boot (example_boot ''0'') = Panicked \<and>
   Load (be_parse (example_boot ''0'')) (be_env (example_boot ''0'')) = Inr (example_cfg ''0'') \<and>
   cfg_ConfigReloadInterval (example_cfg ''0'') = 0"
proof -
  have "validate (example_cfg ''0'') = None" by code_simp
  then have load: "Load (be_parse (example_boot ''0'')) (be_env (example_boot ''0'')) = Inr (example_cfg ''0'')"
    by (simp add: Load_def Let_def example_cfg_def)
  moreover have zero: "cfg_ConfigReloadInterval (example_cfg ''0'') = 0" by code_simp
  ultimately show ?thesis by (simp add: boot_def example_parts example_new_manager tickers_start_def)
qed

end
