(* ===== verification/Spec2Isabelle.thy ===== *)
theory Spec2Isabelle
  imports Service
begin

text \<open>
  The Go key pool system: an HTTP service that accepts requests for an external API, queues them
  by priority, and lets a pool of workers send them with API keys taken from a managed pool. The
  development models the program component by component, each operation as one function on the
  component's state, and proves what makes each component and their composition correct.

  \<^bold>\<open>The program.\<close> A request arrives over HTTP (\<^verbatim>\<open>internal/api\<close>), is stored in SQLite
  (\<^verbatim>\<open>internal/db\<close>) and enqueued (\<^verbatim>\<open>internal/queue\<close>). The queue's dispatch loop hands it to a
  worker (\<^verbatim>\<open>internal/worker\<close>), which takes a key from the key manager (\<^verbatim>\<open>internal/keypool\<close>),
  decrypts it (\<^verbatim>\<open>internal/crypto\<close>), sends the request (\<^verbatim>\<open>internal/httpclient\<close>) and writes the
  result back, or schedules a retry. The manager reloads its keys from the database; the
  configuration (\<^verbatim>\<open>internal/config\<close>) is read from the environment once and refreshed from the
  database. \<^verbatim>\<open>cmd/main.go\<close> migrates the database, builds all parts, starts them and stops them.

  \<^bold>\<open>The theories.\<close>
  \<^item> \<open>Go_Base\<close>, \<open>Go_Float\<close>, \<open>Go_Strings\<close>, \<open>Go_Json\<close>: the parts of Go and its standard library the
    code uses: wrapping 64-bit integers, times and durations, IEEE double arithmetic with its
    rounding, \<open>strconv.Atoi\<close> and the like, the decoding of JSON into structs.
  \<^item> \<open>Circuit_Breaker\<close> (\<^verbatim>\<open>circuitbreaker.go\<close>), \<open>Pool_Key\<close> (\<^verbatim>\<open>types.go\<close>), \<open>Key_Strategy\<close>
    (\<^verbatim>\<open>strategy.go\<close>, \<^verbatim>\<open>roundrobin.go\<close>, \<^verbatim>\<open>weightedrr.go\<close>): a key and the choice among keys.
  \<^item> \<open>Heap_Interface\<close>, \<open>Priority_Queue\<close>, \<open>Request_Queue\<close>, \<open>Queue_Dispatch\<close>: \<open>container/heap\<close> over
    an abstract interface (the locales \<open>heap_interface\<close> and \<open>heap_container\<close>), its
    interpretation on the slice of item pointers, the bounded queue, and the dispatch loop
    interleaved with its callers.
  \<^item> \<open>Static_Config\<close>, \<open>Hot_Config\<close>: \<^verbatim>\<open>internal/config\<close>.
  \<^item> \<open>Database\<close>: the SQLite adapter over the schema of \<^verbatim>\<open>migrations/\<close>; \<open>Migrations\<close>: the runner
    that brings a database to that schema (\<^verbatim>\<open>migrations.go\<close>).
  \<^item> \<open>Key_Manager\<close>: \<^verbatim>\<open>manager.go\<close>, on the theories of keys, strategies, configuration and database;
    \<open>Key_Acquire\<close> and \<open>Key_Updates\<close>: its methods access by access, with the theorem that undisturbed
    they are the functions, and what they do when others come in between.
  \<^item> \<open>Key_Crypto\<close>, \<open>Retry_Backoff\<close>, \<open>Http_Client\<close>, \<open>Worker\<close>: one worker with all it calls;
    \<open>Worker_Steps\<close>: the same access by access; \<open>Worker_Pool\<close> (\<^verbatim>\<open>pool.go\<close>): the start of all workers and
    the wait for their end.
  \<^item> \<open>Api_Server\<close> (\<^verbatim>\<open>handlers.go\<close>, \<^verbatim>\<open>helpers.go\<close>, \<^verbatim>\<open>context.go\<close>), \<open>Api_Router\<close> (\<^verbatim>\<open>router.go\<close>,
    \<^verbatim>\<open>middleware.go\<close>): the HTTP interface; \<open>Api_Access\<close>: who may do what and what a reply reveals;
    \<open>Api_Requests\<close>: what submissions and configuration changes achieve.
  \<^item> \<open>Service_Metrics\<close>: \<^verbatim>\<open>metrics.go\<close>, with concurrent recording.
  \<^item> \<open>Request_Lifecycle\<close>: a request from its submission to its answer, through handler, queue,
    database, manager and worker; \<open>Shared_State\<close>: what each handler may do to the state all share;
    \<open>Http_Server\<close>: the logger, the server and the multiplexer that \<^verbatim>\<open>main.go\<close> puts around the
    handlers; \<open>Running_System\<close>: the running program and its shutdown, interleaved at single accesses;
    \<open>Service\<close>: boot, and what holds from every boot on.

  \<^bold>\<open>How the code is rendered.\<close> A struct is a record, a pointer that is shared is a reference into a
  store, a map is a partial function, an error is a value. An operation that holds its mutex from
  start to end is one atomic function; where operations interleave (the dispatch loop, a search for
  a key, the marks, a worker, recorders of status codes, the whole system) a step relation with one
  access to shared state per step says so. Clock readings,
  random numbers, driver errors and the results of libraries outside the repository (AES-GCM, the
  HTTP transport, the JSON parser, \<open>strconv.ParseFloat\<close>, the SQL of the migrations) are arguments.
  Log output has no place in the model.

  \<^bold>\<open>What is shown.\<close> Each component keeps its invariant under all its operations, and its operations
  do what they promise on every branch: the queue refines a bounded priority buffer, the heap its
  order, the breaker a count of consecutive failures, the rate windows their limits, the manager
  the account of slots, the migrations a run in order. On these rest the properties of the whole:
  from every boot that succeeds, every interleaving of handlers, dispatch loop, workers, timers,
  reloads and shutdown keeps all invariants and lets no worker panic; no request is with two workers
  at once, no final result is ever changed, no open request is lost before the shutdown unless the
  database fails its worker, and every key's counter is the number of workers that hold it; an
  accepted request is executed as it was asked for; without the admin token nothing administrative
  changes; no reply depends on the stored form of a key. Where the code falls short of its documentation the theorem states
  what it does: requests lost at a shutdown or a restart, refused but stored submissions, the
  search for a key that tries half of them, the handlers that panic after their write, the health
  rows that lag behind the breaker.

  \<^bold>\<open>Termination and bounds.\<close> No definition uses fuel: the loops of the code are structural
  recursions over what they consume, or recursive functions with a proved measure (the sifting
  loops of the heap, draining the queue, \<open>GetKey\<close>'s loop). A call that others disturb ends too: the
  steps of a search for a key, of the marks and of a worker each have a measure. Loops that run until shutdown are
  functions of the events they receive, or step relations.

  \<^bold>\<open>Not modelled.\<close> Log output, and with it what \<open>RequestLogger\<close> writes; the \<open>net/http\<close> server and
  client themselves, whose settings are part of the state; the delivery of signals. Deadlines of
  contexts: a database call that times out is one that fails. Memory accesses without a lock are
  taken as atomic: the worker's read of a key's encrypted form races with a reload in the code.
\<close>

end
